(* ===== verification/BDR_Prelude.thy ===== *)
theory BDR_Prelude
  imports Main "HOL-Library.Word"
begin

text \<open>
  What every component of the development shares: the machine integers of the Go
  sources, the big-endian and little-endian byte encodings of \<^verbatim>\<open>encoding/binary\<close>,
  the byte-range operations \<open>bslice\<close> and \<open>overwrite\<close> that model slicing and
  \<^verbatim>\<open>copy\<close>, the relation \<open>agree_off\<close> on which the replay arguments rest, and the
  error values.
\<close>

unbundle bit_operations_syntax

type_synonym u8 = "8 word"
type_synonym u32 = "32 word"
type_synonym u64 = "64 word"
type_synonym bytes = "u8 list"

text \<open>
  Every error value the modelled functions return, and \<open>Panic\<close> for a run-time panic
  (a slice expression out of range, a nil pointer).  A fallible function returns
  \<open>go_error + 'a\<close>; \<open>Inl\<close> is the error.
\<close>

datatype go_error =
    ErrInvalidMagic
  | ErrInvalidSize
  | ErrIOFailure
  | ErrNoWriteSlots
  | ErrNoBlockSlots
  | ErrOpen
  | ErrIoctl
  | ErrEIO
  | ErrENOSPC
  | ErrEOF
  | ErrNegativeOffset
  | ErrClosed
  | ErrConnReset
  | ErrBrokenPipe
  | ErrConnRefused
  | ErrTimeout
  | ErrDecode
  | ErrMsg string
  | Panic

type_synonym 'a result = "go_error + 'a"

named_theorems bdr_simps \<open>simplification rules of the component models\<close>
named_theorems bdr_intros \<open>introduction rules for the component invariants\<close>

subsection \<open>Byte ranges\<close>

definition bslice :: "nat \<Rightarrow> nat \<Rightarrow> 'a list \<Rightarrow> 'a list" where
  "bslice off n xs = take n (drop off xs)"

definition overwrite :: "nat \<Rightarrow> 'a list \<Rightarrow> 'a list \<Rightarrow> 'a list" where
  "overwrite off xs ys = take off ys @ take (length ys - off) xs @ drop (off + length xs) ys"

lemma length_bslice [simp]: "length (bslice off n xs) = min n (length xs - off)"
  by (simp add: bslice_def min.commute)

lemma nth_bslice [simp]: "i < n \<Longrightarrow> off + i < length xs \<Longrightarrow> bslice off n xs ! i = xs ! (off + i)"
  by (simp add: bslice_def)

lemma length_overwrite [simp]: "length (overwrite off xs ys) = length ys"
  by (simp add: overwrite_def)

lemma nth_overwrite:
  "i < length ys \<Longrightarrow>
   overwrite off xs ys ! i = (if off \<le> i \<and> i < off + length xs then xs ! (i - off) else ys ! i)"
  by (auto simp: overwrite_def nth_append min_def)

lemma overwrite_Nil [simp]: "overwrite off [] ys = ys"
  by (simp add: overwrite_def)

lemma bslice_overwrite_same:
  "off + length xs \<le> length ys \<Longrightarrow> bslice off (length xs) (overwrite off xs ys) = xs"
  by (rule nth_equalityI) (auto simp: nth_overwrite)

lemma bslice_overwrite_other:
  assumes "a + n \<le> off \<or> off + length xs \<le> a"
  shows "bslice a n (overwrite off xs ys) = bslice a n ys"
  using assms by (intro nth_equalityI) (auto simp: nth_overwrite)

lemma overwrite_bslice_same [simp]: "overwrite off (bslice off n ys) ys = ys"
  by (rule nth_equalityI) (auto simp: nth_overwrite)

lemma bslice_all: "length xs \<le> n \<Longrightarrow> bslice 0 n xs = xs"
  by (simp add: bslice_def)

lemma slot_end_le:
  assumes "i < n"
  shows "a + i * (s::nat) + s \<le> a + n * s"
proof -
  have "Suc i * s \<le> n * s" using assms by (intro mult_le_mono1) simp
  then show ?thesis by simp
qed

lemma overwrite_append:
  "n = length us \<Longrightarrow> length xs \<le> length ys \<Longrightarrow>
   overwrite n xs (us @ ys) = us @ xs @ drop (length xs) ys"
  by (simp add: overwrite_def)

lemma bslice_append_left: "n \<le> length us \<Longrightarrow> bslice 0 n (us @ ys) = take n us"
  by (simp add: bslice_def)

lemma bslice_append_right: "length us \<le> off \<Longrightarrow> bslice off n (us @ ys) = bslice (off - length us) n ys"
  by (simp add: bslice_def)

lemma slots_apart: "i \<noteq> k \<Longrightarrow> a + i * s + s \<le> a + k * s \<or> a + k * s + s \<le> a + i * (s::nat)"
proof -
  assume "i \<noteq> k"
  then have "Suc i \<le> k \<or> Suc k \<le> i" by auto
  then have "Suc i * s \<le> k * s \<or> Suc k * s \<le> i * s" by (auto simp del: mult_Suc intro: mult_le_mono1)
  then show ?thesis by auto
qed

subsection \<open>Byte encodings of fixed-width integers\<close>

text \<open>
  \<open>put_be n v\<close> are the \<open>n\<close> bytes \<^verbatim>\<open>binary.BigEndian.PutUint64\<close> (\<open>n = 8\<close>) and
  \<^verbatim>\<open>PutUint32\<close> (\<open>n = 4\<close>) store, most significant byte first; \<open>get_be\<close> reads them
  back.  \<open>get_le\<close> is the little-endian read of \<^verbatim>\<open>binary.Read\<close>.
\<close>

definition put_be :: "nat \<Rightarrow> 'a::len word \<Rightarrow> bytes" where
  "put_be n v = map (\<lambda>k. ucast (drop_bit (8 * k) v)) (rev [0..<n])"

definition get_be :: "bytes \<Rightarrow> 'a::len word" where
  "get_be bs = fold (\<lambda>b acc. push_bit 8 acc OR ucast b) bs 0"

lemma length_put_be [simp]: "length (put_be n v) = n"
  by (simp add: put_be_def)

lemma put_be_Suc: "put_be (Suc n) v = ucast (drop_bit (8 * n) v) # put_be n v"
  by (simp add: put_be_def)

lemma fold_put_be:
  "fold (\<lambda>b acc. push_bit 8 acc OR ucast b) (put_be n v) acc =
   push_bit (8 * n) acc OR take_bit (8 * n) (v :: 'a::len word)"
proof (induction n arbitrary: acc)
  case 0
  then show ?case by (simp add: put_be_def)
next
  case (Suc n)
  have "push_bit (8 * n) (push_bit 8 acc OR ucast (ucast (drop_bit (8 * n) v) :: u8)) OR take_bit (8 * n) v
      = push_bit (8 * Suc n) acc OR take_bit (8 * Suc n) v"
    by (rule bit_word_eqI) (auto simp: bit_simps add.commute dest: bit_imp_le_length)
  with Suc show ?case by (simp add: put_be_Suc)
qed

lemma get_put_be: "get_be (put_be n v) = take_bit (8 * n) v"
  by (simp add: get_be_def fold_put_be)

lemma get_put_be64 [simp]: "get_be (put_be 8 v) = (v :: u64)"
  by (simp add: get_put_be take_bit_word_eq_self)

lemma get_put_be32 [simp]: "get_be (put_be 4 v) = (v :: u32)"
  by (simp add: get_put_be take_bit_word_eq_self)

lemma nth_put_be: "i < n \<Longrightarrow> put_be n v ! i = ucast (drop_bit (8 * (n - Suc i)) v)"
  by (simp add: put_be_def rev_nth del: upt_Suc)

lemma bit_u8_ge: "8 \<le> m \<Longrightarrow> \<not> bit (b :: u8) m"
  using bit_imp_le_length [of b m] by auto

lemma put_get_be:
  assumes "8 * length bs \<le> LENGTH('a::len)"
  shows "put_be (length bs) (get_be bs :: 'a word) = bs"
  using assms
proof (induction bs rule: rev_induct)
  case Nil
  then show ?case by (simp add: put_be_def)
next
  case (snoc b bs)
  let ?g = "get_be bs :: 'a word"
  have g: "get_be (bs @ [b]) = push_bit 8 ?g OR ucast b" by (simp add: get_be_def)
  have len: "8 * length bs + 8 \<le> LENGTH('a)" using snoc.prems by simp
  have "put_be (Suc (length bs)) (push_bit 8 ?g OR ucast b) = put_be (length bs) ?g @ [b]"
  proof (rule nth_equalityI)
    fix i assume "i < length (put_be (Suc (length bs)) (push_bit 8 ?g OR ucast b))"
    then have i: "i \<le> length bs" by simp
    show "put_be (Suc (length bs)) (push_bit 8 ?g OR ucast b) ! i = (put_be (length bs) ?g @ [b]) ! i"
    proof (cases "i = length bs")
      case True
      then show ?thesis using len
        by (auto simp: nth_put_be nth_append bit_simps intro!: bit_word_eqI)
    next
      case False
      then have il: "i < length bs" using i by simp
      define k where "k = length bs - Suc i"
      have k: "length bs - i = Suc k" "8 * Suc k + 8 \<le> LENGTH('a)" using il len by (auto simp: k_def)
      then show ?thesis using il
        by (auto simp: nth_put_be nth_append bit_simps bit_u8_ge k_def [symmetric] intro!: bit_word_eqI)
    qed
  qed simp
  with snoc show ?case by (simp add: g)
qed

definition put_le :: "nat \<Rightarrow> 'a::len word \<Rightarrow> bytes" where
  "put_le n v = rev (put_be n v)"

definition get_le :: "bytes \<Rightarrow> 'a::len word" where
  "get_le bs = get_be (rev bs)"

lemma length_put_le [simp]: "length (put_le n v) = n"
  by (simp add: put_le_def)

lemma get_put_le32 [simp]: "get_le (put_le 4 v) = (v :: u32)"
  by (simp add: get_le_def put_le_def)

subsection \<open>Conversions between widths\<close>

lemma unat_u32_u64 [simp]: "unat (ucast (x :: u32) :: u64) = unat x"
  by transfer (simp add: take_bit_take_bit min_def)

lemma unat_u64_u32: "unat (ucast (x :: u64) :: u32) = unat x mod 2 ^ 32"
  by (simp add: unsigned_ucast_eq take_bit_eq_mod)

lemma ucast_u32_u64_u32 [simp]: "ucast (ucast (x :: u32) :: u64) = x"
  by transfer simp

lemma bslice_bslice: "x + n \<le> m \<Longrightarrow> bslice x n (bslice y m bs) = bslice (y + x) n bs"
  by (simp add: bslice_def drop_take add.commute)

end
