(* ===== verification/Ring_Buffer.thy ===== *)
theory Ring_Buffer
  imports BDR_Prelude
begin

text \<open>
  \<^verbatim>\<open>kern/ring-buffer.c\<close>: the buffer the kernel module shares with the client.  It is a ring
  of \<^verbatim>\<open>max_writes\<close> slots, each a \<^verbatim>\<open>struct bdr_write_info\<close>.  A put reserves the next slot
  under the lock and fills it after the lock is released; the two halves are definitions of
  their own.  A read hands the new slots to user space and keeps them until the next read.
  The second half of the theory shows that the ring is a bounded queue with two regions,
  the slots handed out and the slots pending.
\<close>

definition PAGE_SIZE :: nat where
  "PAGE_SIZE = 4096"

text \<open>\<^verbatim>\<open>struct bdr_write_info\<close>: two 32-bit fields and a page of data.\<close>

definition BDR_WRITE_INFO_SIZE :: nat where
  "BDR_WRITE_INFO_SIZE = 4 + 4 + PAGE_SIZE"

definition BDR_WRITES_TO_BYTES :: "u64 \<Rightarrow> u64" where
  "BDR_WRITES_TO_BYTES n = n * of_nat BDR_WRITE_INFO_SIZE"

definition BDR_OVERFLOWN_BUFFER_FLAG :: u32 where
  "BDR_OVERFLOWN_BUFFER_FLAG = push_bit 0 1"

datatype errno = EINVAL | ENOMEM | ENOSPC | EFAULT | ENOTTY

record bdr_buffer_info =
  bi_offset :: u64
  bi_length :: u64
  bi_last :: u64
  bi_flags :: u32
  bi_max_writes :: u64

record bdr_ring_buffer =
  rb_buffer :: bytes
  rb_info :: bdr_buffer_info

definition overflown :: "bdr_buffer_info \<Rightarrow> bool" where
  "overflown bi \<longleftrightarrow> bi_flags bi AND BDR_OVERFLOWN_BUFFER_FLAG \<noteq> 0"

definition PAGE_ALIGN :: "u64 \<Rightarrow> u64" where
  "PAGE_ALIGN n = (n + (of_nat PAGE_SIZE - 1)) AND NOT (of_nat PAGE_SIZE - 1)"

text \<open>The memory \<^verbatim>\<open>vmalloc\<close> returns for a size, if it does, is the parameter \<open>vmalloc\<close>.\<close>

definition bdr_ring_buffer_init :: "(u64 \<Rightarrow> bytes option) \<Rightarrow> u32 \<Rightarrow> errno + bdr_ring_buffer" where
  "bdr_ring_buffer_init vmalloc max_writes =
     (if max_writes = 0 then Inl EINVAL
      else case vmalloc (PAGE_ALIGN (BDR_WRITES_TO_BYTES (ucast max_writes))) of
          None \<Rightarrow> Inl ENOMEM
        | Some buffer \<Rightarrow> Inr \<lparr>rb_buffer = buffer,
            rb_info = \<lparr>bi_offset = 0, bi_length = 0, bi_last = 0, bi_flags = 0, bi_max_writes = ucast max_writes\<rparr>\<rparr>)"

definition bdr_ring_buffer_is_empty :: "bdr_ring_buffer \<Rightarrow> bool" where
  "bdr_ring_buffer_is_empty rb \<longleftrightarrow> bi_last (rb_info rb) = bi_offset (rb_info rb)"

definition bdr_ring_buffer_get_info :: "bdr_ring_buffer \<Rightarrow> bdr_buffer_info" where
  "bdr_ring_buffer_get_info rb = rb_info rb"

definition bdr_ring_buffer_is_full :: "bdr_ring_buffer \<Rightarrow> bool" where
  "bdr_ring_buffer_is_full rb \<longleftrightarrow> overflown (rb_info rb)"

definition bdr_ring_buffer_update_unsafe :: "bdr_ring_buffer \<Rightarrow> bdr_ring_buffer" where
  "bdr_ring_buffer_update_unsafe rb =
     (let bi = rb_info rb;
          bi1 = bi\<lparr>bi_length := bi_length bi + 1\<rparr>;
          buffer_offset = (bi_offset bi1 + bi_length bi1) mod bi_max_writes bi1
      in rb\<lparr>rb_info := if buffer_offset = bi_last bi1
                        then bi1\<lparr>bi_flags := bi_flags bi1 OR BDR_OVERFLOWN_BUFFER_FLAG\<rparr> else bi1\<rparr>)"

definition bdr_ring_buffer_reset :: "bdr_ring_buffer \<Rightarrow> bdr_ring_buffer" where
  "bdr_ring_buffer_reset rb =
     rb\<lparr>rb_info := (rb_info rb)\<lparr>bi_offset := 0, bi_length := 0, bi_last := 0, bi_flags := 0\<rparr>\<rparr>"

definition bdr_buffer_read_routine :: "bdr_ring_buffer \<Rightarrow> bdr_buffer_info \<times> bdr_ring_buffer" where
  "bdr_buffer_read_routine rb =
     (let bi = rb_info rb in
      (bi, if \<not> overflown bi
           then rb\<lparr>rb_info := bi\<lparr>bi_last := bi_offset bi,
                                  bi_offset := (bi_offset bi + bi_length bi) mod bi_max_writes bi,
                                  bi_length := 0\<rparr>\<rparr>
           else rb))"

definition bdr_ring_buffer_read :: "bdr_ring_buffer \<Rightarrow> bdr_ring_buffer" where
  "bdr_ring_buffer_read rb =
     (let bi = rb_info rb in
      rb\<lparr>rb_info := bi\<lparr>bi_last := bi_offset bi,
                        bi_offset := (bi_offset bi + bi_length bi) mod bi_max_writes bi,
                        bi_length := 0\<rparr>\<rparr>)"

text \<open>
  The locked part of \<^verbatim>\<open>bdr_ring_buffer_put\<close>: it fails when the buffer has overflown or
  overflows now, and otherwise returns the copy of the buffer information taken before the
  update, which determines the slot.
\<close>

definition put_reserve :: "bdr_ring_buffer \<Rightarrow> (errno + bdr_buffer_info) \<times> bdr_ring_buffer" where
  "put_reserve rb =
     (if overflown (rb_info rb) then (Inl ENOSPC, rb)
      else let bi = rb_info rb; rb1 = bdr_ring_buffer_update_unsafe rb in
        if overflown (rb_info rb1) then (Inl ENOSPC, rb1) else (Inr bi, rb1))"

text \<open>The unlocked part: the header fields and \<^verbatim>\<open>copy_len\<close> bytes of the page go into the slot.\<close>

definition put_fill :: "bdr_buffer_info \<Rightarrow> u32 \<Rightarrow> u32 \<Rightarrow> bytes \<Rightarrow> u32 \<Rightarrow> u32 \<Rightarrow> bdr_ring_buffer \<Rightarrow> bdr_ring_buffer" where
  "put_fill bi sector sz page page_offset len rb =
     (let buffer_offset = ((bi_offset bi + bi_length bi) mod bi_max_writes (rb_info rb)) * of_nat BDR_WRITE_INFO_SIZE;
          slot = unat buffer_offset;
          copy_len = (ucast (min (ucast len) (of_nat PAGE_SIZE - ucast page_offset :: u64)) :: u32);
          b1 = overwrite slot (put_le 4 sector) (rb_buffer rb);
          b2 = overwrite (slot + 4) (put_le 4 sz) b1;
          b3 = overwrite (slot + 8) (bslice (unat page_offset) (unat copy_len) page) b2
      in rb\<lparr>rb_buffer := b3\<rparr>)"

definition bdr_ring_buffer_put ::
    "u32 \<Rightarrow> u32 \<Rightarrow> bytes \<Rightarrow> u32 \<Rightarrow> u32 \<Rightarrow> bdr_ring_buffer \<Rightarrow> errno option \<times> bdr_ring_buffer" where
  "bdr_ring_buffer_put sector sz page page_offset len rb = (case put_reserve rb of
     (Inl e, rb1) \<Rightarrow> (Some e, rb1)
   | (Inr bi, rb1) \<Rightarrow> (None, put_fill bi sector sz page page_offset len rb1))"

definition bdr_ring_buffer_get_byte_size :: "bdr_ring_buffer \<Rightarrow> u64" where
  "bdr_ring_buffer_get_byte_size rb = BDR_WRITES_TO_BYTES (bi_max_writes (rb_info rb))"

definition bdr_ring_buffer_get_buffer :: "bdr_ring_buffer \<Rightarrow> bytes" where
  "bdr_ring_buffer_get_buffer rb = rb_buffer rb"

subsection \<open>The ring as a queue\<close>

definition slot_bytes :: "bdr_ring_buffer \<Rightarrow> nat \<Rightarrow> bytes" where
  "slot_bytes rb i = bslice (i * BDR_WRITE_INFO_SIZE) BDR_WRITE_INFO_SIZE (rb_buffer rb)"

definition slots_from :: "bdr_ring_buffer \<Rightarrow> nat \<Rightarrow> nat \<Rightarrow> bytes list" where
  "slots_from rb start n = map (\<lambda>k. slot_bytes rb ((start + k) mod unat (bi_max_writes (rb_info rb)))) [0..<n]"

definition pending :: "bdr_ring_buffer \<Rightarrow> bytes list" where
  "pending rb = slots_from rb (unat (bi_offset (rb_info rb))) (unat (bi_length (rb_info rb)))"

definition handed_count :: "bdr_buffer_info \<Rightarrow> nat" where
  "handed_count bi = (unat (bi_offset bi) + unat (bi_max_writes bi) - unat (bi_last bi)) mod unat (bi_max_writes bi)"

definition handed :: "bdr_ring_buffer \<Rightarrow> bytes list" where
  "handed rb = slots_from rb (unat (bi_last (rb_info rb))) (handed_count (rb_info rb))"

text \<open>
  The invariant: the positions are slots, the buffer holds all slots, and unless the buffer
  has overflown the two regions together leave at least one slot free.
\<close>

definition ring_inv :: "bdr_ring_buffer \<Rightarrow> bool" where
  "ring_inv rb \<longleftrightarrow>
     0 < bi_max_writes (rb_info rb) \<and> unat (bi_max_writes (rb_info rb)) < 2 ^ 32 \<and>
     bi_offset (rb_info rb) < bi_max_writes (rb_info rb) \<and> bi_last (rb_info rb) < bi_max_writes (rb_info rb) \<and>
     unat (bi_max_writes (rb_info rb)) * BDR_WRITE_INFO_SIZE \<le> length (rb_buffer rb) \<and>
     (\<not> overflown (rb_info rb) \<longrightarrow>
        handed_count (rb_info rb) + unat (bi_length (rb_info rb)) < unat (bi_max_writes (rb_info rb)))"

text \<open>
  A write of one segment, as \<^verbatim>\<open>bdr_put_write_to_buffer\<close> puts it, and what its slot then
  holds: the sector, the length and the bytes of the segment.
\<close>

record segment =
  seg_sector :: u32
  seg_page :: bytes
  seg_off :: u32
  seg_len :: u32

definition put_segment :: "segment \<Rightarrow> bdr_ring_buffer \<Rightarrow> errno option \<times> bdr_ring_buffer" where
  "put_segment w rb = bdr_ring_buffer_put (seg_sector w) (seg_len w) (seg_page w) (seg_off w) (seg_len w) rb"

definition segment_ok :: "segment \<Rightarrow> bool" where
  "segment_ok w \<longleftrightarrow> length (seg_page w) = PAGE_SIZE \<and> unat (seg_off w) + unat (seg_len w) \<le> PAGE_SIZE"

definition segment_data :: "segment \<Rightarrow> bytes" where
  "segment_data w = bslice (unat (seg_off w)) (unat (seg_len w)) (seg_page w)"

definition entry_of :: "segment \<Rightarrow> bytes \<Rightarrow> bool" where
  "entry_of w e \<longleftrightarrow> length e = BDR_WRITE_INFO_SIZE \<and> bslice 0 4 e = put_le 4 (seg_sector w) \<and>
     bslice 4 4 e = put_le 4 (seg_len w) \<and> bslice 8 (unat (seg_len w)) e = segment_data w"

lemma ring_step: "a < M \<Longrightarrow> 0 < x \<Longrightarrow> x \<le> M \<Longrightarrow> (a + x) mod M = a \<longleftrightarrow> x = (M::nat)"
  by (auto simp: mod_if)

lemma ring_distinct:
  assumes "a < b" and "b - a < (M::nat)"
  shows "(s + a) mod M \<noteq> (s + b) mod M"
proof
  assume "(s + a) mod M = (s + b) mod M"
  then have "(s + b) mod M = (s + a) mod M" by simp
  then have "M dvd (s + b) - (s + a)" using assms(1) by (subst (asm) mod_eq_dvd_iff_nat) auto
  then have "M dvd b - a" by simp
  then show False using assms by (auto dest: dvd_imp_le)
qed

lemma handed_count_mod:
  assumes "unat (bi_offset bi) < unat (bi_max_writes bi)" and "unat (bi_last bi) < unat (bi_max_writes bi)"
  shows "(unat (bi_last bi) + handed_count bi) mod unat (bi_max_writes bi) = unat (bi_offset bi)"
proof -
  let ?M = "unat (bi_max_writes bi)"
  have "(unat (bi_last bi) + handed_count bi) mod ?M
      = (unat (bi_last bi) + (unat (bi_offset bi) + ?M - unat (bi_last bi))) mod ?M"
    by (simp add: handed_count_def mod_add_right_eq)
  also have "unat (bi_last bi) + (unat (bi_offset bi) + ?M - unat (bi_last bi)) = unat (bi_offset bi) + ?M"
    using assms by simp
  finally show ?thesis using assms by simp
qed

text \<open>The invariant read over natural numbers.\<close>

lemma ring_invD:
  assumes "ring_inv rb"
  defines "bi \<equiv> rb_info rb"
  defines "M \<equiv> unat (bi_max_writes bi)"
  shows "0 < M" "M < 2 ^ 32" "unat (bi_offset bi) < M" "unat (bi_last bi) < M"
    "M * BDR_WRITE_INFO_SIZE \<le> length (rb_buffer rb)"
    "\<not> overflown bi \<Longrightarrow> handed_count bi + unat (bi_length bi) < M"
    "handed_count bi < M"
  using assms by (auto simp: ring_inv_def word_less_nat_alt handed_count_def)

lemma unat_ring_index:
  assumes "ring_inv rb" and "\<not> overflown (rb_info rb)" and "x \<le> 1"
  shows "unat (bi_offset (rb_info rb) + (bi_length (rb_info rb) + x))
       = unat (bi_offset (rb_info rb)) + (unat (bi_length (rb_info rb)) + unat x)"
proof -
  note i = ring_invD [OF assms(1)]
  have "unat x \<le> 1" using assms(3) by (simp add: word_le_nat_alt)
  then show ?thesis using i assms(2) by (simp add: unat_word_ariths)
qed

lemma overflown_set [simp]:
  "overflown (bi\<lparr>bi_flags := bi_flags bi OR BDR_OVERFLOWN_BUFFER_FLAG\<rparr>)"
  "overflown (bi\<lparr>bi_length := l\<rparr>) = overflown bi" "overflown (bi\<lparr>bi_offset := l\<rparr>) = overflown bi"
  "overflown (bi\<lparr>bi_last := l\<rparr>) = overflown bi"
  by (simp_all add: overflown_def BDR_OVERFLOWN_BUFFER_FLAG_def bit.conj_disj_distrib2)

lemma put_reserve_cases:
  assumes inv: "ring_inv rb" and free: "\<not> overflown (rb_info rb)"
  defines "bi \<equiv> rb_info rb"
  shows "put_reserve rb =
    (if handed_count bi + unat (bi_length bi) + 1 < unat (bi_max_writes bi)
     then (Inr bi, rb\<lparr>rb_info := bi\<lparr>bi_length := bi_length bi + 1\<rparr>\<rparr>)
     else (Inl ENOSPC, rb\<lparr>rb_info := bi\<lparr>bi_length := bi_length bi + 1,
             bi_flags := bi_flags bi OR BDR_OVERFLOWN_BUFFER_FLAG\<rparr>\<rparr>))"
proof -
  let ?M = "unat (bi_max_writes bi)" and ?L = "unat (bi_length bi)" and ?h = "handed_count bi"
  note i = ring_invD [OF inv, folded bi_def]
  have "(bi_offset bi + (bi_length bi + 1)) mod bi_max_writes bi = bi_last bi \<longleftrightarrow>
      (unat (bi_offset bi) + (?L + 1)) mod ?M = unat (bi_last bi)"
    using unat_ring_index [OF inv free, of 1] by (simp add: word_unat_eq_iff unat_mod bi_def)
  also have "(unat (bi_offset bi) + (?L + 1)) mod ?M = (unat (bi_last bi) + (?h + ?L + 1)) mod ?M"
    using handed_count_mod [of bi] i by (metis add.assoc mod_add_left_eq)
  also have "\<dots> = unat (bi_last bi) \<longleftrightarrow> ?h + ?L + 1 = ?M"
    using i free by (intro ring_step) (auto simp: bi_def)
  finally have eq: "(bi_offset bi + (bi_length bi + 1)) mod bi_max_writes bi = bi_last bi \<longleftrightarrow> ?h + ?L + 1 = ?M" .
  show ?thesis using eq free i(6) unfolding put_reserve_def bdr_ring_buffer_update_unsafe_def
    by (auto simp: Let_def bi_def [symmetric] overflown_def BDR_OVERFLOWN_BUFFER_FLAG_def bit.conj_disj_distrib2)
qed

lemma put_fill_buffer:
  assumes "segment_ok w" and "i < M" and "M * BDR_WRITE_INFO_SIZE \<le> length (rb_buffer rb)" and "M < 2 ^ 32"
    and "unat ((bi_offset bi + bi_length bi) mod bi_max_writes (rb_info rb)) = i"
  defines "rb' \<equiv> put_fill bi (seg_sector w) (seg_len w) (seg_page w) (seg_off w) (seg_len w) rb"
  shows "entry_of w (slot_bytes rb' i)"
    and "k \<noteq> i \<Longrightarrow> slot_bytes rb' k = slot_bytes rb k"
    and "rb_info rb' = rb_info rb" and "length (rb_buffer rb') = length (rb_buffer rb)"
proof -
  let ?W = BDR_WRITE_INFO_SIZE
  let ?copied = "segment_data w"
  have W: "?W = 4104" by (simp add: BDR_WRITE_INFO_SIZE_def PAGE_SIZE_def)
  have ok: "unat (seg_off w) + unat (seg_len w) \<le> 4096" "length (seg_page w) = 4096"
    using assms(1) by (simp_all add: segment_ok_def PAGE_SIZE_def)
  have "i * ?W < 2 ^ 64" using assms(2,4) by (simp add: W)
  then have slot: "unat (((bi_offset bi + bi_length bi) mod bi_max_writes (rb_info rb)) * of_nat ?W) = i * ?W"
    using assms(5) by (simp add: unat_word_ariths W)
  have u: "unat (of_nat PAGE_SIZE - ucast (seg_off w) :: u64) = 4096 - unat (seg_off w)"
    using ok by (simp add: PAGE_SIZE_def unat_sub_if')
  have "min (ucast (seg_len w)) (of_nat PAGE_SIZE - ucast (seg_off w) :: u64) = ucast (seg_len w)"
    using ok(1) u by (intro min_absorb1) (simp add: word_le_nat_alt)
  then have copy: "(ucast (min (ucast (seg_len w)) (of_nat PAGE_SIZE - ucast (seg_off w) :: u64)) :: u32) = seg_len w"
    by simp
  have len: "length ?copied = unat (seg_len w)" using ok by (simp add: segment_data_def)
  have fit: "i * ?W + ?W \<le> length (rb_buffer rb)"
    using slot_end_le [OF assms(2), of 0 ?W] assms(3) by simp
  have b: "rb_buffer rb' = overwrite (i * ?W + 8) ?copied (overwrite (i * ?W + 4) (put_le 4 (seg_len w))
      (overwrite (i * ?W) (put_le 4 (seg_sector w)) (rb_buffer rb)))"
    unfolding rb'_def put_fill_def by (simp add: Let_def slot copy segment_data_def)
  show "rb_info rb' = rb_info rb" by (simp add: rb'_def put_fill_def Let_def)
  show "length (rb_buffer rb') = length (rb_buffer rb)" by (simp add: b)
  show "slot_bytes rb' k = slot_bytes rb k" if "k \<noteq> i"
  proof -
    have "bslice (k * ?W) ?W (overwrite (i * ?W + a) xs bs) = bslice (k * ?W) ?W bs"
      if "a + length xs \<le> ?W" for a xs and bs :: bytes
      by (rule bslice_overwrite_other) (use slots_apart [OF \<open>k \<noteq> i\<close>, of 0 ?W] that in linarith)
    from this [of 0] this [of 4] this [of 8] show ?thesis unfolding slot_bytes_def b using len ok(1) W by simp
  qed
  have "bslice 0 4 (slot_bytes rb' i) = put_le 4 (seg_sector w)"
    using bslice_overwrite_same [of "i * ?W" "put_le 4 (seg_sector w)" "rb_buffer rb"] fit
    by (simp add: slot_bytes_def bslice_bslice b W bslice_overwrite_other)
  moreover have "bslice 4 4 (slot_bytes rb' i) = put_le 4 (seg_len w)"
    using bslice_overwrite_same [of "i * ?W + 4" "put_le 4 (seg_len w)" "overwrite (i * ?W) (put_le 4 (seg_sector w)) (rb_buffer rb)"] fit
    by (simp add: slot_bytes_def bslice_bslice b W bslice_overwrite_other)
  moreover have "bslice 8 (unat (seg_len w)) (slot_bytes rb' i) = ?copied"
    using bslice_overwrite_same [of "i * ?W + 8" ?copied] fit len ok
    by (simp add: slot_bytes_def bslice_bslice b W)
  ultimately show "entry_of w (slot_bytes rb' i)"
    using fit by (simp add: slot_bytes_def entry_of_def W b)
qed

lemma slots_from_cong:
  assumes "bi_max_writes (rb_info rb') = bi_max_writes (rb_info rb)"
    and "\<And>k. k < n \<Longrightarrow> slot_bytes rb' ((start + k) mod unat (bi_max_writes (rb_info rb)))
                      = slot_bytes rb ((start + k) mod unat (bi_max_writes (rb_info rb)))"
  shows "slots_from rb' start n = slots_from rb start n"
  using assms by (simp add: slots_from_def)

lemma length_pending [simp]: "length (pending rb) = unat (bi_length (rb_info rb))"
  by (simp add: pending_def slots_from_def)

lemma length_handed [simp]: "length (handed rb) = handed_count (rb_info rb)"
  by (simp add: handed_def slots_from_def)

lemma handed_count_frame [simp]:
  "handed_count (bi\<lparr>bi_length := l\<rparr>) = handed_count bi" "handed_count (bi\<lparr>bi_flags := f\<rparr>) = handed_count bi"
  by (simp_all add: handed_count_def)

lemma put_segment_room:
  assumes inv: "ring_inv rb" and free: "\<not> overflown (rb_info rb)" and w: "segment_ok w"
    and room: "handed_count (rb_info rb) + unat (bi_length (rb_info rb)) + 1 < unat (bi_max_writes (rb_info rb))"
  obtains rb' where "put_segment w rb = (None, rb')" and "ring_inv rb'" and "\<not> overflown (rb_info rb')"
    and "rb_info rb' = (rb_info rb)\<lparr>bi_length := bi_length (rb_info rb) + 1\<rparr>"
    and "handed rb' = handed rb" and "\<exists>e. entry_of w e \<and> pending rb' = pending rb @ [e]"
proof -
  define bi where "bi = rb_info rb"
  let ?M = "unat (bi_max_writes bi)" and ?L = "unat (bi_length bi)" and ?h = "handed_count bi"
  let ?rb1 = "rb\<lparr>rb_info := bi\<lparr>bi_length := bi_length bi + 1\<rparr>\<rparr>"
  define rb2 where "rb2 = put_fill bi (seg_sector w) (seg_len w) (seg_page w) (seg_off w) (seg_len w) ?rb1"
  define i where "i = (unat (bi_offset bi) + ?L) mod ?M"
  note I = ring_invD [OF inv, folded bi_def]
  have L: "unat (bi_length bi + 1) = ?L + 1"
    using room I by (simp add: unat_word_ariths bi_def)
  have at: "unat ((bi_offset bi + bi_length bi) mod bi_max_writes (rb_info ?rb1)) = i"
    using unat_ring_index [OF inv free, of 0] by (simp add: i_def bi_def unat_mod)
  have "i < ?M" using I by (simp add: i_def)
  moreover have "?M * BDR_WRITE_INFO_SIZE \<le> length (rb_buffer ?rb1)" using I by simp
  ultimately have f: "entry_of w (slot_bytes rb2 i)" "\<And>k. k \<noteq> i \<Longrightarrow> slot_bytes rb2 k = slot_bytes ?rb1 k"
      "rb_info rb2 = rb_info ?rb1" "length (rb_buffer rb2) = length (rb_buffer ?rb1)"
    using put_fill_buffer [OF w _ _ I(2) at, folded rb2_def] by blast+
  have same: "slot_bytes ?rb1 k = slot_bytes rb k" for k by (simp add: slot_bytes_def)
  have put: "put_segment w rb = (None, rb2)"
    using put_reserve_cases [OF inv free] room by (simp add: put_segment_def bdr_ring_buffer_put_def bi_def rb2_def)
  have inv': "ring_inv rb2" using inv free f room L
    by (simp add: ring_inv_def bi_def word_less_nat_alt)
  have other: "slots_from rb2 start n = slots_from rb start n"
    if "\<And>k. k < n \<Longrightarrow> (start + k) mod ?M \<noteq> i" for start n
    using f(2) that same by (intro slots_from_cong) (simp_all add: f(3) bi_def)
  have "(unat (bi_last bi) + ?h + ?L) mod ?M = i"
    using handed_count_mod [of bi] I unfolding i_def by (metis mod_add_left_eq)
  then have "(unat (bi_last bi) + k) mod ?M \<noteq> i" if "k < ?h" for k
    using ring_distinct [of k "?h + ?L" ?M "unat (bi_last bi)"] room that by (simp add: bi_def add.assoc)
  then have h: "handed rb2 = handed rb" using other by (simp add: handed_def f(3) bi_def)
  have "(unat (bi_offset bi) + k) mod ?M \<noteq> i" if "k < ?L" for k
    using ring_distinct [of k ?L ?M "unat (bi_offset bi)"] room that by (simp add: i_def bi_def)
  then have "slots_from rb2 (unat (bi_offset bi)) ?L = slots_from rb (unat (bi_offset bi)) ?L" by (rule other)
  then have p: "pending rb2 = pending rb @ [slot_bytes rb2 i]"
    using L by (simp add: pending_def f(3) slots_from_def bi_def i_def)
  show ?thesis
    by (rule that [OF put inv']) (use free h p f(1,3) in \<open>auto simp: bi_def\<close>)
qed

lemma put_segment_full:
  assumes inv: "ring_inv rb"
    and full: "overflown (rb_info rb) \<or>
      unat (bi_max_writes (rb_info rb)) \<le> handed_count (rb_info rb) + unat (bi_length (rb_info rb)) + 1"
  obtains rb' where "put_segment w rb = (Some ENOSPC, rb')" and "ring_inv rb'" and "overflown (rb_info rb')"
    and "handed rb' = handed rb" and "bi_max_writes (rb_info rb') = bi_max_writes (rb_info rb)"
proof (cases "overflown (rb_info rb)")
  case True
  then have "put_segment w rb = (Some ENOSPC, rb)"
    by (simp add: put_segment_def bdr_ring_buffer_put_def put_reserve_def)
  then show ?thesis using that inv True by blast
next
  case False
  define rb' where "rb' = rb\<lparr>rb_info := (rb_info rb)\<lparr>bi_length := bi_length (rb_info rb) + 1,
      bi_flags := bi_flags (rb_info rb) OR BDR_OVERFLOWN_BUFFER_FLAG\<rparr>\<rparr>"
  have "put_segment w rb = (Some ENOSPC, rb')"
    using put_reserve_cases [OF inv False] full False by (simp add: put_segment_def bdr_ring_buffer_put_def rb'_def)
  moreover have o: "overflown (rb_info rb')"
    by (simp add: rb'_def overflown_def BDR_OVERFLOWN_BUFFER_FLAG_def bit.conj_disj_distrib2)
  moreover from this have "ring_inv rb'" using inv by (simp add: ring_inv_def rb'_def)
  moreover have "handed rb' = handed rb" by (simp add: handed_def rb'_def slots_from_def slot_bytes_def)
  ultimately show ?thesis using that by (simp add: rb'_def)
qed

lemma read_routine_hands_over:
  assumes inv: "ring_inv rb" and free: "\<not> overflown (rb_info rb)"
  defines "rb' \<equiv> snd (bdr_buffer_read_routine rb)"
  shows "ring_inv rb'" and "\<not> overflown (rb_info rb')" and "handed rb' = pending rb" and "pending rb' = []"
    and "bi_max_writes (rb_info rb') = bi_max_writes (rb_info rb)"
    and "unat (bi_last (rb_info rb')) = unat (bi_offset (rb_info rb))"
    and "handed_count (rb_info rb') = unat (bi_length (rb_info rb))"
proof -
  define bi where "bi = rb_info rb"
  let ?M = "unat (bi_max_writes bi)"
  note I = ring_invD [OF inv, folded bi_def]
  have rb': "rb' = rb\<lparr>rb_info := bi\<lparr>bi_last := bi_offset bi,
      bi_offset := (bi_offset bi + bi_length bi) mod bi_max_writes bi, bi_length := 0\<rparr>\<rparr>"
    using free by (simp add: rb'_def bdr_buffer_read_routine_def Let_def bi_def)
  have off: "unat ((bi_offset bi + bi_length bi) mod bi_max_writes bi) = (unat (bi_offset bi) + unat (bi_length bi)) mod ?M"
    using unat_ring_index [OF inv free, of 0] by (simp add: bi_def unat_mod)
  have L: "unat (bi_length bi) < ?M" using I(6) free by (simp add: bi_def)
  show cnt: "handed_count (rb_info rb') = unat (bi_length (rb_info rb))"
  proof (cases "unat (bi_offset bi) + unat (bi_length bi) < ?M")
    case True
    then show ?thesis using L by (simp add: rb' handed_count_def off flip: bi_def)
  next
    case False
    then have "(unat (bi_offset bi) + unat (bi_length bi)) mod ?M = unat (bi_offset bi) + unat (bi_length bi) - ?M"
      using I(3) L by (simp add: mod_if)
    then show ?thesis using L False I(3) by (simp add: rb' handed_count_def off flip: bi_def)
  qed
  show "\<not> overflown (rb_info rb')" using free by (simp add: rb' bi_def)
  show "ring_inv rb'" using inv I L cnt free off
    by (simp add: ring_inv_def rb' bi_def word_less_nat_alt)
  show "pending rb' = []" by (simp add: pending_def slots_from_def rb')
  show "bi_max_writes (rb_info rb') = bi_max_writes (rb_info rb)"
    and "unat (bi_last (rb_info rb')) = unat (bi_offset (rb_info rb))" by (simp_all add: rb' bi_def)
  then show "handed rb' = pending rb"
    using cnt by (simp add: handed_def pending_def slots_from_def slot_bytes_def rb' bi_def)
qed

lemma put_segment_queue:
  assumes inv: "ring_inv rb" and w: "segment_ok w"
  defines "rb' \<equiv> snd (put_segment w rb)"
  shows "ring_inv rb' \<and> handed rb' = handed rb \<and> bi_max_writes (rb_info rb') = bi_max_writes (rb_info rb) \<and>
    (overflown (rb_info rb') \<longleftrightarrow> overflown (rb_info rb) \<or>
      unat (bi_max_writes (rb_info rb)) \<le> length (handed rb) + length (pending rb) + 1) \<and>
    (\<not> overflown (rb_info rb') \<longrightarrow> (\<exists>e. entry_of w e \<and> pending rb' = pending rb @ [e]))"
proof (cases "overflown (rb_info rb) \<or>
    unat (bi_max_writes (rb_info rb)) \<le> handed_count (rb_info rb) + unat (bi_length (rb_info rb)) + 1")
  case True
  show ?thesis
    by (rule put_segment_full [OF inv True, of w]) (use True in \<open>simp add: rb'_def\<close>)
next
  case False
  then have n: "\<not> overflown (rb_info rb)"
    and r: "handed_count (rb_info rb) + unat (bi_length (rb_info rb)) + 1 < unat (bi_max_writes (rb_info rb))"
    by auto
  show ?thesis
    by (rule put_segment_room [OF inv n w r]) (use False in \<open>simp add: rb'_def\<close>)
qed

text \<open>
  What the client relies on: a queue of bounded capacity that hands all pending entries out
  at once and keeps the entries handed out untouched until the next hand-over.
\<close>

locale write_queue =
  fixes inv :: "'s \<Rightarrow> bool" and over :: "'s \<Rightarrow> bool" and pend hand :: "'s \<Rightarrow> 'e list" and cap :: "'s \<Rightarrow> nat"
    and put :: "'a \<Rightarrow> 's \<Rightarrow> 's" and hand_over :: "'s \<Rightarrow> 's" and ok :: "'a \<Rightarrow> bool" and stores :: "'a \<Rightarrow> 'e \<Rightarrow> bool"
  assumes room: "inv s \<Longrightarrow> \<not> over s \<Longrightarrow> length (hand s) + length (pend s) < cap s"
    and put_keeps: "inv s \<Longrightarrow> ok a \<Longrightarrow> inv (put a s) \<and> hand (put a s) = hand s \<and> cap (put a s) = cap s"
    and put_over: "inv s \<Longrightarrow> ok a \<Longrightarrow>
      over (put a s) \<longleftrightarrow> over s \<or> cap s \<le> length (hand s) + length (pend s) + 1"
    and put_pend: "inv s \<Longrightarrow> ok a \<Longrightarrow> \<not> over (put a s) \<Longrightarrow> \<exists>e. stores a e \<and> pend (put a s) = pend s @ [e]"
    and hand_over_all: "inv s \<Longrightarrow> \<not> over s \<Longrightarrow>
      inv (hand_over s) \<and> \<not> over (hand_over s) \<and> hand (hand_over s) = pend s \<and> pend (hand_over s) = [] \<and>
      cap (hand_over s) = cap s"
begin

lemma puts_keep:
  "inv s \<Longrightarrow> list_all ok as \<Longrightarrow>
   inv (fold put as s) \<and> hand (fold put as s) = hand s \<and> cap (fold put as s) = cap s"
  using put_keeps by (induction as arbitrary: s) auto

lemma puts_over_mono: "inv s \<Longrightarrow> list_all ok as \<Longrightarrow> over s \<Longrightarrow> over (fold put as s)"
  using put_keeps put_over by (induction as arbitrary: s) auto

lemma puts_over:
  "inv s \<Longrightarrow> list_all ok as \<Longrightarrow> \<not> over s \<Longrightarrow>
   over (fold put as s) \<longleftrightarrow> cap s \<le> length (hand s) + length (pend s) + length as"
proof (induction as arbitrary: s)
  case Nil
  then show ?case using room [of s] by simp
next
  case (Cons a as)
  note k = put_keeps [of s a] and o = put_over [of s a]
  show ?case
  proof (cases "over (put a s)")
    case True
    then show ?thesis using Cons.prems k o puts_over_mono [of "put a s" as] by auto
  next
    case False
    then obtain e where "pend (put a s) = pend s @ [e]" using put_pend [of s a] Cons.prems by auto
    then show ?thesis using Cons.prems Cons.IH [of "put a s"] k False by simp
  qed
qed

lemma puts_pend:
  "inv s \<Longrightarrow> list_all ok as \<Longrightarrow> \<not> over (fold put as s) \<Longrightarrow>
   \<exists>es. list_all2 stores as es \<and> pend (fold put as s) = pend s @ es"
proof (induction as arbitrary: s)
  case Nil
  then show ?case by simp
next
  case (Cons a as)
  have no: "\<not> over (put a s)" using Cons.prems puts_over_mono [of "put a s" as] put_keeps [of s a] by auto
  then obtain e where e: "stores a e" "pend (put a s) = pend s @ [e]" using put_pend [of s a] Cons.prems by auto
  moreover obtain es where "list_all2 stores as es" "pend (fold put as (put a s)) = pend (put a s) @ es"
    using Cons.IH [of "put a s"] Cons.prems put_keeps [of s a] by auto
  ultimately show ?case by (intro exI [of _ "e # es"]) simp
qed

text \<open>A batch put into an empty queue is what the next hand-over gives, and it stays so.\<close>

lemma batch:
  assumes "inv s" and "list_all ok as" and "list_all ok bs" and "pend s = []" and "\<not> over (fold put as s)"
  defines "t \<equiv> hand_over (fold put as s)"
  shows "inv t" and "\<exists>es. list_all2 stores as es \<and> hand t = es \<and> hand (fold put bs t) = es"
  using puts_keep [OF assms(1,2)] puts_pend [OF assms(1,2,5)] hand_over_all [of "fold put as s"] assms(4,5)
    puts_keep [of t bs] assms(3) by (auto simp: t_def)

end

interpretation ring: write_queue ring_inv "\<lambda>rb. overflown (rb_info rb)" pending handed
  "\<lambda>rb. unat (bi_max_writes (rb_info rb))"
  "\<lambda>w rb. snd (put_segment w rb)" "\<lambda>rb. snd (bdr_buffer_read_routine rb)" segment_ok entry_of
proof unfold_locales
  fix s :: bdr_ring_buffer
  assume "ring_inv s" and "\<not> overflown (rb_info s)"
  then show "length (handed s) + length (pending s) < unat (bi_max_writes (rb_info s))"
    using ring_invD(6) by simp
qed (use put_segment_queue read_routine_hands_over in auto)

definition put_segments :: "segment list \<Rightarrow> bdr_ring_buffer \<Rightarrow> bdr_ring_buffer" where
  "put_segments ws rb = fold (\<lambda>w rb. snd (put_segment w rb)) ws rb"

lemma put_segment_position [simp]:
  "bi_last (rb_info (snd (put_segment w rb))) = bi_last (rb_info rb)"
  "bi_offset (rb_info (snd (put_segment w rb))) = bi_offset (rb_info rb)"
  by (simp_all add: put_segment_def bdr_ring_buffer_put_def put_reserve_def put_fill_def Let_def
      bdr_ring_buffer_update_unsafe_def)

lemma put_segments_position [simp]:
  "bi_last (rb_info (put_segments ws rb)) = bi_last (rb_info rb) \<and>
   bi_offset (rb_info (put_segments ws rb)) = bi_offset (rb_info rb)"
  by (induction ws arbitrary: rb) (simp_all add: put_segments_def)

lemma handed_put_segments:
  assumes "ring_inv rb" and "list_all segment_ok ws"
  shows "handed (put_segments ws rb) =
    slots_from (put_segments ws rb) (unat (bi_last (rb_info rb))) (handed_count (rb_info rb))"
proof -
  have "handed_count (rb_info (put_segments ws rb)) = handed_count (rb_info rb)"
    using ring.puts_keep [OF assms, folded put_segments_def] by (metis length_handed)
  then show ?thesis by (simp add: handed_def)
qed

lemma PAGE_ALIGN_ge:
  assumes "unat n + 4095 < 2 ^ 64"
  shows "unat n \<le> unat (PAGE_ALIGN n)"
proof -
  have m: "(of_nat PAGE_SIZE - 1 :: u64) = mask 12" by (simp add: PAGE_SIZE_def mask_eq_exp_minus_1)
  have "PAGE_ALIGN n = push_bit 12 (drop_bit 12 (n + mask 12))"
    unfolding PAGE_ALIGN_def m by (rule bit_word_eqI) (auto simp: bit_simps)
  also have "mask 12 = (4095 :: u64)" by (simp add: mask_eq_exp_minus_1)
  finally have "PAGE_ALIGN n = push_bit 12 (drop_bit 12 (n + 4095))" .
  then have "unat (PAGE_ALIGN n) = take_bit 64 (push_bit 12 (drop_bit 12 (take_bit 64 (unat (n + 4095)))))"
    by (simp add: unsigned_push_bit_eq unsigned_drop_bit_eq)
  also have "unat (n + 4095) = unat n + 4095" using assms by (simp add: unat_word_ariths)
  also have "take_bit 64 (push_bit 12 (drop_bit 12 (take_bit 64 (unat n + 4095)))) = (unat n + 4095) div 4096 * 4096"
    using assms by (simp add: push_bit_eq_mult drop_bit_eq_div take_bit_eq_mod)
  also have "unat n \<le> (unat n + 4095) div 4096 * 4096"
    using div_mult_mod_eq [of "unat n + 4095" 4096] mod_less_divisor [of 4096 "unat n + 4095"] by linarith
  finally show ?thesis .
qed

lemma init_ring_inv:
  assumes "bdr_ring_buffer_init vmalloc max_writes = Inr rb"
    and "\<And>n m. vmalloc n = Some m \<Longrightarrow> length m = unat n"
  shows "ring_inv rb" and "\<not> overflown (rb_info rb)" and "pending rb = []" and "handed rb = []"
proof -
  let ?n = "BDR_WRITES_TO_BYTES (ucast max_writes)"
  have u: "unat max_writes < 2 ^ 32" using unsigned_less [of max_writes] by simp
  have n: "unat ?n = unat max_writes * BDR_WRITE_INFO_SIZE"
    using u by (simp add: BDR_WRITES_TO_BYTES_def unat_word_ariths BDR_WRITE_INFO_SIZE_def PAGE_SIZE_def)
  obtain m where m: "vmalloc (PAGE_ALIGN ?n) = Some m" "max_writes \<noteq> 0"
      "rb = \<lparr>rb_buffer = m, rb_info = \<lparr>bi_offset = 0, bi_length = 0, bi_last = 0, bi_flags = 0, bi_max_writes = ucast max_writes\<rparr>\<rparr>"
    using assms(1) by (auto simp: bdr_ring_buffer_init_def split: if_splits option.splits)
  have "unat ?n + 4095 < 2 ^ 64" using u by (simp add: n BDR_WRITE_INFO_SIZE_def PAGE_SIZE_def)
  then have len: "unat max_writes * BDR_WRITE_INFO_SIZE \<le> length m"
    using PAGE_ALIGN_ge [of ?n] assms(2) [OF m(1)] n by simp
  have pos: "0 < unat max_writes" using m(2) by (simp add: unat_gt_0 word_gt_0)
  show "\<not> overflown (rb_info rb)" "pending rb = []" "handed rb = []"
    by (simp_all add: m overflown_def pending_def handed_def slots_from_def handed_count_def)
  show "ring_inv rb" using u pos len
    by (simp add: m ring_inv_def word_less_nat_alt handed_count_def)
qed

subsection \<open>Properties\<close>

text \<open>
  C9: The shared buffer is a lossless queue until it reports an overflow.  Start from a
  buffer with nothing pending and put any list of segments: the overflow flag is set
  exactly when the slots still handed out and the new ones do not leave one slot free.  If
  it is not set, the next read returns the position and number of exactly these segments;
  the slots there hold them in order, and they keep doing so through any further puts until
  the read after that.
\<close>

theorem ring_buffer_fifo:
  assumes "ring_inv rb" and "\<not> overflown (rb_info rb)" and "pending rb = []"
    and "list_all segment_ok ws" and "list_all segment_ok later"
  shows "(overflown (rb_info (put_segments ws rb)) \<longleftrightarrow>
           unat (bi_max_writes (rb_info rb)) \<le> length (handed rb) + length ws) \<and>
    (\<not> overflown (rb_info (put_segments ws rb)) \<longrightarrow>
      (case bdr_buffer_read_routine (put_segments ws rb) of (info, rb') \<Rightarrow>
         unat (bi_length info) = length ws \<and> \<not> overflown info \<and>
         (\<exists>es. list_all2 entry_of ws es \<and>
            slots_from (put_segments later rb') (unat (bi_offset info)) (unat (bi_length info)) = es)))"
proof -
  let ?rb1 = "put_segments ws rb"
  obtain info rb' where r: "bdr_buffer_read_routine ?rb1 = (info, rb')" by fastforce
  have info: "info = rb_info ?rb1" using r by (simp add: bdr_buffer_read_routine_def Let_def)
  note k = ring.puts_keep [OF assms(1,4), folded put_segments_def]
  have "unat (bi_length info) = length ws \<and> \<not> overflown info \<and>
     (\<exists>es. list_all2 entry_of ws es \<and>
        slots_from (put_segments later rb') (unat (bi_offset info)) (unat (bi_length info)) = es)"
    if no: "\<not> overflown (rb_info ?rb1)"
  proof -
    note b = ring.batch [OF assms(1,4,5,3), folded put_segments_def, OF no, unfolded r snd_conv]
    note h = read_routine_hands_over [OF conjunct1 [OF k] no, unfolded r snd_conv]
    note k' = ring.puts_keep [OF h(1) assms(5), folded put_segments_def]
    obtain es where es: "list_all2 entry_of ws es" "handed rb' = es" "handed (put_segments later rb') = es"
      using b(2) by blast
    have "unat (bi_length info) = length ws"
      using h(3) es list_all2_lengthD [OF es(1)] by (simp add: info flip: length_pending)
    moreover have "slots_from (put_segments later rb') (unat (bi_offset info)) (unat (bi_length info)) = es"
      using handed_put_segments [OF h(1) assms(5)] es(3) h(6,7) by (simp add: info)
    ultimately show ?thesis using es(1) no info by blast
  qed
  then show ?thesis unfolding r prod.case
    using ring.puts_over [OF assms(1,4,2), folded put_segments_def] assms(3) by (intro conjI [OF _ impI]) (simp, blast)
qed

text \<open>
  C36: The slot of a put is visible before it is filled: a read between the locked and the
  unlocked part of \<^verbatim>\<open>bdr_ring_buffer_put\<close> hands out, as its last entry, whatever bytes the
  slot held before.
\<close>

theorem reserved_slot_read_early:
  assumes "ring_inv rb" and "put_reserve rb = (Inr bi, rb1)" and "bdr_buffer_read_routine rb1 = (info, rb2)"
  shows "unat (bi_length info) = length (pending rb) + 1 \<and>
    handed rb2 = pending rb @ [slot_bytes rb ((unat (bi_offset (rb_info rb)) + unat (bi_length (rb_info rb)))
                                  mod unat (bi_max_writes (rb_info rb)))]"
proof -
  have free: "\<not> overflown (rb_info rb)" using assms(2) by (auto simp: put_reserve_def)
  note c = put_reserve_cases [OF assms(1) free]
  have room: "handed_count (rb_info rb) + unat (bi_length (rb_info rb)) + 1 < unat (bi_max_writes (rb_info rb))"
    and rb1: "rb1 = rb\<lparr>rb_info := (rb_info rb)\<lparr>bi_length := bi_length (rb_info rb) + 1\<rparr>\<rparr>"
    using c assms(2) by (auto split: if_splits)
  have L: "unat (bi_length (rb_info rb) + 1) = unat (bi_length (rb_info rb)) + 1"
    using room ring_invD [OF assms(1)] by (simp add: unat_word_ariths)
  have inv1: "ring_inv rb1" and free1: "\<not> overflown (rb_info rb1)"
    using assms(1) free room L by (auto simp: rb1 ring_inv_def)
  have "handed rb2 = pending rb1" using read_routine_hands_over(3) [OF inv1 free1] assms(3) by simp
  moreover have "unat (bi_length info) = length (pending rb) + 1"
    using assms(3) L by (auto simp: bdr_buffer_read_routine_def Let_def rb1)
  ultimately show ?thesis using L by (simp add: rb1 pending_def slots_from_def slot_bytes_def)
qed

text \<open>A ring of four slots, and two segments.\<close>

definition demo_ring :: bdr_ring_buffer where
  "demo_ring = \<lparr>rb_buffer = replicate (4 * BDR_WRITE_INFO_SIZE) 0,
     rb_info = \<lparr>bi_offset = 0, bi_length = 0, bi_last = 0, bi_flags = 0, bi_max_writes = 4\<rparr>\<rparr>"

definition demo_segment :: "u32 \<Rightarrow> segment" where
  "demo_segment sec = \<lparr>seg_sector = sec, seg_page = replicate PAGE_SIZE 7, seg_off = 0, seg_len = 4096\<rparr>"

lemma demo_ring_facts:
  "ring_inv demo_ring" "\<not> overflown (rb_info demo_ring)" "pending demo_ring = []" "handed demo_ring = []"
  "segment_ok (demo_segment sec)" "unat (bi_max_writes (rb_info demo_ring)) = 4"
  by (simp_all add: demo_ring_def ring_inv_def overflown_def pending_def handed_def slots_from_def handed_count_def
      demo_segment_def segment_ok_def PAGE_SIZE_def)

theorem ring_buffer_fifo_witness:
  "overflown (rb_info (put_segments [demo_segment 1, demo_segment 2, demo_segment 3, demo_segment 4] demo_ring)) \<and>
   unat (bi_length (fst (bdr_buffer_read_routine (put_segments [demo_segment 1, demo_segment 2] demo_ring)))) = 2"
  using ring_buffer_fifo [of demo_ring "[demo_segment 1, demo_segment 2, demo_segment 3, demo_segment 4]" "[]"]
    ring_buffer_fifo [of demo_ring "[demo_segment 1, demo_segment 2]" "[]"]
  by (simp add: demo_ring_facts case_prod_beta)

theorem reserved_slot_read_early_witness:
  "\<exists>bi rb1 info rb2. put_reserve demo_ring = (Inr bi, rb1) \<and> bdr_buffer_read_routine rb1 = (info, rb2) \<and>
     handed rb2 = [slot_bytes demo_ring 0]"
proof -
  obtain bi rb1 where r: "put_reserve demo_ring = (Inr bi, rb1)"
    using put_reserve_cases [OF demo_ring_facts(1,2)] by (simp add: demo_ring_def handed_count_def)
  obtain info rb2 where "bdr_buffer_read_routine rb1 = (info, rb2)" by fastforce
  with r reserved_slot_read_early [OF demo_ring_facts(1) r this] show ?thesis
    by (auto simp: demo_ring_facts) (simp add: demo_ring_def)
qed

end
