(* ===== verification/Ioctl.thy ===== *)
theory Ioctl
  imports BDR_Prelude
begin

text \<open>
  \<^verbatim>\<open>user/client/ioctl.go\<close>: the numbers of the ioctl commands.  A \<^verbatim>\<open>uintptr\<close> is a 64-bit
  word; the sizes of the argument structures are those \<^verbatim>\<open>unsafe.Sizeof\<close> gives on a
  64-bit machine.
\<close>

definition IOC_NRSHIFT :: nat where "IOC_NRSHIFT = 0"
definition IOC_TYPESHIFT :: nat where "IOC_TYPESHIFT = IOC_NRSHIFT + 8"
definition IOC_SIZESHIFT :: nat where "IOC_SIZESHIFT = IOC_TYPESHIFT + 8"
definition IOC_DIRSHIFT :: nat where "IOC_DIRSHIFT = IOC_SIZESHIFT + 14"

definition IOC_NONE :: u64 where "IOC_NONE = 0"
definition IOC_WRITE :: u64 where "IOC_WRITE = 1"
definition IOC_READ :: u64 where "IOC_READ = 2"

lemmas IOC_shifts = IOC_NRSHIFT_def IOC_TYPESHIFT_def IOC_SIZESHIFT_def IOC_DIRSHIFT_def

definition IOC :: "u64 \<Rightarrow> u64 \<Rightarrow> u64 \<Rightarrow> u64 \<Rightarrow> u64" where
  "IOC dir t nr sz =
     push_bit IOC_DIRSHIFT dir OR push_bit IOC_TYPESHIFT t OR push_bit IOC_NRSHIFT nr OR push_bit IOC_SIZESHIFT sz"

definition IO :: "u64 \<Rightarrow> u64 \<Rightarrow> u64" where
  "IO t nr = IOC IOC_NONE t nr 0"

definition IOR :: "u64 \<Rightarrow> u64 \<Rightarrow> u64 \<Rightarrow> u64" where
  "IOR t nr sz = IOC IOC_READ t nr sz"

definition IOW :: "u64 \<Rightarrow> u64 \<Rightarrow> u64 \<Rightarrow> u64" where
  "IOW t nr sz = IOC IOC_WRITE t nr sz"

definition IOWR :: "u64 \<Rightarrow> u64 \<Rightarrow> u64 \<Rightarrow> u64" where
  "IOWR t nr sz = IOC (IOC_READ OR IOC_WRITE) t nr sz"

definition BDR_MAGIC :: u64 where "BDR_MAGIC = of_char (CHR ''B'')"

text \<open>\<^verbatim>\<open>TargetInfo\<close>: 8 + 4 (padded to 8) + 8 + 8 bytes; \<^verbatim>\<open>BufferInfo\<close>: 3 * 8 + 4 (padded to 8) + 8.\<close>

definition sizeof_TargetInfo :: u64 where "sizeof_TargetInfo = 32"
definition sizeof_BufferInfo :: u64 where "sizeof_BufferInfo = 40"
definition sizeof_u32 :: u64 where "sizeof_u32 = 4"

definition BDR_CMD_GET_TARGET_INFO :: u64 where
  "BDR_CMD_GET_TARGET_INFO = IOR BDR_MAGIC 1 sizeof_TargetInfo"
definition BDR_CMD_GET_STATUS :: u64 where
  "BDR_CMD_GET_STATUS = IOR BDR_MAGIC 2 sizeof_u32"
definition BDR_CMD_GET_BUFFER_INFO :: u64 where
  "BDR_CMD_GET_BUFFER_INFO = IOR BDR_MAGIC 3 sizeof_BufferInfo"
definition BDR_CMD_GET_BUFFER_INFO_WAIT :: u64 where
  "BDR_CMD_GET_BUFFER_INFO_WAIT = IOR BDR_MAGIC 4 sizeof_BufferInfo"
definition BDR_CMD_READ_BUFFER_INFO :: u64 where
  "BDR_CMD_READ_BUFFER_INFO = IOR BDR_MAGIC 5 sizeof_BufferInfo"
definition BDR_CMD_READ_BUFFER_INFO_WAIT :: u64 where
  "BDR_CMD_READ_BUFFER_INFO_WAIT = IOR BDR_MAGIC 6 sizeof_BufferInfo"
definition BDR_CMD_RESET_BUFFER :: u64 where
  "BDR_CMD_RESET_BUFFER = IO BDR_MAGIC 7"
definition BDR_CMD_WRITE_TEST_VALUE :: u64 where
  "BDR_CMD_WRITE_TEST_VALUE = IOW BDR_MAGIC 8 sizeof_u32"

lemmas command_defs =
  BDR_CMD_GET_TARGET_INFO_def BDR_CMD_GET_STATUS_def BDR_CMD_GET_BUFFER_INFO_def BDR_CMD_GET_BUFFER_INFO_WAIT_def
  BDR_CMD_READ_BUFFER_INFO_def BDR_CMD_READ_BUFFER_INFO_WAIT_def BDR_CMD_RESET_BUFFER_def BDR_CMD_WRITE_TEST_VALUE_def
  IO_def IOR_def IOW_def IOC_def IOC_shifts IOC_NONE_def IOC_WRITE_def IOC_READ_def BDR_MAGIC_def
  sizeof_TargetInfo_def sizeof_BufferInfo_def sizeof_u32_def

definition ioctlCmdNames :: "(u64 \<times> string) list" where
  "ioctlCmdNames = [
     (BDR_CMD_GET_TARGET_INFO, ''GET_TARGET_INFO''),
     (BDR_CMD_GET_STATUS, ''GET_STATUS''),
     (BDR_CMD_GET_BUFFER_INFO, ''GET_BUFFER_INFO''),
     (BDR_CMD_GET_BUFFER_INFO_WAIT, ''GET_BUFFER_INFO_WAIT''),
     (BDR_CMD_READ_BUFFER_INFO, ''READ_BUFFER_INFO''),
     (BDR_CMD_READ_BUFFER_INFO_WAIT, ''READ_BUFFER_INFO_WAIT''),
     (BDR_CMD_RESET_BUFFER, ''RESET_BUFFER''),
     (BDR_CMD_WRITE_TEST_VALUE, ''WRITE_TEST_VALUE'')]"

text \<open>\<^verbatim>\<open>fmt.Sprintf("%X")\<close>: upper-case hexadecimal digits, no leading zeros.\<close>

definition hex_digit :: "nat \<Rightarrow> char" where
  "hex_digit d = ''0123456789ABCDEF'' ! (d mod 16)"

fun hex_upper :: "nat \<Rightarrow> string" where
  "hex_upper n = (if n < 16 then [hex_digit n] else hex_upper (n div 16) @ [hex_digit n])"

declare hex_upper.simps [simp del]

definition GetIOCTLCommandName :: "u64 \<Rightarrow> string" where
  "GetIOCTLCommandName cmd = (case map_of ioctlCmdNames cmd of
     Some name \<Rightarrow> name
   | None \<Rightarrow> ''Unknown command (0x'' @ hex_upper (unat cmd) @ '')'')"

subsection \<open>Properties\<close>

text \<open>The fields of a command number.\<close>

definition ioc_dir :: "u64 \<Rightarrow> u64" where "ioc_dir c = take_bit 2 (drop_bit 30 c)"
definition ioc_type :: "u64 \<Rightarrow> u64" where "ioc_type c = take_bit 8 (drop_bit 8 c)"
definition ioc_nr :: "u64 \<Rightarrow> u64" where "ioc_nr c = take_bit 8 c"
definition ioc_size :: "u64 \<Rightarrow> u64" where "ioc_size c = take_bit 14 (drop_bit 16 c)"

lemma field_bit: "take_bit m w = w \<Longrightarrow> bit (w :: u64) n \<Longrightarrow> n < m"
  by (metis bit_take_bit_iff)

text \<open>
  C40: The encoding of a command number keeps its fields apart: for a direction, type,
  number and size that fit their fields, each is read back from the number.
\<close>

theorem IOC_fields:
  assumes "take_bit 2 dir = dir" and "take_bit 8 t = t" and "take_bit 8 nr = nr" and "take_bit 14 sz = sz"
  shows "ioc_dir (IOC dir t nr sz) = dir \<and> ioc_type (IOC dir t nr sz) = t \<and>
    ioc_nr (IOC dir t nr sz) = nr \<and> ioc_size (IOC dir t nr sz) = sz"
proof -
  note bd = field_bit [OF assms(1)] field_bit [OF assms(2)] field_bit [OF assms(3)] field_bit [OF assms(4)]
  have "ioc_dir (IOC dir t nr sz) = dir"
    by (rule bit_word_eqI) (auto simp: ioc_dir_def IOC_def IOC_shifts bit_simps dest: bd)
  moreover have "ioc_type (IOC dir t nr sz) = t"
    by (rule bit_word_eqI) (auto simp: ioc_type_def IOC_def IOC_shifts bit_simps dest: bd)
  moreover have "ioc_nr (IOC dir t nr sz) = nr"
    by (rule bit_word_eqI) (auto simp: ioc_nr_def IOC_def IOC_shifts bit_simps dest: bd)
  moreover have "ioc_size (IOC dir t nr sz) = sz"
    by (rule bit_word_eqI) (auto simp: ioc_size_def IOC_def IOC_shifts bit_simps dest: bd)
  ultimately show ?thesis by blast
qed

theorem IOC_fields_witness:
  "ioc_nr BDR_CMD_READ_BUFFER_INFO = 5 \<and> ioc_size BDR_CMD_READ_BUFFER_INFO = 40"
  using IOC_fields [of IOC_READ BDR_MAGIC 5 sizeof_BufferInfo]
  by (simp add: BDR_CMD_READ_BUFFER_INFO_def IOR_def IOC_READ_def BDR_MAGIC_def sizeof_BufferInfo_def)

text \<open>
  Every command of the table is named by its own name, so no two commands share a
  number, and a number that is not in the table is reported as unknown in hexadecimal.
\<close>

lemma command_names:
  "map (GetIOCTLCommandName \<circ> fst) ioctlCmdNames = map snd ioctlCmdNames \<and>
   distinct (map fst ioctlCmdNames) \<and>
   (cmd \<notin> fst ` set ioctlCmdNames \<longrightarrow>
      GetIOCTLCommandName cmd = ''Unknown command (0x'' @ hex_upper (unat cmd) @ '')'')"
proof -
  have d: "distinct (map fst ioctlCmdNames)" by (simp add: ioctlCmdNames_def command_defs)
  have "GetIOCTLCommandName (fst p) = snd p" if "p \<in> set ioctlCmdNames" for p
    using map_of_is_SomeI [OF d, of "fst p" "snd p"] that by (simp add: GetIOCTLCommandName_def)
  moreover have "map_of ioctlCmdNames cmd = None" if "cmd \<notin> fst ` set ioctlCmdNames"
    using that by (simp add: map_of_eq_None_iff)
  ultimately show ?thesis using d by (simp add: GetIOCTLCommandName_def)
qed

lemma command_names_witness:
  "GetIOCTLCommandName 0xAB = ''Unknown command (0xAB)'' \<and> distinct (map fst ioctlCmdNames)"
  using command_names [of "0xAB"]
  by (simp add: ioctlCmdNames_def command_defs hex_upper.simps hex_digit_def)

end
