(* ===== verification/Kernel.thy ===== *)
theory Kernel
  imports Ring_Buffer Ioctl
begin

text \<open>
  The data path of the kernel module: the bitmap of overflown blocks (\<^verbatim>\<open>kern/bitmap.c\<close>), the
  device-mapper target that captures writes and the ioctl handler of the control device
  (\<^verbatim>\<open>kern/main.c\<close>, \<^verbatim>\<open>kern/ioctl.c\<close>).  What the kernel itself provides (memory, device
  lookup, registration, the block layer) enters as arguments.
\<close>

subsection \<open>The bitmap\<close>

record bdr_bitmap =
  bm_bits :: "bool list option"
  bm_max_bits :: u64

definition BDR_BLOCK_SIZE_SHIFT :: nat where
  "BDR_BLOCK_SIZE_SHIFT = 11"

definition BITS_TO_LONGS :: "nat \<Rightarrow> nat" where
  "BITS_TO_LONGS n = (n + 63) div 64"

lemma BITS_TO_LONGS_gt:
  assumes "n mod 64 \<noteq> 0"
  shows "n < 64 * BITS_TO_LONGS n"
proof -
  define q r where "q = n div 64" and "r = n mod 64"
  have n: "n = 64 * q + r" "0 < r" "r < 64" using assms by (simp_all add: q_def r_def)
  then have "(q + 1) * 64 \<le> n + 63" by simp
  then have "q + 1 \<le> BITS_TO_LONGS n"
    by (simp add: BITS_TO_LONGS_def less_eq_div_iff_mult_less_eq)
  then show ?thesis using n by simp
qed

text \<open>The bits are those of the words \<^verbatim>\<open>kzalloc\<close> returned; \<open>alloc\<close> is whether it did.\<close>

definition bdr_bitmap_init :: "bool \<Rightarrow> u32 \<Rightarrow> errno + bdr_bitmap" where
  "bdr_bitmap_init alloc max_bits =
     (if max_bits = 0 then Inl EINVAL
      else if \<not> alloc then Inl ENOMEM
      else Inr \<lparr>bm_bits = Some (replicate (64 * BITS_TO_LONGS (unat max_bits)) False), bm_max_bits = ucast max_bits\<rparr>)"

definition bdr_bitmap_get_byte_size :: "bdr_bitmap \<Rightarrow> u32" where
  "bdr_bitmap_get_byte_size bm = (case bm_bits bm of None \<Rightarrow> 0 | Some bits \<Rightarrow> ucast ((bm_max_bits bm + 7) div 8))"

text \<open>\<^verbatim>\<open>find_first_zero_bit\<close>: the first clear bit below the limit, or the limit.\<close>

fun find_first_zero_bit :: "bool list \<Rightarrow> nat \<Rightarrow> nat" where
  "find_first_zero_bit bits 0 = 0"
| "find_first_zero_bit [] (Suc n) = Suc n"
| "find_first_zero_bit (b # bits) (Suc n) = (if b then Suc (find_first_zero_bit bits n) else 0)"

definition bdr_bitmap_allocate :: "bdr_bitmap \<Rightarrow> (errno + nat) \<times> bdr_bitmap" where
  "bdr_bitmap_allocate bm = (case bm_bits bm of
     None \<Rightarrow> (Inl EINVAL, bm)
   | Some bits \<Rightarrow>
       (let b = find_first_zero_bit bits (unat (bm_max_bits bm)) in
        if b \<ge> unat (bm_max_bits bm) then (Inl ENOSPC, bm)
        else (Inr b, bm\<lparr>bm_bits := Some (bits[b := True])\<rparr>)))"

definition bdr_bitmap_free :: "u32 \<Rightarrow> bdr_bitmap \<Rightarrow> bdr_bitmap" where
  "bdr_bitmap_free b bm = (case bm_bits bm of
     None \<Rightarrow> bm
   | Some bits \<Rightarrow> if ucast b \<ge> bm_max_bits bm then bm else bm\<lparr>bm_bits := Some (bits[unat b := False])\<rparr>)"

definition bdr_bitmap_set :: "u32 \<Rightarrow> bdr_bitmap \<Rightarrow> bdr_bitmap" where
  "bdr_bitmap_set b bm = (case bm_bits bm of
     None \<Rightarrow> bm
   | Some bits \<Rightarrow> if ucast b \<ge> bm_max_bits bm then bm else bm\<lparr>bm_bits := Some (bits[unat b := True])\<rparr>)"

definition bdr_bitmap_clear :: "bdr_bitmap \<Rightarrow> bdr_bitmap" where
  "bdr_bitmap_clear bm = (case bm_bits bm of
     None \<Rightarrow> bm
   | Some bits \<Rightarrow> bm\<lparr>bm_bits := Some (replicate (64 * BITS_TO_LONGS (unat (bm_max_bits bm))) False)\<rparr>)"

text \<open>
  \<^verbatim>\<open>bdr_bitmap_set_sector\<close> sets the bit of the sector's block without comparing it with
  \<^verbatim>\<open>max_bits\<close>; \<open>None\<close> is a store outside the allocated words.
\<close>

definition bdr_bitmap_set_sector :: "u64 \<Rightarrow> bdr_bitmap \<Rightarrow> bdr_bitmap option" where
  "bdr_bitmap_set_sector sector bm =
     (let block = unat (drop_bit BDR_BLOCK_SIZE_SHIFT sector) in
      case bm_bits bm of
        None \<Rightarrow> None
      | Some bits \<Rightarrow> if block < length bits then Some (bm\<lparr>bm_bits := Some (bits[block := True])\<rparr>) else None)"

subsection \<open>The target\<close>

datatype bdr_status = ACTIVE | OVERFLOWING | STOPPED

record bdr_target_info =
  ti_page_size :: u64
  ti_write_info_size :: u32
  ti_buffer_byte_size :: u64
  ti_bitmap_byte_size :: u64

definition bdr_get_target_info :: "bdr_ring_buffer \<Rightarrow> bdr_bitmap \<Rightarrow> bdr_target_info" where
  "bdr_get_target_info rb bm = \<lparr>
     ti_page_size = of_nat PAGE_SIZE,
     ti_write_info_size = of_nat BDR_WRITE_INFO_SIZE,
     ti_buffer_byte_size = bdr_ring_buffer_get_byte_size rb,
     ti_bitmap_byte_size = ucast (bdr_bitmap_get_byte_size bm)\<rparr>"

record bdr_context =
  ring_buf :: bdr_ring_buffer
  overflow_bm :: bdr_bitmap
  status :: bdr_status

text \<open>A segment of a bio: its page, the bytes of it, and the sector the iterator is at.\<close>

record bio_vec =
  bv_page :: bytes
  bv_offset :: u32
  bv_len :: u32
  bv_sector :: u64

record bio =
  bio_is_write :: bool
  bio_segments :: "bio_vec list"

definition size_to_copy :: "u32 \<Rightarrow> u32 \<Rightarrow> u32" where
  "size_to_copy n off = ucast (min (ucast n) (of_nat PAGE_SIZE - ucast off :: u64))"

lemma unat_size_to_copy:
  "unat (size_to_copy n off) = min (unat n) (unat (of_nat PAGE_SIZE - ucast off :: u64))"
proof -
  have m: "unat (min (ucast n) x) = min (unat n) (unat x)" for x :: u64
    by (simp add: min_def word_le_nat_alt)
  have "unat n < 2 ^ LENGTH(32)" by (rule unsigned_less)
  then show ?thesis by (simp add: size_to_copy_def unat_u64_u32 m)
qed

text \<open>
  The loop of \<^verbatim>\<open>bdr_put_write_to_buffer\<close> over the parts of a segment that lie in different
  pages.  A part is empty only when the segment starts at the end of its page, and then the
  next one is not, so the loop ends.
\<close>

function put_parts :: "bytes \<Rightarrow> u32 \<Rightarrow> u32 \<Rightarrow> u32 \<Rightarrow> bdr_ring_buffer \<Rightarrow> bdr_ring_buffer" where
  "put_parts page n off sec rb =
     (if n = 0 then rb
      else case bdr_ring_buffer_put sec (size_to_copy n off) page off n rb of
          (Some e, rb1) \<Rightarrow> rb1
        | (None, rb1) \<Rightarrow> put_parts page (n - size_to_copy n off) 0 (sec + 1) rb1)"
  by pat_completeness auto
termination
proof (relation "measure (\<lambda>(page, n, off, sec, rb). 2 * unat n + (if off = 4096 then 1 else 0))", simp)
  fix page rb and n off sec :: u32 and res rb1
  assume n: "n \<noteq> 0"
  have le: "unat (size_to_copy n off) \<le> unat n" by (simp add: unat_size_to_copy)
  then have "unat (n - size_to_copy n off) = unat n - unat (size_to_copy n off)"
    by (simp add: unat_sub word_le_nat_alt)
  moreover have "0 < unat (size_to_copy n off)" if "off \<noteq> 4096"
  proof -
    have "ucast off \<noteq> (of_nat PAGE_SIZE :: u64)"
    proof
      assume "ucast off = (of_nat PAGE_SIZE :: u64)"
      then have "unat (ucast off :: u64) = 4096" by (simp add: PAGE_SIZE_def)
      then have "unat off = unat (4096 :: u32)" by simp
      then show False using that by (simp only: word_unat_eq_iff)
    qed
    then have "0 < unat (of_nat PAGE_SIZE - ucast off :: u64)" by (simp add: unat_gt_0)
    moreover have "0 < unat n" using n by (simp add: unat_gt_0)
    ultimately show ?thesis by (simp add: unat_size_to_copy)
  qed
  ultimately show "((page, n - size_to_copy n off, 0, sec + 1, rb1), page, n, off, sec, rb)
      \<in> measure (\<lambda>(page, n, off, sec, rb). 2 * unat n + (if off = 4096 then 1 else 0))"
    using le n by (auto simp: unat_gt_0)
qed

declare put_parts.simps [simp del]

definition bdr_put_write_to_buffer :: "bio_vec \<Rightarrow> bdr_ring_buffer \<Rightarrow> bdr_ring_buffer" where
  "bdr_put_write_to_buffer bvec rb = put_parts (bv_page bvec) (bv_len bvec) (bv_offset bvec) (ucast (bv_sector bvec)) rb"

definition bdr_submit_bio :: "bio \<Rightarrow> bdr_ring_buffer \<Rightarrow> bdr_ring_buffer" where
  "bdr_submit_bio b rb = fold bdr_put_write_to_buffer (bio_segments b) rb"

text \<open>
  \<^verbatim>\<open>bdr_target_map\<close>: the segments go into the buffer, or into the bitmap when the buffer has
  overflown; then the bio goes to the underlying device, which is the block layer's
  \<open>submit\<close>.  The change of the device and of the sector before it (\<^verbatim>\<open>bio_set_dev\<close>,
  \<^verbatim>\<open>dm_target_offset\<close>) belongs to \<open>submit\<close>: for a target that begins at sector 0 the sector
  stays.  \<open>None\<close> is a store outside the bitmap.
\<close>

fun mark_segments :: "bio_vec list \<Rightarrow> bdr_bitmap \<Rightarrow> bdr_bitmap option" where
  "mark_segments [] bm = Some bm"
| "mark_segments (bvec # bvecs) bm = Option.bind (bdr_bitmap_set_sector (bv_sector bvec) bm) (mark_segments bvecs)"

definition bdr_target_map :: "(bio \<Rightarrow> 'd \<Rightarrow> 'd) \<Rightarrow> bio \<Rightarrow> bdr_context \<times> 'd \<Rightarrow> (bdr_context \<times> 'd) option" where
  "bdr_target_map submit b st = (case st of (bc, dev) \<Rightarrow>
     if bio_is_write b
     then if bdr_ring_buffer_is_full (ring_buf bc)
          then map_option (\<lambda>bm. (bc\<lparr>overflow_bm := bm\<rparr>, submit b dev)) (mark_segments (bio_segments b) (overflow_bm bc))
          else Some (bc\<lparr>ring_buf := bdr_submit_bio b (ring_buf bc)\<rparr>, submit b dev)
     else Some (bc, submit b dev))"

subsection \<open>The control device\<close>

datatype ioctl_reply =
    NoReply
  | ReplyBufferInfo bdr_buffer_info
  | ReplyTargetInfo bdr_target_info
  | ReplyStatus bdr_status

text \<open>
  \<^verbatim>\<open>bdr_chardev_ioctl\<close>: \<open>copied\<close> is whether the copy from or to user space succeeds, \<open>arg\<close> the
  value user space passes for the test write.  The waiting commands return from
  \<^verbatim>\<open>wait_event_interruptible\<close> also when a signal arrives, and its result is not looked at, so
  they do what the others do.  The numbers of the commands are built by the same macros as
  in the client.  \<open>None\<close> is a store outside the buffer.  The context is the one that
  \<^verbatim>\<open>bdr_chardev_open\<close> has put into the file, so the check that there is one has no branch here;
  the same holds for \<^verbatim>\<open>bdr_chardev_read\<close>.
\<close>

definition bdr_chardev_ioctl :: "u64 \<Rightarrow> bool \<Rightarrow> u32 \<Rightarrow> bdr_context \<Rightarrow> ((errno + ioctl_reply) \<times> bdr_context) option" where
  "bdr_chardev_ioctl cmd copied arg bc =
     (let rb = ring_buf bc;
          reply = (\<lambda>r. if copied then Inr r else Inl EFAULT)
      in if cmd = BDR_CMD_GET_BUFFER_INFO \<or> cmd = BDR_CMD_GET_BUFFER_INFO_WAIT
         then Some (reply (ReplyBufferInfo (bdr_ring_buffer_get_info rb)), bc)
         else if cmd = BDR_CMD_GET_TARGET_INFO
         then Some (reply (ReplyTargetInfo (bdr_get_target_info rb (overflow_bm bc))), bc)
         else if cmd = BDR_CMD_GET_STATUS
         then Some (reply (ReplyStatus (status bc)), bc)
         else if cmd = BDR_CMD_READ_BUFFER_INFO \<or> cmd = BDR_CMD_READ_BUFFER_INFO_WAIT
         then (case bdr_buffer_read_routine rb of (bi, rb1) \<Rightarrow>
                 Some (reply (ReplyBufferInfo bi), bc\<lparr>ring_buf := rb1\<rparr>))
         else if cmd = BDR_CMD_RESET_BUFFER
         then Some (Inr NoReply, bc\<lparr>ring_buf := bdr_ring_buffer_reset rb\<rparr>)
         else if cmd = BDR_CMD_WRITE_TEST_VALUE
         then (if \<not> copied then Some (Inl EFAULT, bc)
               else if unat arg < length (rb_buffer rb)
               then Some (Inr NoReply, bc\<lparr>ring_buf := rb\<lparr>rb_buffer := (rb_buffer rb)[unat arg := 0xAA]\<rparr>\<rparr>)
               else None)
         else Some (Inl ENOTTY, bc))"

text \<open>The bitmap as bytes, least significant bit first, and the read that clears it.\<close>

definition bitmap_bytes :: "bool list \<Rightarrow> nat \<Rightarrow> bytes" where
  "bitmap_bytes bits n = map (\<lambda>i. \<Sum>k\<leftarrow>[0..<8]. if bits ! (8 * i + k) then push_bit k 1 else 0) [0..<n]"

definition bdr_chardev_read :: "u64 \<Rightarrow> bool \<Rightarrow> bdr_context \<Rightarrow> (errno + bytes) \<times> bdr_context" where
  "bdr_chardev_read cnt copied bc =
     (let bm = overflow_bm bc; bitmap_size = (ucast (bdr_bitmap_get_byte_size bm) :: u64) in
      if bitmap_size \<noteq> cnt then (Inl EINVAL, bc)
      else case bm_bits bm of
          None \<Rightarrow> (Inr [], bc)
        | Some bits \<Rightarrow>
            if \<not> copied then (Inl EFAULT, bc)
            else (Inr (bitmap_bytes bits (unat bitmap_size)), bc\<lparr>overflow_bm := bdr_bitmap_clear bm\<rparr>))"

subsection \<open>Properties\<close>

definition segment_of :: "bio_vec \<Rightarrow> segment" where
  "segment_of bvec = \<lparr>seg_sector = ucast (bv_sector bvec), seg_page = bv_page bvec, seg_off = bv_offset bvec, seg_len = bv_len bvec\<rparr>"

text \<open>What \<^verbatim>\<open>bio_for_each_segment\<close> yields: non-empty segments that lie within one page.\<close>

definition single_page :: "bio_vec \<Rightarrow> bool" where
  "single_page bvec \<longleftrightarrow> segment_ok (segment_of bvec) \<and> bv_len bvec \<noteq> 0"

lemma put_write_single_page:
  assumes "single_page bvec"
  shows "bdr_put_write_to_buffer bvec rb = snd (put_segment (segment_of bvec) rb)"
proof -
  let ?n = "bv_len bvec" and ?off = "bv_offset bvec"
  have "unat ?off + unat ?n \<le> 4096" "?n \<noteq> 0"
    using assms by (simp_all add: single_page_def segment_ok_def segment_of_def PAGE_SIZE_def)
  moreover from this have "unat (of_nat PAGE_SIZE - ucast ?off :: u64) = 4096 - unat ?off"
    by (simp add: PAGE_SIZE_def unat_sub_if')
  ultimately have "size_to_copy ?n ?off = ?n" by (simp add: word_unat_eq_iff unat_size_to_copy)
  with \<open>?n \<noteq> 0\<close> show ?thesis unfolding bdr_put_write_to_buffer_def
    by (simp add: put_parts.simps [of _ "bv_len bvec"] put_parts.simps [of _ 0] put_segment_def segment_of_def
        split: prod.splits option.splits)
qed

lemma target_map_effect:
  assumes "list_all single_page (bio_segments b)"
    and "bdr_target_map submit b (bc, dev) = Some (bc', dev')"
  shows "dev' = submit b dev \<and>
    ring_buf bc' = (if bio_is_write b \<and> \<not> overflown (rb_info (ring_buf bc))
                    then put_segments (map segment_of (bio_segments b)) (ring_buf bc) else ring_buf bc)"
proof -
  have "fold bdr_put_write_to_buffer bvecs rb = put_segments (map segment_of bvecs) rb"
    if "list_all single_page bvecs" for bvecs rb
    using that by (induction bvecs arbitrary: rb) (simp_all add: put_segments_def put_write_single_page)
  then show ?thesis using assms
    by (auto simp: bdr_target_map_def bdr_submit_bio_def bdr_ring_buffer_is_full_def split: if_splits)
qed

text \<open>
  C10: A write that passes through the device-mapper target while the buffer has not
  overflown puts each of its segments once into the buffer, in order, with the low 32 bits
  of its sector; reads and writes after an overflow leave the buffer alone.
\<close>

theorem target_map_captures:
  assumes "list_all single_page (bio_segments b)"
    and "bdr_target_map submit b (bc, dev) = Some (bc', dev')"
  shows "dev' = submit b dev \<and>
    ring_buf bc' = (if bio_is_write b \<and> \<not> overflown (rb_info (ring_buf bc))
                    then put_segments (map segment_of (bio_segments b)) (ring_buf bc) else ring_buf bc)"
  using assms by (rule target_map_effect)

definition demo_bio :: bio where
  "demo_bio = \<lparr>bio_is_write = True,
     bio_segments = [\<lparr>bv_page = replicate PAGE_SIZE 7, bv_offset = 0, bv_len = 4096, bv_sector = 8\<rparr>]\<rparr>"

theorem target_map_captures_witness:
  "\<exists>bc' dev'. bdr_target_map (\<lambda>b d. d + 1)
      demo_bio (\<lparr>ring_buf = demo_ring, overflow_bm = \<lparr>bm_bits = None, bm_max_bits = 0\<rparr>, status = ACTIVE\<rparr>, 0 :: nat) = Some (bc', dev')
    \<and> dev' = 1 \<and> ring_buf bc' = put_segments [demo_segment 8] demo_ring"
proof -
  let ?bc = "\<lparr>ring_buf = demo_ring, overflow_bm = \<lparr>bm_bits = None, bm_max_bits = 0\<rparr>, status = ACTIVE\<rparr>"
  have ok: "list_all single_page (bio_segments demo_bio)"
    by (simp add: demo_bio_def single_page_def segment_ok_def segment_of_def PAGE_SIZE_def)
  obtain bc' dev' where m: "bdr_target_map (\<lambda>b d. d + 1) demo_bio (?bc, 0 :: nat) = Some (bc', dev')"
    using demo_ring_facts(2) by (simp add: bdr_target_map_def demo_bio_def bdr_ring_buffer_is_full_def)
  show ?thesis using target_map_captures [OF ok m] m demo_ring_facts(2)
    by (simp add: demo_bio_def segment_of_def demo_segment_def)
qed



end
