(* ===== verification/Pause.thy ===== *)
theory Pause
  imports Main
begin

text \<open>
  \<^verbatim>\<open>user/pause/pause.go\<close>: the controller that pauses the monitoring goroutine.  Its state
  is a channel with room for one \<^verbatim>\<open>PauseState\<close>, here an option.  The first part gives
  each method run on its own; the second part is the interleaving of any number of
  goroutines, with the read-write lock and the two halves of \<^verbatim>\<open>Pause\<close>, \<^verbatim>\<open>Resume\<close> and
  \<^verbatim>\<open>IsPaused\<close> as separate steps.
\<close>

datatype PauseState = Running | Paused

type_synonym stateChan = "PauseState option"

definition NewPauseController :: stateChan where
  "NewPauseController = None"

definition drainChannel :: "stateChan \<Rightarrow> stateChan" where
  "drainChannel ch = None"

text \<open>
  A send on a full channel blocks; \<open>None\<close> is that the call does not return.
\<close>

definition send_state :: "PauseState \<Rightarrow> stateChan \<Rightarrow> stateChan option" where
  "send_state v ch = (case ch of None \<Rightarrow> Some (Some v) | Some w \<Rightarrow> None)"

definition Pause :: "stateChan \<Rightarrow> stateChan option" where
  "Pause ch = send_state Paused (drainChannel ch)"

definition Resume :: "stateChan \<Rightarrow> stateChan option" where
  "Resume ch = send_state Running (drainChannel ch)"

definition IsPaused :: "stateChan \<Rightarrow> (bool \<times> stateChan) option" where
  "IsPaused ch = (case ch of
     Some st \<Rightarrow> map_option (\<lambda>ch'. (st = Paused, ch')) (send_state st None)
   | None \<Rightarrow> Some (False, None))"

text \<open>
  What a wait meets while it blocks: the termination channel is closed, or a state arrives.
  \<open>waitUntilResumed\<close> reads such events until it returns; \<open>None\<close> is that it is still waiting.
\<close>

datatype WaitEvent = Terminated | Arrives PauseState

fun waitUntilResumed :: "WaitEvent list \<Rightarrow> bool option" where
  "waitUntilResumed [] = None"
| "waitUntilResumed (Terminated # es) = Some True"
| "waitUntilResumed (Arrives st # es) = (if st = Running then Some False else waitUntilResumed es)"

text \<open>
  \<^verbatim>\<open>select\<close> picks among the ready cases; \<open>term\<close> is whether the termination channel is closed
  and \<open>pick\<close> which case is taken when both are ready.  The result is the value returned,
  if the call returns, and the channel after the receive.
\<close>

definition WaitIfPaused :: "bool \<Rightarrow> bool \<Rightarrow> stateChan \<Rightarrow> WaitEvent list \<Rightarrow> bool option \<times> stateChan" where
  "WaitIfPaused term pick ch es =
     (if term \<and> (pick \<or> ch = None) then (Some True, ch)
      else case ch of
          Some st \<Rightarrow> (if st = Paused then waitUntilResumed es else Some False, None)
        | None \<Rightarrow> (Some False, None))"

subsection \<open>Any number of goroutines\<close>

datatype pause_pc =
    Outside
  | WLocked PauseState
  | WDrained PauseState
  | RLocked
  | RHolding PauseState
  | Waiting

record pause_sys =
  schan :: stateChan
  pcs :: "nat \<Rightarrow> pause_pc"

definition holds_write :: "pause_pc \<Rightarrow> bool" where
  "holds_write p = (case p of WLocked v \<Rightarrow> True | WDrained v \<Rightarrow> True | _ \<Rightarrow> False)"

definition holds_read :: "pause_pc \<Rightarrow> bool" where
  "holds_read p = (case p of RLocked \<Rightarrow> True | RHolding v \<Rightarrow> True | _ \<Rightarrow> False)"

definition pause_start :: pause_sys where
  "pause_start = \<lparr>schan = NewPauseController, pcs = (\<lambda>_. Outside)\<rparr>"

inductive pause_step :: "pause_sys \<Rightarrow> pause_sys \<Rightarrow> bool" where
  lock: "pcs s i = Outside \<Longrightarrow> (\<forall>j. \<not> holds_write (pcs s j) \<and> \<not> holds_read (pcs s j)) \<Longrightarrow>
    pause_step s (s\<lparr>pcs := (pcs s)(i := WLocked v)\<rparr>)"
| drain: "pcs s i = WLocked v \<Longrightarrow>
    pause_step s (s\<lparr>schan := drainChannel (schan s), pcs := (pcs s)(i := WDrained v)\<rparr>)"
| send: "pcs s i = WDrained v \<Longrightarrow> send_state v (schan s) = Some ch \<Longrightarrow>
    pause_step s (s\<lparr>schan := ch, pcs := (pcs s)(i := Outside)\<rparr>)"
| rlock: "pcs s i = Outside \<Longrightarrow> (\<forall>j. \<not> holds_write (pcs s j)) \<Longrightarrow>
    pause_step s (s\<lparr>pcs := (pcs s)(i := RLocked)\<rparr>)"
| rempty: "pcs s i = RLocked \<Longrightarrow> schan s = None \<Longrightarrow>
    pause_step s (s\<lparr>pcs := (pcs s)(i := Outside)\<rparr>)"
| rtake: "pcs s i = RLocked \<Longrightarrow> schan s = Some st \<Longrightarrow>
    pause_step s (s\<lparr>schan := None, pcs := (pcs s)(i := RHolding st)\<rparr>)"
| rback: "pcs s i = RHolding st \<Longrightarrow> send_state st (schan s) = Some ch \<Longrightarrow>
    pause_step s (s\<lparr>schan := ch, pcs := (pcs s)(i := Outside)\<rparr>)"
| wait_paused: "pcs s i = Outside \<Longrightarrow> schan s = Some Paused \<Longrightarrow>
    pause_step s (s\<lparr>schan := None, pcs := (pcs s)(i := Waiting)\<rparr>)"
| wait_running: "pcs s i = Outside \<Longrightarrow> schan s = Some Running \<Longrightarrow>
    pause_step s (s\<lparr>schan := None\<rparr>)"
| waiting_paused: "pcs s i = Waiting \<Longrightarrow> schan s = Some Paused \<Longrightarrow>
    pause_step s (s\<lparr>schan := None\<rparr>)"
| waiting_running: "pcs s i = Waiting \<Longrightarrow> schan s = Some Running \<Longrightarrow>
    pause_step s (s\<lparr>schan := None, pcs := (pcs s)(i := Outside)\<rparr>)"
| waiting_terminated: "pcs s i = Waiting \<Longrightarrow>
    pause_step s (s\<lparr>pcs := (pcs s)(i := Outside)\<rparr>)"

inductive_cases pause_stepE: "pause_step s s'"

text \<open>
  The lock keeps writers alone, and at most one state is around: it is in the channel or
  in the hands of one goroutine between its receive and its send.
\<close>

definition pause_inv :: "pause_sys \<Rightarrow> bool" where
  "pause_inv s \<longleftrightarrow>
     (\<forall>i j. holds_write (pcs s i) \<and> i \<noteq> j \<longrightarrow> \<not> holds_write (pcs s j) \<and> \<not> holds_read (pcs s j)) \<and>
     (\<forall>i v. pcs s i = WDrained v \<longrightarrow> schan s = None) \<and>
     (\<forall>i st. pcs s i = RHolding st \<longrightarrow> schan s = None \<and> (\<forall>j st'. j \<noteq> i \<longrightarrow> pcs s j \<noteq> RHolding st'))"

lemma holds_simps [simp]:
  "holds_write (WLocked v)" "holds_write (WDrained v)" "\<not> holds_write Outside" "\<not> holds_write RLocked"
  "\<not> holds_write (RHolding v)" "\<not> holds_write Waiting"
  "holds_read RLocked" "holds_read (RHolding v)" "\<not> holds_read Outside" "\<not> holds_read (WLocked v)"
  "\<not> holds_read (WDrained v)" "\<not> holds_read Waiting"
  by (simp_all add: holds_write_def holds_read_def)

lemma send_state_Some [simp]: "send_state v ch = Some ch' \<longleftrightarrow> ch = None \<and> ch' = Some v"
  by (auto simp: send_state_def split: option.splits)

lemma pause_inv_start: "pause_inv pause_start"
  by (simp add: pause_inv_def pause_start_def NewPauseController_def)

lemma pause_invD:
  assumes "pause_inv s"
  shows "holds_write (pcs s i) \<Longrightarrow> i \<noteq> j \<Longrightarrow> \<not> holds_write (pcs s j) \<and> \<not> holds_read (pcs s j)"
    and "pcs s i = WDrained v \<Longrightarrow> schan s = None" and "pcs s i = RHolding st \<Longrightarrow> schan s = None"
    and "pcs s i = RHolding st \<Longrightarrow> j \<noteq> i \<Longrightarrow> pcs s j \<noteq> RHolding st'"
  using assms unfolding pause_inv_def by blast+

lemma pause_invI:
  assumes "\<And>i j. holds_write (pcs s i) \<Longrightarrow> i \<noteq> j \<Longrightarrow> \<not> holds_write (pcs s j) \<and> \<not> holds_read (pcs s j)"
    and "\<And>i v. pcs s i = WDrained v \<Longrightarrow> schan s = None" and "\<And>i st. pcs s i = RHolding st \<Longrightarrow> schan s = None"
    and "\<And>i j st st'. pcs s i = RHolding st \<Longrightarrow> j \<noteq> i \<Longrightarrow> pcs s j \<noteq> RHolding st'"
  shows "pause_inv s"
  using assms unfolding pause_inv_def by blast

text \<open>
  While a writer has the lock nobody holds a state, and a goroutine that gives a state back
  was the only one to hold one: the cases of a step that puts a value into the channel.
\<close>

lemma nobody_holds:
  assumes "pause_inv s" and "holds_write (pcs s i)" and "j \<noteq> i"
  shows "pcs s j \<noteq> RHolding st" and "pcs s j \<noteq> WDrained v"
    and "\<not> holds_write (pcs s j)" and "\<not> holds_read (pcs s j)"
  using pause_invD(1) [OF assms(1,2), of j] assms(3) by auto

lemma only_holder:
  assumes "pause_inv s" and "pcs s i = RHolding st" and "j \<noteq> i"
  shows "pcs s j \<noteq> RHolding st'" and "pcs s j \<noteq> WDrained v" and "\<not> holds_write (pcs s j)"
  using pause_invD(4) [OF assms] pause_invD(1) [OF assms(1), of j i] assms(2,3) by auto

lemma pause_inv_release:
  assumes "pause_inv s" and "\<not> holds_write p" and "\<not> holds_read p" and "c = schan s \<or> c = None"
  shows "pause_inv (s\<lparr>schan := c, pcs := (pcs s)(i := p)\<rparr>)"
proof -
  have "p \<noteq> WDrained v" "p \<noteq> RHolding v" for v using assms(2,3) by auto
  then show ?thesis using assms(4,1-3) unfolding pause_inv_def by (elim disjE) (simp, (metis)?)+
qed

lemma pause_inv_step:
  assumes "pause_step s s'" and "pause_inv s"
  shows "pause_inv s'"
  using assms
proof (induction rule: pause_step.induct)
  case (lock s i v)
  then have "pcs s j \<noteq> WDrained u \<and> pcs s j \<noteq> RHolding u" for j u by (metis holds_simps(2,8))
  with lock show ?case by (intro pause_invI) (auto split: if_splits)
next
  case (drain s i v)
  then have "holds_write (pcs s i)" by simp
  note nh = nobody_holds [OF drain(2) this]
  show ?case using nh
    by (intro pause_invI) (auto split: if_splits simp: drainChannel_def)
next
  case (send s i v ch)
  then have "holds_write (pcs s i)" by simp
  note nh = nobody_holds [OF send(3) this]
  show ?case using nh by (intro pause_invI) (auto split: if_splits)
next
  case (rlock s i)
  then show ?case unfolding pause_inv_def by (simp, metis)
next
  case (rtake s i st)
  then have *: "holds_read (pcs s i)" by simp
  then have "\<not> holds_write (pcs s j)" for j using pause_invD(1) [OF rtake(3), of j i] rtake(1) by (cases "j = i") auto
  moreover from this have "pcs s j \<noteq> WDrained v" for j v by (metis holds_simps(2))
  moreover have "pcs s j \<noteq> RHolding st'" for j st' using pause_invD(3) [OF rtake(3)] rtake(2) by fastforce
  ultimately show ?case by (intro pause_invI) (auto split: if_splits)
next
  case (rback s i st ch)
  note oh = only_holder [OF rback(3,1)]
  show ?case using oh by (intro pause_invI) (auto split: if_splits)
next
  case (rempty s i)
  show ?case using pause_inv_release [of s Outside "schan s" i] rempty(3) by simp
next
  case (wait_paused s i)
  then show ?case using pause_inv_release [of s Waiting None i] by simp
next
  case (wait_running s i)
  then show ?case using pause_inv_release [of s Outside None i] by (simp add: fun_upd_idem)
next
  case (waiting_paused s i)
  then show ?case using pause_inv_release [of s Waiting None i] by (simp add: fun_upd_idem)
next
  case (waiting_running s i)
  then show ?case using pause_inv_release [of s Outside None i] by simp
next
  case (waiting_terminated s i)
  then show ?case using pause_inv_release [of s Outside "schan s" i] by simp
qed

text \<open>The states the controller can be in, whatever the goroutines do.\<close>

inductive pause_reachable :: "pause_sys \<Rightarrow> bool" where
  start: "pause_reachable pause_start"
| step: "pause_reachable s \<Longrightarrow> pause_step s s' \<Longrightarrow> pause_reachable s'"

lemma pause_reachable_inv: "pause_reachable s \<Longrightarrow> pause_inv s"
  by (induction rule: pause_reachable.induct) (auto intro: pause_inv_start pause_inv_step)

lemma waitUntilResumed_None [simp]:
  "waitUntilResumed es = None \<longleftrightarrow> (\<exists>n. es = replicate n (Arrives Paused))"
proof -
  have "waitUntilResumed es = None \<longleftrightarrow> (\<forall>e \<in> set es. e = Arrives Paused)"
    by (induction es rule: waitUntilResumed.induct) (auto intro: PauseState.exhaust)
  also have "\<dots> \<longleftrightarrow> (\<exists>n. es = replicate n (Arrives Paused))"
    by (metis in_set_replicate replicate_length_same)
  finally show ?thesis .
qed

lemma waitUntilResumed_Some:
  "waitUntilResumed es = Some b \<longleftrightarrow>
     (\<exists>n es'. es = replicate n (Arrives Paused) @ (if b then Terminated else Arrives Running) # es')"
proof (induction es rule: waitUntilResumed.induct)
  case (2 es)
  then show ?case by (cases b) (auto simp: Cons_eq_append_conv Cons_replicate_eq intro: exI [of _ 0])
next
  case (3 st es)
  show ?case
  proof (cases st)
    case Running
    then show ?thesis by (cases b) (auto simp: Cons_eq_append_conv Cons_replicate_eq intro: exI [of _ 0])
  next
    case Paused
    have "(\<exists>n es'. Arrives Paused # es = replicate n (Arrives Paused) @ e # es') \<longleftrightarrow>
        (\<exists>n es'. es = replicate n (Arrives Paused) @ e # es')" if "e \<noteq> Arrives Paused" for e
    proof
      assume "\<exists>n es'. Arrives Paused # es = replicate n (Arrives Paused) @ e # es'"
      then obtain n es' where "Arrives Paused # es = replicate n (Arrives Paused) @ e # es'" by blast
      then show "\<exists>n es'. es = replicate n (Arrives Paused) @ e # es'" using that by (cases n) auto
    next
      assume "\<exists>n es'. es = replicate n (Arrives Paused) @ e # es'"
      then show "\<exists>n es'. Arrives Paused # es = replicate n (Arrives Paused) @ e # es'"
        by (metis append_Cons replicate_Suc)
    qed
    with Paused 3 show ?thesis by (cases b) auto
  qed
qed auto

subsection \<open>Properties\<close>

text \<open>
  C19: no call of \<^verbatim>\<open>Pause\<close>, \<^verbatim>\<open>Resume\<close> or \<^verbatim>\<open>IsPaused\<close> ever blocks on its send: whatever any number of
  goroutines did before, the channel is empty when one of them is about to put a state into
  it, so the lock is always released.
\<close>

theorem pause_send_never_blocks:
  assumes "pause_reachable s"
  shows "(pcs s i = WDrained v \<longrightarrow> send_state v (schan s) = Some (Some v)) \<and>
    (pcs s i = RHolding v \<longrightarrow> send_state v (schan s) = Some (Some v))"
  using pause_invD(2,3) [OF pause_reachable_inv [OF assms]] by simp

theorem pause_send_never_blocks_witness:
  "\<exists>s. pause_reachable s \<and> pcs s 0 = WDrained Paused \<and> send_state Paused (schan s) = Some (Some Paused)"
proof -
  define s1 where "s1 = pause_start\<lparr>pcs := (pcs pause_start)(0 := WLocked Paused)\<rparr>"
  define s2 where "s2 = s1\<lparr>schan := drainChannel (schan s1), pcs := (pcs s1)(0 := WDrained Paused)\<rparr>"
  have "pause_step pause_start s1" unfolding s1_def by (rule pause_step.lock) (auto simp: pause_start_def)
  moreover have "pause_step s1 s2" unfolding s2_def by (rule pause_step.drain) (simp add: s1_def)
  ultimately have "pause_reachable s2" by (blast intro: pause_reachable.intros)
  moreover have "pcs s2 0 = WDrained Paused" by (simp add: s2_def)
  ultimately show ?thesis using pause_send_never_blocks [of s2 0 Paused] by blast
qed

text \<open>
  C20: \<^verbatim>\<open>Pause\<close> and \<^verbatim>\<open>Resume\<close> return whatever the channel holds and the last call decides what
  \<^verbatim>\<open>IsPaused\<close> answers; after a \<^verbatim>\<open>Pause\<close>, \<^verbatim>\<open>WaitIfPaused\<close> returns exactly when a \<^verbatim>\<open>Running\<close> or the
  termination arrives, and says which; the wait takes the state out of the channel, so that
  \<^verbatim>\<open>IsPaused\<close> answers false while the goroutine is being held.
\<close>

theorem pause_controller:
  "\<exists>ch1 ch2. Pause ch = Some ch1 \<and> IsPaused ch1 = Some (True, ch1) \<and>
     Resume ch = Some ch2 \<and> IsPaused ch2 = Some (False, ch2) \<and>
     WaitIfPaused False pick ch2 es = (Some False, None) \<and>
     (fst (WaitIfPaused False pick ch1 es) = None \<longleftrightarrow> (\<exists>n. es = replicate n (Arrives Paused))) \<and>
     (fst (WaitIfPaused False pick ch1 es) = Some b \<longleftrightarrow>
        (\<exists>n es'. es = replicate n (Arrives Paused) @ (if b then Terminated else Arrives Running) # es')) \<and>
     IsPaused (snd (WaitIfPaused False pick ch1 es)) = Some (False, None)"
  by (auto simp: Pause_def Resume_def drainChannel_def IsPaused_def WaitIfPaused_def waitUntilResumed_Some
      send_state_def)

end
