(* ===== verification/Config.thy ===== *)
theory Config
  imports BDR_Prelude
begin

text \<open>
  \<^verbatim>\<open>user/client/config.go\<close> and \<^verbatim>\<open>user/server/config.go\<close>: the configuration and the check
  of the required arguments.  What \<^verbatim>\<open>pflag.Parse\<close> found on the command line is a map from
  flag names to values; a flag that was not given keeps the default it was declared with.
\<close>

datatype FlagValue =
    FString string
  | FInt int
  | FBool bool

type_synonym Flags = "string \<rightharpoonup> FlagValue"

definition StringVar :: "Flags \<Rightarrow> string \<Rightarrow> string \<Rightarrow> string" where
  "StringVar flags name def = (case flags name of Some (FString s) \<Rightarrow> s | _ \<Rightarrow> def)"

definition IntVar :: "Flags \<Rightarrow> string \<Rightarrow> int \<Rightarrow> int" where
  "IntVar flags name def = (case flags name of Some (FInt i) \<Rightarrow> i | _ \<Rightarrow> def)"

definition BoolVar :: "Flags \<Rightarrow> string \<Rightarrow> bool \<Rightarrow> bool" where
  "BoolVar flags name def = (case flags name of Some (FBool b) \<Rightarrow> b | _ \<Rightarrow> def)"

subsection \<open>The client\<close>

record ClientConfig =
  ccCharDevicePath :: string
  ccUnderDevicePath :: string
  ccIpAddress :: string
  ccPort :: int
  ccVerbose :: bool
  ccDebug :: bool
  ccNoPrint :: bool
  ccInitialReplication :: bool
  ccFullReplicate :: bool
  ccFullScan :: bool
  ccBenchmark :: bool

definition Client_NewConfig :: "Flags \<Rightarrow> ClientConfig" where
  "Client_NewConfig flags = \<lparr>
     ccCharDevicePath = StringVar flags ''control-device'' ''required'',
     ccUnderDevicePath = StringVar flags ''source-device'' ''required'',
     ccIpAddress = StringVar flags ''address'' ''required'',
     ccPort = IntVar flags ''port'' 0,
     ccVerbose = BoolVar flags ''verbose'' False,
     ccDebug = BoolVar flags ''debug'' False,
     ccNoPrint = BoolVar flags ''no-print'' False,
     ccInitialReplication = \<not> BoolVar flags ''no-replication'' False,
     ccFullReplicate = BoolVar flags ''full-replication'' False,
     ccFullScan = BoolVar flags ''full-scan'' False,
     ccBenchmark = BoolVar flags ''benchmark'' False\<rparr>"

text \<open>\<^verbatim>\<open>strings.Join\<close>.\<close>

fun Join :: "string list \<Rightarrow> string \<Rightarrow> string" where
  "Join [] sep = []"
| "Join [s] sep = s"
| "Join (s # t # ss) sep = s @ sep @ Join (t # ss) sep"

text \<open>
  An argument is nil or a value; it is missing when it is nil or still the default.  The
  messages are collected in the order of the checks.
\<close>

definition missing :: "'a option \<Rightarrow> 'a \<Rightarrow> bool" where
  "missing arg def \<longleftrightarrow> arg = None \<or> arg = Some def"

definition check_missing :: "string list \<Rightarrow> unit result" where
  "check_missing missingArgs = (if length missingArgs > 0
     then Inl (ErrMsg (''missing required arguments: '' @ Join missingArgs '', ''))
     else Inr ())"

definition Client_ValidateArgs ::
    "string option \<Rightarrow> string option \<Rightarrow> string option \<Rightarrow> int option \<Rightarrow> unit result" where
  "Client_ValidateArgs charDevicePath underDevicePath ipAddress port =
     check_missing (
       (if missing charDevicePath ''required'' then [''--control-device (character device path)''] else []) @
       (if missing underDevicePath ''required'' then [''--source-device (underlying device path)''] else []) @
       (if missing ipAddress ''required'' then [''--address (IP address)''] else []) @
       (if missing port 0 then [''--port (port)''] else []))"

text \<open>
  The lines a print call writes to the standard output; the two configurations share the code.
  The operands are given as Go prints them; \<^verbatim>\<open>fmt.Println\<close> shows the slice in brackets.
\<close>

definition print_args :: "string list \<Rightarrow> string" where
  "print_args args = ''['' @ Join args '' '' @ '']''"

definition Println_lines :: "bool \<Rightarrow> string list \<Rightarrow> string list" where
  "Println_lines noPrint args = (if noPrint then [] else [''[INFO]: '' @ print_args args])"

definition VerbosePrintln_lines :: "bool \<Rightarrow> bool \<Rightarrow> bool \<Rightarrow> string list \<Rightarrow> string list" where
  "VerbosePrintln_lines noPrint verbose debug args =
     (if noPrint then [] else if verbose \<or> debug then [''[VERBOSE]: '' @ print_args args] else [])"

definition DebugPrintln_lines :: "bool \<Rightarrow> bool \<Rightarrow> string list \<Rightarrow> string list" where
  "DebugPrintln_lines noPrint debug args =
     (if noPrint then [] else if debug then [''[DEBUG]: '' @ print_args args] else [])"

subsection \<open>The server\<close>

record ServerConfig =
  scPort :: int
  scIpAddress :: string
  scTargetDevPath :: string
  scJournalPath :: string
  scVerbose :: bool
  scDebug :: bool
  scNoPrint :: bool
  scBenchmark :: bool

definition Server_NewConfig :: "Flags \<Rightarrow> ServerConfig" where
  "Server_NewConfig flags = \<lparr>
     scPort = IntVar flags ''port'' 0,
     scIpAddress = StringVar flags ''address'' ''required'',
     scTargetDevPath = StringVar flags ''target-device'' ''required'',
     scJournalPath = StringVar flags ''journal'' ''required'',
     scVerbose = BoolVar flags ''verbose'' False,
     scDebug = BoolVar flags ''debug'' False,
     scNoPrint = BoolVar flags ''no-print'' False,
     scBenchmark = BoolVar flags ''benchmark'' False\<rparr>"

definition Server_ValidateArgs ::
    "string option \<Rightarrow> int option \<Rightarrow> string option \<Rightarrow> string option \<Rightarrow> unit result" where
  "Server_ValidateArgs targetDevicePath port ipAddress journalPath =
     check_missing (
       (if missing targetDevicePath ''required'' then [''--target-device (target device path)''] else []) @
       (if missing port 0 then [''--port (port to listen on)''] else []) @
       (if missing ipAddress ''required'' then [''--address (IP address to listen on)''] else []) @
       (if missing journalPath ''required'' then [''--journal (path to a device to store journal)''] else []))"

subsection \<open>Properties\<close>

lemma check_missing_iff: "check_missing ms = Inr () \<longleftrightarrow> ms = []"
  by (simp add: check_missing_def)

text \<open>
  The daemons start exactly when every required flag was given a value other than its
  default.  For the client: \<^verbatim>\<open>main\<close> passes the configuration of \<^verbatim>\<open>NewConfig\<close> to
  \<^verbatim>\<open>ValidateArgs\<close>, which succeeds if and only if control device, source device, address
  and port were set on the command line to something else than \<^verbatim>\<open>required\<close> and 0; the
  same for the server with target device, port, address and journal.
\<close>

lemma required_arguments:
  "(Client_ValidateArgs (Some (ccCharDevicePath (Client_NewConfig flags))) (Some (ccUnderDevicePath (Client_NewConfig flags)))
     (Some (ccIpAddress (Client_NewConfig flags))) (Some (ccPort (Client_NewConfig flags))) = Inr () \<longleftrightarrow>
   (\<exists>c u a p. flags ''control-device'' = Some (FString c) \<and> flags ''source-device'' = Some (FString u) \<and>
      flags ''address'' = Some (FString a) \<and> flags ''port'' = Some (FInt p) \<and>
      c \<noteq> ''required'' \<and> u \<noteq> ''required'' \<and> a \<noteq> ''required'' \<and> p \<noteq> 0)) \<and>
   (Server_ValidateArgs (Some (scTargetDevPath (Server_NewConfig flags))) (Some (scPort (Server_NewConfig flags)))
     (Some (scIpAddress (Server_NewConfig flags))) (Some (scJournalPath (Server_NewConfig flags))) = Inr () \<longleftrightarrow>
   (\<exists>t p a j. flags ''target-device'' = Some (FString t) \<and> flags ''port'' = Some (FInt p) \<and>
      flags ''address'' = Some (FString a) \<and> flags ''journal'' = Some (FString j) \<and>
      t \<noteq> ''required'' \<and> p \<noteq> 0 \<and> a \<noteq> ''required'' \<and> j \<noteq> ''required''))"
  by (auto simp: Client_ValidateArgs_def Server_ValidateArgs_def check_missing_iff missing_def
      Client_NewConfig_def Server_NewConfig_def StringVar_def IntVar_def split: option.splits FlagValue.splits)

end
