(* ===== verification/Pipeline.thy ===== *)
theory Pipeline
  imports Main "HOL-Library.Multiset"
begin

text \<open>
  The worker pipelines of the two daemons.  \<^verbatim>\<open>HashDisk\<close>, \<^verbatim>\<open>InitHashing\<close> and
  \<^verbatim>\<open>InitReplication\<close> are built the same way: a producer sends items into a buffered
  channel and closes it, each stage is a group of worker goroutines that range over one
  channel and send to the next, and a goroutine waits for the group and closes the next
  channel; the function itself waits for the group of the last stage.  \<open>pipe_act\<close> has the
  actions of the goroutines of that construction with \<open>n\<close> stages, one constructor for each;
  \<open>pipe_step\<close> is their interleaving, in which a send on a closed channel panics and ends the
  program.  What a worker of stage \<open>k\<close> does with an item is the relation
  \<open>work k\<close>: it may pass a result on, skip the item (\<^verbatim>\<open>continue\<close>), return, or send an
  item to the last channel and return.
\<close>

datatype 'a verdict =
    Pass 'a
  | Skip
  | Quit
  | Abort 'a

record 'a pipe =
  todo :: "'a list"
  chan :: "nat \<Rightarrow> 'a list"
  closed :: "nat \<Rightarrow> bool"
  idle :: "nat \<Rightarrow> nat"
  busy :: "nat \<Rightarrow> 'a multiset"
  out :: "'a list"
  stop :: bool
  panicked :: bool

definition pipe_init :: "nat \<Rightarrow> 'a list \<Rightarrow> 'a pipe" where
  "pipe_init workers src = \<lparr>todo = src, chan = (\<lambda>_. []), closed = (\<lambda>_. False),
     idle = (\<lambda>_. workers), busy = (\<lambda>_. {#}), out = [], stop = False, panicked = False\<rparr>"

text \<open>The wait for the last group has returned.\<close>

definition finished :: "nat \<Rightarrow> 'a pipe \<Rightarrow> bool" where
  "finished n p \<longleftrightarrow> idle p (n - 1) = 0 \<and> busy p (n - 1) = {#}"

inductive pipe_act :: "nat \<Rightarrow> (nat \<Rightarrow> nat) \<Rightarrow> (nat \<Rightarrow> 'a \<Rightarrow> 'a verdict \<Rightarrow> bool) \<Rightarrow> 'a pipe \<Rightarrow> 'a pipe \<Rightarrow> bool"
  for n :: nat and cap :: "nat \<Rightarrow> nat" and work :: "nat \<Rightarrow> 'a \<Rightarrow> 'a verdict \<Rightarrow> bool" where
  produce: "todo p = x # xs \<Longrightarrow> \<not> closed p 0 \<Longrightarrow> length (chan p 0) < cap 0 \<Longrightarrow>
    pipe_act n cap work p (p\<lparr>todo := xs, chan := (chan p)(0 := chan p 0 @ [x])\<rparr>)"
| give_up: "stop p \<Longrightarrow> todo p \<noteq> [] \<Longrightarrow> pipe_act n cap work p (p\<lparr>todo := []\<rparr>)"
| close_source: "todo p = [] \<Longrightarrow> \<not> closed p 0 \<Longrightarrow>
    pipe_act n cap work p (p\<lparr>closed := (closed p)(0 := True)\<rparr>)"
| receive: "k < n \<Longrightarrow> chan p k = x # xs \<Longrightarrow> 0 < idle p k \<Longrightarrow>
    pipe_act n cap work p (p\<lparr>chan := (chan p)(k := xs), idle := (idle p)(k := idle p k - 1),
                              busy := (busy p)(k := add_mset x (busy p k))\<rparr>)"
| leave: "k < n \<Longrightarrow> closed p k \<Longrightarrow> chan p k = [] \<Longrightarrow> 0 < idle p k \<Longrightarrow>
    pipe_act n cap work p (p\<lparr>idle := (idle p)(k := idle p k - 1)\<rparr>)"
| pass: "Suc k < n \<Longrightarrow> busy p k = add_mset x b \<Longrightarrow> work k x (Pass y) \<Longrightarrow>
    \<not> closed p (Suc k) \<Longrightarrow> length (chan p (Suc k)) < cap (Suc k) \<Longrightarrow>
    pipe_act n cap work p (p\<lparr>busy := (busy p)(k := b), idle := (idle p)(k := idle p k + 1),
                              chan := (chan p)(Suc k := chan p (Suc k) @ [y])\<rparr>)"
| sink: "Suc k = n \<Longrightarrow> busy p k = add_mset x b \<Longrightarrow> work k x (Pass y) \<Longrightarrow>
    pipe_act n cap work p (p\<lparr>busy := (busy p)(k := b), idle := (idle p)(k := idle p k + 1),
                              out := out p @ [y]\<rparr>)"
| skip: "k < n \<Longrightarrow> busy p k = add_mset x b \<Longrightarrow> work k x Skip \<Longrightarrow>
    pipe_act n cap work p (p\<lparr>busy := (busy p)(k := b), idle := (idle p)(k := idle p k + 1)\<rparr>)"
| quit: "k < n \<Longrightarrow> busy p k = add_mset x b \<Longrightarrow> work k x Quit \<Longrightarrow>
    pipe_act n cap work p (p\<lparr>busy := (busy p)(k := b)\<rparr>)"
| abort: "Suc k < n \<Longrightarrow> busy p k = add_mset x b \<Longrightarrow> work k x (Abort y) \<Longrightarrow>
    \<not> closed p (n - 1) \<Longrightarrow> length (chan p (n - 1)) < cap (n - 1) \<Longrightarrow>
    pipe_act n cap work p (p\<lparr>busy := (busy p)(k := b), chan := (chan p)(n - 1 := chan p (n - 1) @ [y])\<rparr>)"
| close_next: "Suc k < n \<Longrightarrow> idle p k = 0 \<Longrightarrow> busy p k = {#} \<Longrightarrow> \<not> closed p (Suc k) \<Longrightarrow>
    pipe_act n cap work p (p\<lparr>closed := (closed p)(Suc k := True)\<rparr>)"
| request_stop: "\<not> stop p \<Longrightarrow> pipe_act n cap work p (p\<lparr>stop := True\<rparr>)"
| stopped: "k < n \<Longrightarrow> stop p \<Longrightarrow> busy p k = add_mset x b \<Longrightarrow>
    pipe_act n cap work p (p\<lparr>busy := (busy p)(k := b)\<rparr>)"

text \<open>A worker has an item to send, and the channel it sends to is closed.\<close>

definition sends_closed :: "nat \<Rightarrow> (nat \<Rightarrow> 'a \<Rightarrow> 'a verdict \<Rightarrow> bool) \<Rightarrow> 'a pipe \<Rightarrow> bool" where
  "sends_closed n work p \<longleftrightarrow> (\<exists>k x y. Suc k < n \<and> x \<in># busy p k \<and>
     (work k x (Pass y) \<and> closed p (Suc k) \<or> work k x (Abort y) \<and> closed p (n - 1)))"

inductive pipe_step :: "nat \<Rightarrow> (nat \<Rightarrow> nat) \<Rightarrow> (nat \<Rightarrow> 'a \<Rightarrow> 'a verdict \<Rightarrow> bool) \<Rightarrow> 'a pipe \<Rightarrow> 'a pipe \<Rightarrow> bool"
  for n :: nat and cap :: "nat \<Rightarrow> nat" and work :: "nat \<Rightarrow> 'a \<Rightarrow> 'a verdict \<Rightarrow> bool" where
  act: "\<not> panicked p \<Longrightarrow> pipe_act n cap work p q \<Longrightarrow> pipe_step n cap work p q"
| panic: "\<not> panicked p \<Longrightarrow> sends_closed n work p \<Longrightarrow> pipe_step n cap work p (p\<lparr>panicked := True\<rparr>)"

lemma pipe_act_panicked: "pipe_act n cap work p q \<Longrightarrow> panicked q = panicked p"
  by (induction rule: pipe_act.induct) simp_all

text \<open>What becomes of a source item on the way to channel \<open>k\<close>.\<close>

fun flows :: "(nat \<Rightarrow> 'a \<Rightarrow> 'a verdict \<Rightarrow> bool) \<Rightarrow> nat \<Rightarrow> 'a \<Rightarrow> 'a \<Rightarrow> bool" where
  "flows work 0 x y \<longleftrightarrow> y = x"
| "flows work (Suc k) x z \<longleftrightarrow> (\<exists>y. flows work k x y \<and> work k y (Pass z))"

subsection \<open>Every run ends\<close>

definition stage_weight :: "nat \<Rightarrow> 'a pipe \<Rightarrow> nat \<Rightarrow> nat" where
  "stage_weight n p k =
     4 * (n - k) * length (chan p k) + (4 * (n - k) - 2) * size (busy p k) + idle p k"

definition pipe_weight :: "nat \<Rightarrow> 'a pipe \<Rightarrow> nat" where
  "pipe_weight n p = 4 * (n + 1) * length (todo p) + (\<Sum>k<n. stage_weight n p k) +
     (\<Sum>k<n. of_bool (\<not> closed p k)) + of_bool (\<not> stop p) + of_bool (\<not> panicked p)"

lemma sum_upd_less:
  fixes f g :: "nat \<Rightarrow> 'b::comm_monoid_add"
  assumes "k < n" and "\<And>i. i < n \<Longrightarrow> i \<noteq> k \<Longrightarrow> g i = f i"
  shows "sum g {..<n} + f k = sum f {..<n} + g k"
proof -
  have "sum g {..<n} = g k + sum g ({..<n} - {k})" "sum f {..<n} = f k + sum f ({..<n} - {k})"
    using assms(1) by (simp_all add: sum.remove)
  moreover have "sum g ({..<n} - {k}) = sum f ({..<n} - {k})" by (rule sum.cong) (use assms(2) in auto)
  ultimately show ?thesis by (simp add: ac_simps)
qed

lemma sum_upd2_less:
  fixes f g :: "nat \<Rightarrow> nat"
  assumes "k < n" and "l < n" and "k \<noteq> l" and "\<And>i. i < n \<Longrightarrow> i \<noteq> k \<Longrightarrow> i \<noteq> l \<Longrightarrow> g i = f i"
  shows "sum g {..<n} + f k + f l = sum f {..<n} + g k + g l"
proof -
  have "sum g {..<n} + (g(k := f k)) k = sum (g(k := f k)) {..<n} + g k"
    using sum_upd_less [of k n "g" "g(k := f k)"] assms(1) by simp
  moreover have "sum (g(k := f k)) {..<n} + f l = sum f {..<n} + (g(k := f k)) l"
    by (rule sum_upd_less [OF assms(2)]) (use assms(4) in auto)
  ultimately show ?thesis using assms(3) by simp
qed

lemma stage_step_weight:
  assumes "k < n" and "\<And>i. i < n \<Longrightarrow> i \<noteq> k \<Longrightarrow> stage_weight n q i = stage_weight n p i"
    and "stage_weight n q k < stage_weight n p k" and "todo q = todo p" and "closed q = closed p" and "stop q = stop p" and "panicked q = panicked p"
  shows "pipe_weight n q < pipe_weight n p"
  using sum_upd_less [of k n "stage_weight n q" "stage_weight n p"] assms by (simp add: pipe_weight_def)

lemma move_weight:
  assumes "k < n" and "l < n" and "k \<noteq> l"
    and "\<And>i. i < n \<Longrightarrow> i \<noteq> k \<Longrightarrow> i \<noteq> l \<Longrightarrow> stage_weight n q i = stage_weight n p i"
    and "stage_weight n q k + stage_weight n q l < stage_weight n p k + stage_weight n p l"
    and "todo q = todo p" and "closed q = closed p" and "stop q = stop p" and "panicked q = panicked p"
  shows "pipe_weight n q < pipe_weight n p"
  using sum_upd2_less [of k n l "stage_weight n q" "stage_weight n p"] assms by (simp add: pipe_weight_def)

lemma close_weight:
  assumes "k < n" and "\<not> closed p k"
  shows "pipe_weight n (p\<lparr>closed := (closed p)(k := True)\<rparr>) < pipe_weight n p"
  using sum_upd_less [of k n "\<lambda>i. of_bool (\<not> ((closed p)(k := True)) i) :: nat" "\<lambda>i. of_bool (\<not> closed p i)"] assms
  by (simp add: pipe_weight_def stage_weight_def del: sum_of_bool_eq)

lemma pipe_act_weight:
  assumes "pipe_act n cap work p q" and "0 < n"
  shows "pipe_weight n q < pipe_weight n p"
  using assms
proof (induction rule: pipe_act.induct)
  case (produce p x xs)
  have "sum (stage_weight n (p\<lparr>todo := xs, chan := (chan p)(0 := chan p 0 @ [x])\<rparr>)) {..<n} + stage_weight n p 0 =
    sum (stage_weight n p) {..<n} + stage_weight n (p\<lparr>todo := xs, chan := (chan p)(0 := chan p 0 @ [x])\<rparr>) 0"
    by (rule sum_upd_less) (use produce in \<open>auto simp: stage_weight_def\<close>)
  then show ?case using produce by (simp add: pipe_weight_def stage_weight_def algebra_simps)
next
  case (give_up p)
  then show ?case by (simp add: pipe_weight_def stage_weight_def)
next
  case (close_source p)
  then show ?case by (simp add: close_weight)
next
  case (receive k p x xs)
  then show ?case
    by (intro stage_step_weight [of k]) (auto simp: stage_weight_def algebra_simps diff_mult_distrib2)
next
  case (leave k p)
  then show ?case by (intro stage_step_weight [of k]) (auto simp: stage_weight_def)
next
  case (pass k p x b y)
  then obtain m where "n = Suc (Suc k + m)" using less_imp_Suc_add by blast
  with pass show ?case
    by (intro move_weight [of k _ "Suc k"]) (auto simp: stage_weight_def algebra_simps)
next
  case (sink k p x b y)
  then show ?case by (intro stage_step_weight [of k]) (auto simp: stage_weight_def)
next
  case (skip k p x b)
  then show ?case by (intro stage_step_weight [of k]) (auto simp: stage_weight_def)
next
  case (quit k p x b)
  then show ?case by (intro stage_step_weight [of k]) (auto simp: stage_weight_def)
next
  case (abort k p x b y)
  then obtain m where "n = Suc (Suc k + m)" using less_imp_Suc_add by blast
  with abort show ?case
    by (intro move_weight [of k _ "n - 1"]) (auto simp: stage_weight_def algebra_simps)
next
  case (close_next k p)
  then show ?case by (simp add: close_weight)
next
  case (request_stop p)
  then show ?case by (simp add: pipe_weight_def stage_weight_def)
next
  case (stopped k p x b)
  then show ?case by (intro stage_step_weight [of k]) (auto simp: stage_weight_def)
qed

lemma pipe_step_weight:
  assumes "pipe_step n cap work p q" and "0 < n"
  shows "pipe_weight n q < pipe_weight n p"
  using assms
proof (induction rule: pipe_step.induct)
  case (act p q)
  then show ?case by (simp add: pipe_act_weight)
next
  case (panic p)
  then show ?case by (simp add: pipe_weight_def stage_weight_def)
qed

lemma pipe_run_bounded:
  assumes "(pipe_step n cap work ^^ m) p q" and "0 < n"
  shows "m + pipe_weight n q \<le> pipe_weight n p"
  using assms(1)
proof (induction m arbitrary: q)
  case 0
  then show ?case by simp
next
  case (Suc m)
  then obtain r where "(pipe_step n cap work ^^ m) p r" "pipe_step n cap work r q" by auto
  then show ?case using Suc.IH [of r] pipe_step_weight [OF _ assms(2)] by fastforce
qed

subsection \<open>No run gets stuck\<close>

text \<open>
  As long as the wait for the last group has not returned and nothing has panicked, some
  goroutine can act: every worker does something with every item, and the channels have room
  for at least one item.
\<close>

definition goes_on :: "nat \<Rightarrow> (nat \<Rightarrow> nat) \<Rightarrow> (nat \<Rightarrow> 'a \<Rightarrow> 'a verdict \<Rightarrow> bool) \<Rightarrow> 'a pipe \<Rightarrow> bool" where
  "goes_on n cap work p \<longleftrightarrow> (\<exists>q. pipe_step n cap work p q \<and> stop q = stop p)"

lemma goes_onI: "pipe_act n cap work p q \<Longrightarrow> \<not> panicked p \<Longrightarrow> stop q = stop p \<Longrightarrow> goes_on n cap work p"
  by (auto simp: goes_on_def intro: pipe_step.act)

lemma goes_on_panic: "sends_closed n work p \<Longrightarrow> \<not> panicked p \<Longrightarrow> goes_on n cap work p"
  unfolding goes_on_def by (rule exI [of _ "p\<lparr>panicked := True\<rparr>"]) (simp add: pipe_step.panic)

lemma stage_cases:
  assumes "k < n" and "idle p k \<noteq> 0 \<or> busy p k \<noteq> {#}" and "\<And>x. \<exists>v. work k x v \<and> (\<forall>y. v = Abort y \<longrightarrow> Suc k < n)"
    and room: "\<And>l. k < l \<Longrightarrow> l < n \<Longrightarrow> chan p l = []" and cap: "\<And>l. 0 < cap l" and alive: "\<not> panicked p"
  shows "goes_on n cap work p \<or> (busy p k = {#} \<and> chan p k = [] \<and> \<not> closed p k)"
proof (cases "busy p k")
  case (add x b)
  obtain v where v: "work k x v" "\<forall>y. v = Abort y \<longrightarrow> Suc k < n" using assms(3) by blast
  show ?thesis
  proof (cases v)
    case (Pass y)
    have "goes_on n cap work p" if "Suc k < n" "closed p (Suc k)"
      using goes_on_panic [OF _ alive, of n work cap] that v(1) add Pass unfolding sends_closed_def by fastforce
    then show ?thesis
      using pipe_act.pass [OF _ add, of n work y cap, THEN goes_onI] pipe_act.sink [OF _ add, of n work y cap, THEN goes_onI] v room [of "Suc k"] cap [of "Suc k"] assms(1)
        alive Pass by (cases "Suc k < n") (auto dest: Suc_lessI)
  next
    case Skip
    then show ?thesis using pipe_act.skip [OF assms(1) add, of work cap, THEN goes_onI] v alive by auto
  next
    case Quit
    then show ?thesis using pipe_act.quit [OF assms(1) add, of work cap, THEN goes_onI] v alive by auto
  next
    case (Abort y)
    then have k: "Suc k < n" using v(2) by simp
    have "goes_on n cap work p" if "closed p (n - 1)"
      using goes_on_panic [OF _ alive, of n work cap] that k v(1) add Abort unfolding sends_closed_def by fastforce
    then show ?thesis
      using pipe_act.abort [OF k add, of work y cap, THEN goes_onI] v room [of "n - 1"] cap [of "n - 1"] k alive Abort by auto
  qed
next
  case empty
  then have "0 < idle p k" using assms(2) by simp
  then show ?thesis using pipe_act.receive [OF assms(1), of p _ _ cap work, THEN goes_onI] pipe_act.leave [OF assms(1), of p cap work, THEN goes_onI] empty alive
    by (cases "chan p k") auto
qed

lemma pipe_progress:
  assumes "0 < n" and live: "\<And>k x. k < n \<Longrightarrow> \<exists>v. work k x v \<and> (\<forall>y. v = Abort y \<longrightarrow> Suc k < n)"
    and cap: "\<And>l. 0 < cap l" and unf: "\<not> finished n p" and run: "\<not> panicked p"
  shows "goes_on n cap work p"
proof (rule ccontr)
  assume stuck: "\<not> goes_on n cap work p"
  have st: "k < n \<Longrightarrow> idle p k \<noteq> 0 \<or> busy p k \<noteq> {#} \<Longrightarrow> (\<And>l. k < l \<Longrightarrow> l < n \<Longrightarrow> chan p l = []) \<Longrightarrow>
      busy p k = {#} \<and> chan p k = [] \<and> \<not> closed p k" for k
    using stage_cases [of k n p work cap] live cap stuck run by blast
  have "m < n \<Longrightarrow> idle p (n - 1 - m) \<noteq> 0 \<and> busy p (n - 1 - m) = {#} \<and> \<not> closed p (n - 1 - m) \<and>
      (\<forall>l. n - 1 - m \<le> l \<and> l < n \<longrightarrow> chan p l = [])" for m
  proof (induction m)
    case 0
    have "idle p (n - 1) \<noteq> 0 \<or> busy p (n - 1) \<noteq> {#}" using unf by (auto simp: finished_def)
    from st [OF _ this] assms(1) have "busy p (n - 1) = {#} \<and> chan p (n - 1) = [] \<and> \<not> closed p (n - 1)" by auto
    moreover have "l = n - 1" if "n - 1 \<le> l" "l < n" for l using that by simp
    ultimately show ?case using unf by (auto simp: finished_def)
  next
    case (Suc m)
    let ?k = "n - 1 - Suc m"
    have k: "Suc ?k = n - 1 - m" "Suc ?k < n" "?k < n" using Suc.prems by auto
    have up: "\<not> closed p (Suc ?k)" "\<forall>l. ?k < l \<and> l < n \<longrightarrow> chan p l = []"
      using Suc k(1) by (auto simp flip: k(1) simp: Suc_le_eq)
    have alive: "idle p ?k \<noteq> 0 \<or> busy p ?k \<noteq> {#}"
      using pipe_act.close_next [OF k(2), of p cap work, THEN goes_onI] up(1) stuck run by auto
    from st [OF k(3) alive] up(2) have q: "busy p ?k = {#} \<and> chan p ?k = [] \<and> \<not> closed p ?k" by auto
    moreover have "chan p l = []" if "?k \<le> l" "l < n" for l using that q up(2) by (cases "l = ?k") auto
    ultimately show ?case using alive by blast
  qed
  from this [of "n - 1"] assms(1) have first: "\<not> closed p 0" "chan p 0 = []" by auto
  then show False
    using stuck pipe_act.close_source [of p n cap work, THEN goes_onI] pipe_act.produce [of p _ _ cap n work, THEN goes_onI] cap [of 0] run
    by (cases "todo p") auto
qed

lemma pipe_finishes:
  assumes "0 < n" and live: "\<And>k x. k < n \<Longrightarrow> \<exists>v. work k x v \<and> (\<forall>y. v = Abort y \<longrightarrow> Suc k < n)"
    and cap: "\<And>l. 0 < cap l"
  shows "\<exists>q. (pipe_step n cap work)\<^sup>*\<^sup>* p q \<and> (finished n q \<or> panicked q) \<and> stop q = stop p"
proof (induction "pipe_weight n p" arbitrary: p rule: less_induct)
  case less
  show ?case
  proof (cases "finished n p \<or> panicked p")
    case False
    then obtain r where r: "pipe_step n cap work p r" "stop r = stop p"
      using pipe_progress [of n work cap p] assms unfolding goes_on_def by blast
    from less [OF pipe_step_weight [OF r(1) assms(1)]] r show ?thesis by (metis converse_rtranclp_into_rtranclp)
  qed blast
qed

subsection \<open>Channels are closed in order\<close>

text \<open>
  A channel is closed only after every sender of the previous stage has returned, so a worker
  never finds the channel of the next stage closed.
\<close>

definition closing_inv :: "nat \<Rightarrow> 'a pipe \<Rightarrow> bool" where
  "closing_inv n p \<longleftrightarrow> (closed p 0 \<longrightarrow> todo p = []) \<and>
     (\<forall>k. Suc k < n \<and> closed p (Suc k) \<longrightarrow> idle p k = 0 \<and> busy p k = {#})"

lemma closing_inv_init [simp]: "closing_inv n (pipe_init w src)"
  by (simp add: closing_inv_def pipe_init_def)

lemma closing_inv_act:
  assumes "pipe_act n cap work p q" and "closing_inv n p"
  shows "closing_inv n q"
  using assms by (induction rule: pipe_act.induct) (auto simp: closing_inv_def)

lemma closing_inv_step:
  assumes "pipe_step n cap work p q" and "closing_inv n p"
  shows "closing_inv n q"
  using assms
proof (induction rule: pipe_step.induct)
  case (act p q)
  then show ?case by (simp add: closing_inv_act)
next
  case (panic p)
  then show ?case by (simp add: closing_inv_def)
qed

lemma closing_inv_steps: "(pipe_step n cap work)\<^sup>*\<^sup>* p q \<Longrightarrow> closing_inv n p \<Longrightarrow> closing_inv n q"
  by (induction rule: rtranclp_induct) (auto intro: closing_inv_step)

text \<open>
  The workers that send past their next stage rely on the group that closes the last channel:
  as long as its workers return only when their own channel is closed, it outlives them.
\<close>

definition closers_run :: "nat \<Rightarrow> nat \<Rightarrow> 'a pipe \<Rightarrow> bool" where
  "closers_run n w p \<longleftrightarrow> stop p \<or> closed p (n - 2) \<or> idle p (n - 2) + size (busy p (n - 2)) = w"

locale reporting_stages =
  fixes n :: nat and work :: "nat \<Rightarrow> 'a \<Rightarrow> 'a verdict \<Rightarrow> bool"
  assumes abort_early: "work k x (Abort y) \<Longrightarrow> n = Suc (Suc (Suc k))"
    and closers_stay: "n = Suc (Suc k) \<Longrightarrow> \<not> work k x Quit"
begin

lemma closers_act:
  assumes "pipe_act n cap work p q" and inv: "closers_run n w p" and "2 \<le> n"
  shows "closers_run n w q"
  using assms(1)
proof (cases rule: pipe_act.cases)
  case (receive k x xs)
  then show ?thesis using inv by (cases "k = n - 2") (auto simp: closers_run_def)
next
  case (leave k)
  then show ?thesis using inv by (cases "k = n - 2") (auto simp: closers_run_def)
next
  case (pass k x b y)
  then show ?thesis using inv by (cases "k = n - 2") (auto simp: closers_run_def)
next
  case (sink k x b y)
  then show ?thesis using inv assms(3) by (auto simp: closers_run_def)
next
  case (skip k x b)
  then show ?thesis using inv by (cases "k = n - 2") (auto simp: closers_run_def)
next
  case (quit k x b)
  moreover have "k \<noteq> n - 2"
  proof
    assume "k = n - 2"
    then have "n = Suc (Suc k)" using assms(3) by simp
    then show False using quit closers_stay by blast
  qed
  ultimately show ?thesis using inv by (auto simp: closers_run_def)
next
  case (abort k x b y)
  moreover have "k \<noteq> n - 2" using abort abort_early [of k x y] by auto
  ultimately show ?thesis using inv by (auto simp: closers_run_def)
next
  case (stopped k x b)
  then show ?thesis by (simp add: closers_run_def)
qed (use inv in \<open>auto simp: closers_run_def\<close>)

lemma closers_reachable:
  assumes "(pipe_step n cap work)\<^sup>*\<^sup>* (pipe_init w src) p" and "2 \<le> n"
  shows "closers_run n w p"
  using assms(1)
proof (induction rule: rtranclp_induct)
  case base
  then show ?case by (simp add: closers_run_def pipe_init_def)
next
  case (step p q)
  from step(2) show ?case
  proof cases
    case act
    then show ?thesis using closers_act [OF _ step(3) assms(2)] by blast
  next
    case panic
    then show ?thesis using step(3) by (simp add: closers_run_def)
  qed
qed

lemma last_channel_open:
  assumes "(pipe_step n cap work)\<^sup>*\<^sup>* (pipe_init w src) p" and "0 < w" and "\<not> stop p"
    and "n = Suc (Suc (Suc k))" and "busy p k \<noteq> {#}"
  shows "\<not> closed p (Suc (Suc k))"
proof
  assume c: "closed p (Suc (Suc k))"
  have i: "closing_inv n p" using closing_inv_steps [OF assms(1)] by simp
  have "idle p (Suc k) = 0 \<and> busy p (Suc k) = {#}" using i c assms(4) by (simp add: closing_inv_def)
  moreover have "closers_run n w p" using closers_reachable [OF assms(1)] assms(4) by simp
  ultimately have "closed p (Suc k)" using assms(2-4) by (auto simp: closers_run_def)
  then show False using i assms(4,5) by (auto simp: closing_inv_def)
qed

lemma not_sends_closed:
  assumes "(pipe_step n cap work)\<^sup>*\<^sup>* (pipe_init w src) p" and "0 < w" and "\<not> stop p"
  shows "\<not> sends_closed n work p"
proof
  assume "sends_closed n work p"
  then obtain k x y where k: "Suc k < n" "x \<in># busy p k"
      "work k x (Pass y) \<and> closed p (Suc k) \<or> work k x (Abort y) \<and> closed p (n - 1)"
    by (auto simp: sends_closed_def)
  have "closing_inv n p" using closing_inv_steps [OF assms(1)] by simp
  then have "\<not> closed p (Suc k)" using k(1,2) by (auto simp: closing_inv_def)
  then have a: "work k x (Abort y)" "closed p (n - 1)" using k(3) by auto
  have "busy p k \<noteq> {#}" using k(2) by auto
  then show False using last_channel_open [OF assms abort_early [OF a(1)]] a(2) abort_early [OF a(1)] by simp
qed

text \<open>Nothing panics as long as nobody asks for a stop.\<close>

lemma no_panic:
  assumes "(pipe_step n cap work)\<^sup>*\<^sup>* (pipe_init w src) p" and "0 < w" and "\<not> stop p"
  shows "\<not> panicked p"
  using assms(1,3)
proof (induction rule: rtranclp_induct)
  case base
  then show ?case by (simp add: pipe_init_def)
next
  case (step p q)
  from step(2) show ?case
  proof cases
    case act
    then show ?thesis by (simp add: pipe_act_panicked)
  next
    case panic
    then show ?thesis using not_sends_closed [OF step(1) assms(2)] step(4) by simp
  qed
qed

lemma completes:
  assumes "(pipe_step n cap work)\<^sup>*\<^sup>* (pipe_init w src) p" and "0 < w" and "\<not> stop p" and "0 < n"
    and "\<And>k x. k < n \<Longrightarrow> \<exists>v. work k x v \<and> (\<forall>y. v = Abort y \<longrightarrow> Suc k < n)" and "\<And>l. 0 < cap l"
  shows "\<exists>q. (pipe_step n cap work)\<^sup>*\<^sup>* p q \<and> finished n q \<and> \<not> panicked q \<and> \<not> stop q"
proof -
  obtain q where q: "(pipe_step n cap work)\<^sup>*\<^sup>* p q" "finished n q \<or> panicked q" "stop q = stop p"
    using pipe_finishes [of n work cap p] assms(4-6) by blast
  then show ?thesis using no_panic [OF rtranclp_trans [OF assms(1) q(1)] assms(2)] assms(3) by auto
qed

end

subsection \<open>Nothing is lost\<close>

text \<open>
  A pass is smooth when every worker passes every item on that the source gives rise to:
  no read fails, no worker returns early.
\<close>

definition smooth :: "nat \<Rightarrow> (nat \<Rightarrow> 'a \<Rightarrow> 'a verdict \<Rightarrow> bool) \<Rightarrow> 'a list \<Rightarrow> bool" where
  "smooth n work src \<longleftrightarrow>
     (\<forall>x \<in> set src. \<forall>k < n. \<forall>y v. flows work k x y \<and> work k y v \<longrightarrow> (\<exists>z. v = Pass z))"

definition held :: "'a pipe \<Rightarrow> nat \<Rightarrow> 'a multiset" where
  "held p k = mset (chan p k) + busy p k"

text \<open>
  Every source item is still to be produced, or is somewhere in the pipeline in the form
  its stages gave it, or came out.
\<close>

definition lossless_by ::
  "nat \<Rightarrow> (nat \<Rightarrow> 'a \<Rightarrow> 'a verdict \<Rightarrow> bool) \<Rightarrow> 'a list \<Rightarrow> 'a pipe \<Rightarrow> (nat \<Rightarrow> 'a multiset) \<Rightarrow> 'a multiset \<Rightarrow> bool" where
  "lossless_by n work src p B D \<longleftrightarrow>
     mset src = mset (todo p) + sum B {..<n} + D \<and>
     (\<forall>k < n. rel_mset (flows work k) (B k) (held p k)) \<and>
     rel_mset (flows work n) D (mset (out p))"

definition lossless :: "nat \<Rightarrow> (nat \<Rightarrow> 'a \<Rightarrow> 'a verdict \<Rightarrow> bool) \<Rightarrow> 'a list \<Rightarrow> 'a pipe \<Rightarrow> bool" where
  "lossless n work src p \<longleftrightarrow> (\<exists>B D. lossless_by n work src p B D)"

text \<open>A worker of a stage has returned only when its channel was closed and empty.\<close>

definition draining_inv :: "nat \<Rightarrow> nat \<Rightarrow> 'a pipe \<Rightarrow> bool" where
  "draining_inv n w p \<longleftrightarrow> \<not> stop p \<and>
     (\<forall>k < n. idle p k + size (busy p k) \<le> w \<and>
        (idle p k + size (busy p k) < w \<longrightarrow> closed p k \<and> chan p k = []))"

lemma lossless_init: "lossless n work src (pipe_init w src)"
  unfolding lossless_def
  by (rule exI [of _ "\<lambda>_. {#}"], rule exI [of _ "{#}"])
    (simp add: lossless_by_def pipe_init_def held_def rel_mset_Zero)

lemma lossless_frame:
  assumes "lossless n work src p" and "todo q = todo p" and "out q = out p" and "\<And>k. k < n \<Longrightarrow> held q k = held p k"
  shows "lossless n work src q"
  using assms by (auto simp: lossless_def lossless_by_def)

lemma lossless_take:
  assumes "lossless_by n work src p B D" and "k < n" and "held p k = add_mset x h"
  obtains a M where "flows work k a x" and "B k = add_mset a M" and "rel_mset (flows work k) M h" and "a \<in> set src"
proof -
  have "rel_mset (flows work k) (B k) (add_mset x h)" using assms by (auto simp: lossless_by_def simp flip: assms(3))
  from msed_rel_invR [OF this] obtain a M where
    *: "flows work k a x" "B k = add_mset a M" "rel_mset (flows work k) M h" by blast
  have "B k \<subseteq># sum B {..<n}" using assms(2) by (simp add: sum.remove [of _ k])
  then have "a \<in># mset src" using assms(1) *(2) by (auto simp: lossless_by_def dest: mset_subset_eqD)
  then show ?thesis using that * by simp
qed

lemma smooth_work:
  assumes "smooth n work src" and "lossless n work src p" and "k < n" and "busy p k = add_mset x b" and "work k x v"
  shows "\<exists>z. v = Pass z"
proof -
  obtain B D where "lossless_by n work src p B D" using assms(2) by (auto simp: lossless_def)
  moreover have "held p k = add_mset x (mset (chan p k) + b)" using assms(4) by (simp add: held_def)
  ultimately obtain a where "flows work k a x" "a \<in> set src" using assms(3) lossless_take by metis
  then show ?thesis using assms(1,3,5) by (auto simp: smooth_def)
qed

lemma draining_inv_init: "draining_inv n w (pipe_init w src)"
  by (simp add: draining_inv_def pipe_init_def)

lemma draining_count: "draining_inv n w p \<Longrightarrow> k < n \<Longrightarrow> idle p k + size (busy p k) \<le> w"
  by (simp add: draining_inv_def)

lemma draining_inv_act:
  assumes "pipe_act n cap work p q" and "draining_inv n w p" and "closing_inv n p" and "lossless n work src p"
    and "smooth n work src" and "\<not> stop q" and "0 < w"
  shows "draining_inv n w q"
  using assms
proof (induction rule: pipe_act.induct)
  case (receive k p x xs)
  then show ?case by (fastforce simp: draining_inv_def)
next
  case (pass k p x b y)
  moreover have "idle p k + size (busy p k) \<le> w" using draining_count pass(1,6) Suc_lessD by blast
  ultimately show ?case using pass by (auto simp: draining_inv_def)
next
  case (leave k p)
  then show ?case by (auto simp: draining_inv_def)
next
  case (quit k p x b)
  then show ?case using smooth_work [OF quit(7,6,1,2,3)] by simp
next
  case (abort k p x b y)
  then show ?case using smooth_work [OF abort(9,8) _ abort(2,3)] by simp
qed (auto simp: draining_inv_def closing_inv_def)

lemma lossless_in:
  assumes "lossless_by n work src p B D" and "0 < n" and "todo p = x # todo q" and "out q = out p"
    and "held q 0 = add_mset x (held p 0)" and "\<And>k. k < n \<Longrightarrow> k \<noteq> 0 \<Longrightarrow> held q k = held p k"
  shows "lossless_by n work src q (B(0 := add_mset x (B 0))) D"
proof -
  have "sum (B(0 := add_mset x (B 0))) {..<n} + B 0 = sum B {..<n} + add_mset x (B 0)"
    using sum_upd_less [of 0 n "B(0 := add_mset x (B 0))" B] assms(2) by simp
  moreover have "rel_mset (flows work 0) (add_mset x (B 0)) (add_mset x (held p 0))"
    using assms(1,2) by (intro rel_mset_Plus) (auto simp: lossless_by_def)
  ultimately show ?thesis using assms by (auto simp: lossless_by_def)
qed

lemma lossless_pass:
  assumes "lossless_by n work src p B D" and k: "Suc k < n" and "work k x (Pass y)" and "held p k = add_mset x (held q k)"
    and "held q (Suc k) = add_mset y (held p (Suc k))" and "todo q = todo p" and "out q = out p"
    and "\<And>l. l < n \<Longrightarrow> l \<noteq> k \<Longrightarrow> l \<noteq> Suc k \<Longrightarrow> held q l = held p l"
  shows "lossless n work src q"
proof -
  from assms(1,4) k obtain a M where t: "flows work k a x" "B k = add_mset a M" "rel_mset (flows work k) M (held q k)"
    by (metis Suc_lessD lossless_take)
  let ?B = "B(k := M, Suc k := add_mset a (B (Suc k)))"
  have "sum (B(k := M)) {..<n} + B k = sum B {..<n} + M"
    using sum_upd_less [of k n "B(k := M)" B] k by simp
  moreover have "sum ?B {..<n} + B (Suc k) = sum (B(k := M)) {..<n} + add_mset a (B (Suc k))"
    using sum_upd_less [of "Suc k" n ?B "B(k := M)"] k by simp
  ultimately have "sum ?B {..<n} = sum B {..<n}" by (simp add: t(2) del: fun_upd_apply)
  moreover have "rel_mset (flows work (Suc k)) (add_mset a (B (Suc k))) (held q (Suc k))"
    unfolding assms(5) using assms(1,3) t(1) k by (intro rel_mset_Plus) (auto simp: lossless_by_def)
  ultimately have "lossless_by n work src q ?B D" using assms t by (auto simp: lossless_by_def)
  then show ?thesis by (auto simp: lossless_def)
qed

lemma lossless_sink:
  assumes "lossless_by n work src p B D" and k: "Suc k = n" and "work k x (Pass y)" and "held p k = add_mset x (held q k)"
    and "todo q = todo p" and "\<And>l. l < n \<Longrightarrow> l \<noteq> k \<Longrightarrow> held q l = held p l" and "out q = out p @ [y]"
  shows "lossless n work src q"
proof -
  from assms(1,4) k obtain a M where t: "flows work k a x" "B k = add_mset a M" "rel_mset (flows work k) M (held q k)"
    by (metis lessI lossless_take)
  have sum: "sum (B(k := M)) {..<n} + B k = sum B {..<n} + M"
    using sum_upd_less [of k n "B(k := M)" B] k by simp
  have "flows work n a y" using k assms(3) t(1) by auto
  then have "rel_mset (flows work n) (add_mset a D) (add_mset y (mset (out p)))"
    using assms(1) by (intro rel_mset_Plus) (auto simp: lossless_by_def)
  then have "lossless_by n work src q (B(k := M)) (add_mset a D)"
    using assms t sum by (auto simp: lossless_by_def)
  then show ?thesis by (auto simp: lossless_def)
qed

lemma lossless_act:
  assumes "pipe_act n cap work p q" and "lossless n work src p" and "smooth n work src" and "\<not> stop q" and "0 < n"
  shows "lossless n work src q"
  using assms
proof (induction rule: pipe_act.induct)
  case (produce p x xs)
  then obtain B D where "lossless_by n work src p B D" by (auto simp: lossless_def)
  from lossless_in [OF this, of x "p\<lparr>todo := xs, chan := (chan p)(0 := chan p 0 @ [x])\<rparr>"] produce
  show ?case unfolding lossless_def by (auto simp: held_def)
next
  case (pass k p x b y)
  then obtain B D where "lossless_by n work src p B D" by (auto simp: lossless_def)
  from lossless_pass [OF this pass(1,3)] pass show ?case by (auto simp: held_def)
next
  case (sink k p x b y)
  then obtain B D where "lossless_by n work src p B D" by (auto simp: lossless_def)
  from lossless_sink [OF this sink(1,3)] sink show ?case by (auto simp: held_def)
next
  case (receive k p x xs)
  show ?case by (rule lossless_frame [OF receive(4)]) (use receive in \<open>auto simp: held_def\<close>)
next
  case (skip k p x b)
  then show ?case using smooth_work [OF skip(5,4,1,2,3)] by simp
next
  case (quit k p x b)
  then show ?case using smooth_work [OF quit(5,4,1,2,3)] by simp
next
  case (abort k p x b y)
  then show ?case using smooth_work [OF abort(7,6) _ abort(2,3)] by simp
qed (auto intro: lossless_frame simp: held_def)

lemma finished_empty:
  assumes "draining_inv n w p" and "closing_inv n p" and "finished n p" and "0 < w" and "0 < n"
  shows "todo p = []" and "k < n \<Longrightarrow> held p k = {#}"
proof -
  have "m < n \<Longrightarrow> held p (n - 1 - m) = {#} \<and> closed p (n - 1 - m)" for m
  proof (induction m)
    case 0
    then show ?case using assms by (auto simp: draining_inv_def finished_def held_def)
  next
    case (Suc m)
    let ?k = "n - 1 - Suc m"
    have k: "Suc ?k = n - 1 - m" "Suc ?k < n" "?k < n" using Suc.prems by auto
    have "closed p (Suc ?k)" using Suc k(1) by (simp flip: k(1))
    then have "idle p ?k = 0 \<and> busy p ?k = {#}" using assms(2) k(2) by (simp add: closing_inv_def)
    then show ?case using assms(1,4) k(3) by (auto simp: draining_inv_def held_def)
  qed
  from this [of "n - 1"] this [of "n - 1 - k"] show "k < n \<Longrightarrow> held p k = {#}" "todo p = []"
    using assms(2,5) by (auto simp: closing_inv_def)
qed

text \<open>
  A run that reaches the end without a stop request and without a panic.  \<open>pipe_runs\<close> is such a run from the
  initial state; \<open>q\<close> is its last state.
\<close>

definition pipe_runs :: "nat \<Rightarrow> (nat \<Rightarrow> nat) \<Rightarrow> (nat \<Rightarrow> 'a \<Rightarrow> 'a verdict \<Rightarrow> bool) \<Rightarrow> nat \<Rightarrow> 'a list \<Rightarrow> 'a pipe \<Rightarrow> bool" where
  "pipe_runs n cap work w src q \<longleftrightarrow>
     (pipe_step n cap work)\<^sup>*\<^sup>* (pipe_init w src) q \<and> finished n q \<and> \<not> stop q \<and> \<not> panicked q"

lemma stop_mono: "pipe_step n cap work p q \<Longrightarrow> \<not> stop q \<Longrightarrow> \<not> stop p"
  by (cases rule: pipe_step.cases, assumption) (auto elim: pipe_act.cases)

lemma pipe_invs:
  assumes "(pipe_step n cap work)\<^sup>*\<^sup>* (pipe_init w src) q" and "\<not> stop q" and "smooth n work src" and "0 < w" and "0 < n"
  shows "draining_inv n w q \<and> closing_inv n q \<and> lossless n work src q"
  using assms(1,2)
proof (induction rule: rtranclp_induct)
  case base
  then show ?case by (simp add: draining_inv_init lossless_init)
next
  case (step r q)
  then have inv: "draining_inv n w r \<and> closing_inv n r \<and> lossless n work src r" using stop_mono by blast
  from step(2) show ?case
  proof cases
    case act
    then show ?thesis using inv step(4) draining_inv_act closing_inv_act lossless_act assms(3-5) by metis
  next
    case panic
    then show ?thesis using inv
      by (auto simp: draining_inv_def closing_inv_def held_def intro: lossless_frame)
  qed
qed

lemma pipe_complete:
  assumes "pipe_runs n cap work w src q" and "smooth n work src" and "0 < w" and "0 < n"
  shows "rel_mset (flows work n) (mset src) (mset (out q))"
proof -
  have r: "(pipe_step n cap work)\<^sup>*\<^sup>* (pipe_init w src) q" "finished n q" "\<not> stop q"
    using assms(1) by (auto simp: pipe_runs_def)
  have inv: "draining_inv n w q" "closing_inv n q" "lossless n work src q"
    using pipe_invs [OF r(1,3) assms(2-4)] by auto
  obtain B D where l: "lossless_by n work src q B D" using inv(3) by (auto simp: lossless_def)
  note e = finished_empty [OF inv(1,2) r(2) assms(3,4)]
  have "sum B {..<n} = {#}" using l e by (intro sum.neutral) (auto simp: lossless_by_def)
  then show ?thesis using l e(1) by (simp add: lossless_by_def)
qed

lemma rel_mset_image:
  assumes "rel_mset R M N" and "\<And>x y. x \<in># M \<Longrightarrow> R x y \<Longrightarrow> f y = g x"
  shows "image_mset f N = image_mset g M"
  using assms
proof (induction M arbitrary: N)
  case empty
  then show ?case by simp
next
  case (add x M)
  from msed_rel_invL [OF add.prems(1)] obtain N' y where "N = add_mset y N'" "R x y" "rel_mset R M N'" by blast
  then show ?case using add.IH [of N'] add.prems(2) by auto
qed

lemma rel_mset_ex:
  assumes "rel_mset R M N" and "y \<in># N"
  shows "\<exists>x \<in># M. R x y"
proof -
  from assms(2) obtain N' where "N = add_mset y N'" by (metis multi_member_split)
  from msed_rel_invR [OF assms(1) [unfolded this]] show ?thesis by auto
qed

lemma rel_mset_ex_right:
  assumes "rel_mset R M N" and "x \<in># M"
  shows "\<exists>y \<in># N. R x y"
proof -
  from assms(2) obtain M' where "M = add_mset x M'" by (metis multi_member_split)
  from msed_rel_invL [OF assms(1) [unfolded this]] show ?thesis by auto
qed

text \<open>
  When the form of an item tells which source item it came from, a complete run gives
  every source item exactly one result.
\<close>

lemma keyed_outputs:
  assumes rel: "rel_mset fl (mset (map p [0..<n])) (mset ys)"
    and fl: "\<And>k y. k < n \<Longrightarrow> fl (p k) y \<Longrightarrow> \<exists>b. B b \<and> y = it k b"
    and src: "\<And>k. k < n \<Longrightarrow> skey (p k) = k" and key: "\<And>k b. k < n \<Longrightarrow> key (it k b) = k"
  obtains b where "set ys = (\<lambda>k. it k (b k)) ` {..<n}" and "\<And>k. k < n \<Longrightarrow> B (b k)"
proof -
  have "image_mset key (mset ys) = image_mset skey (mset (map p [0..<n]))"
    by (rule rel_mset_image [OF rel]) (use fl key src in fastforce)
  also have "\<dots> = mset [0..<n]"
    unfolding mset_map [symmetric] map_map by (rule arg_cong [of _ _ mset], rule map_idI) (simp add: src)
  finally have "distinct (map key ys)" by (metis distinct_upt mset_eq_imp_distinct_iff mset_map)
  then have inj: "inj_on key (set ys)" by (simp add: distinct_map)
  have "\<exists>b. B b \<and> it k b \<in> set ys" if "k < n" for k
    using rel_mset_ex_right [OF rel, of "p k"] fl that by fastforce
  then obtain b where b: "\<And>k. k < n \<Longrightarrow> B (b k)" "\<And>k. k < n \<Longrightarrow> it k (b k) \<in> set ys" by metis
  have "y \<in> (\<lambda>k. it k (b k)) ` {..<n}" if y: "y \<in> set ys" for y
  proof -
    obtain k where kn: "k < n" "fl (p k) y" using rel_mset_ex [OF rel, of y] y by auto
    then obtain c where k: "y = it k c" using fl by blast
    have "y = it k (b k)" by (rule inj_onD [OF inj _ y b(2) [OF kn(1)]]) (simp add: k key kn(1))
    then show ?thesis using kn(1) by blast
  qed
  then have "set ys = (\<lambda>k. it k (b k)) ` {..<n}" using b(2) by auto
  then show ?thesis using that b(1) by blast
qed

end
