(* ===== verification/Networking.thy ===== *)
theory Networking
  imports BDR_Prelude
begin

text \<open>
  \<^verbatim>\<open>user/networking/networking.go\<close>: the block-size constants, the packet types and the
  payloads the two daemons exchange.  The packet types are the values of the source's
  \<^verbatim>\<open>iota\<close> block; the payload, a Go \<^verbatim>\<open>any\<close>, is a tagged union of the registered
  payload types and \<open>NoPayload\<close> for nil.
\<close>

definition HashedSpaceBase :: u64 where
  "HashedSpaceBase = 1024 * 256 * 1"

definition WriteInfoSize :: u64 where
  "WriteInfoSize = 4108"

definition CorrectBlockByteSize :: u64 where
  "CorrectBlockByteSize = 8 + 4 + HashedSpaceBase"

datatype PacketType =
    PacketTypeCmdStartHashing
  | PacketTypeCmdStartFullScan
  | PacketTypeCmdStartFullReplication
  | PacketTypeInfoHashingCompleted
  | PacketTypeInfoStartHashing
  | PacketTypeInfoInit
  | PacketTypeInfoReplicationCompleted
  | PacketTypeInfoStartReplication
  | PacketTypeErrInit
  | PacketTypeErrInvalidSizes
  | PacketTypeErrHash
  | PacketTypeErrJournalCreate
  | PacketTypeErrJournalOverflow
  | PacketTypePayloadBufferWrite
  | PacketTypePayloadHash
  | PacketTypePayloadCorrectBlock
  | PacketTypePayloadReplicationBlock
  | PacketTypeOther u32

record ReplicationBlockInfo =
  rbOffset :: u64
  rbSize :: u32
  rbData :: bytes

record CorrectBlockInfo =
  cbOffset :: u64
  cbSize :: u32
  cbData :: bytes

definition CorrectBlockInfo_IsValid :: "CorrectBlockInfo \<Rightarrow> bool" where
  "CorrectBlockInfo_IsValid c \<longleftrightarrow> cbSize c \<noteq> 0"

record InitInfo =
  iiDeviceSize :: u64
  iiWriteInfoSize :: u32
  iiBufferByteSize :: u64

record WriteInfo =
  wiOffset :: u64
  wiSize :: u32
  wiData :: bytes

definition WriteInfo_IsValid :: "WriteInfo \<Rightarrow> bool" where
  "WriteInfo_IsValid w \<longleftrightarrow> wiSize w \<noteq> 0"

record HashInfo =
  hiOffset :: u64
  hiSize :: u32
  hiHash :: u64

datatype Payload =
    NoPayload
  | PWrite WriteInfo
  | PHash HashInfo
  | PInit InitInfo
  | PCorrect CorrectBlockInfo
  | PReplication ReplicationBlockInfo

record Packet =
  PacketTypeOf :: PacketType
  PayloadOf :: Payload

definition CreateInfoPacket :: "PacketType \<Rightarrow> Packet" where
  "CreateInfoPacket t = \<lparr>PacketTypeOf = t, PayloadOf = NoPayload\<rparr>"

end
