(* ===== verification/Go_Device.thy ===== *)
theory Go_Device
  imports BDR_Prelude
begin

text \<open>
  What the sources use of Go's \<^verbatim>\<open>os.File\<close> on a block device: \<^verbatim>\<open>ReadAt\<close>,
  \<^verbatim>\<open>WriteAt\<close>, \<^verbatim>\<open>Sync\<close> and opening.  A device is its bytes, whether its path can be
  opened, whether it is a block device, and the outcomes the operating system has in
  store for the next system calls: \<open>None\<close> for a call that succeeds, \<open>Some k\<close> for one
  that fails with an I/O error after \<open>k\<close> bytes have been transferred.  When the
  schedule is empty every call succeeds.  A failed write may thus be torn at any byte.
\<close>

record device =
  dev_bytes :: bytes
  dev_faults :: "nat option list"
  dev_present :: bool
  dev_block :: bool

definition next_fault :: "device \<Rightarrow> nat option \<times> device" where
  "next_fault d = (case dev_faults d of
     [] \<Rightarrow> (None, d)
   | f # fs \<Rightarrow> (f, d\<lparr>dev_faults := fs\<rparr>))"

definition put_bytes :: "nat \<Rightarrow> bytes \<Rightarrow> device \<Rightarrow> device" where
  "put_bytes off b d = d\<lparr>dev_bytes := overwrite off b (dev_bytes d)\<rparr>"

definition OpenFile :: "device \<Rightarrow> unit result" where
  "OpenFile d = (if dev_present d then Inr () else Inl ErrOpen)"

text \<open>
  \<^verbatim>\<open>WriteAt(b, int64(off))\<close>: an offset whose top bit is set is negative and refused; an
  empty buffer makes no system call; bytes beyond the end of the device are not written
  and the call reports that there is no space.
\<close>

definition WriteAt :: "bytes \<Rightarrow> u64 \<Rightarrow> device \<Rightarrow> unit result \<times> device" where
  "WriteAt b off d =
     (if sint off < 0 then (Inl ErrNegativeOffset, d)
      else if b = [] then (Inr (), d)
      else case next_fault d of
          (Some k, d1) \<Rightarrow> (Inl ErrEIO, put_bytes (unat off) (take k b) d1)
        | (None, d1) \<Rightarrow>
            (if unat off + length b \<le> length (dev_bytes d) then Inr () else Inl ErrENOSPC,
             put_bytes (unat off) b d1))"

text \<open>\<^verbatim>\<open>ReadAt\<close> into a buffer of \<open>n\<close> bytes: the bytes read and the error, if any.\<close>

definition ReadAt :: "nat \<Rightarrow> u64 \<Rightarrow> device \<Rightarrow> (bytes \<times> go_error option) \<times> device" where
  "ReadAt n off d =
     (if sint off < 0 then (([], Some ErrNegativeOffset), d)
      else if n = 0 then (([], None), d)
      else case next_fault d of
          (Some k, d1) \<Rightarrow> ((take k (bslice (unat off) n (dev_bytes d)), Some ErrEIO), d1)
        | (None, d1) \<Rightarrow>
            ((bslice (unat off) n (dev_bytes d),
              if unat off + n \<le> length (dev_bytes d) then None else Some ErrEOF), d1))"

definition Sync :: "device \<Rightarrow> unit result \<times> device" where
  "Sync d = (case next_fault d of
     (Some k, d1) \<Rightarrow> (Inl ErrEIO, d1)
   | (None, d1) \<Rightarrow> (Inr (), d1))"

text \<open>A device the operating system will not fail, as after a restart.\<close>

definition healthy :: "device \<Rightarrow> bool" where
  "healthy d \<longleftrightarrow> dev_faults d = []"

subsection \<open>What the calls do\<close>

lemma next_fault_bytes:
  "next_fault d = (f, d1) \<Longrightarrow> dev_bytes d1 = dev_bytes d \<and> dev_present d1 = dev_present d
     \<and> dev_block d1 = dev_block d"
  by (auto simp: next_fault_def split: list.splits)

lemma next_fault_healthy [simp]: "healthy d \<Longrightarrow> next_fault d = (None, d)"
  by (simp add: next_fault_def healthy_def)

lemma dev_bytes_put [simp]: "dev_bytes (put_bytes off b d) = overwrite off b (dev_bytes d)"
  by (simp add: put_bytes_def)

lemma put_bytes_frame [simp]:
  "dev_faults (put_bytes off b d) = dev_faults d"
  "dev_present (put_bytes off b d) = dev_present d"
  "dev_block (put_bytes off b d) = dev_block d"
  "healthy (put_bytes off b d) = healthy d"
  by (simp_all add: put_bytes_def healthy_def)

lemma ReadAt_bytes: "ReadAt n off d = (r, d1) \<Longrightarrow> dev_bytes d1 = dev_bytes d"
  by (auto simp: ReadAt_def split: if_splits prod.splits option.splits dest: next_fault_bytes)

lemma Sync_bytes: "Sync d = (r, d1) \<Longrightarrow> dev_bytes d1 = dev_bytes d"
  by (auto simp: Sync_def split: prod.splits option.splits dest: next_fault_bytes)

lemma sint_u64:
  assumes "unat (off :: u64) < 2 ^ 63"
  shows "sint off = int (unat off)"
proof -
  have "int (unat off) < int (2 ^ 63)" using assms by (simp only: of_nat_less_iff)
  then have "int (unat off) < 2 ^ 63" by simp
  then have "signed_take_bit 63 (int (unat off)) = int (unat off)"
    by (intro signed_take_bit_int_eq_self) (auto intro: order_trans [OF _ uint_ge_0])
  then show ?thesis by (simp add: sint_uint)
qed

lemma sint_u64_nonneg [simp]: "unat (off :: u64) < 2 ^ 63 \<Longrightarrow> \<not> sint off < 0"
  by (simp add: sint_u64)

lemma WriteAt_ok:
  assumes "healthy d" and "unat off + length b \<le> length (dev_bytes d)" and "length (dev_bytes d) < 2 ^ 63"
  shows "WriteAt b off d = (Inr (), put_bytes (unat off) b d)"
proof (cases "b = []")
  case True
  then show ?thesis using assms by (simp add: WriteAt_def put_bytes_def)
next
  case False
  then show ?thesis using assms by (simp add: WriteAt_def)
qed

lemma ReadAt_ok:
  assumes "healthy d" and "unat off + n \<le> length (dev_bytes d)" and "length (dev_bytes d) < 2 ^ 63"
  shows "ReadAt n off d = ((bslice (unat off) n (dev_bytes d), None), d)"
  using assms by (auto simp: ReadAt_def bslice_def)

lemma Sync_ok [simp]: "healthy d \<Longrightarrow> Sync d = (Inr (), d)"
  by (simp add: Sync_def)

text \<open>Whatever the schedule, a write leaves a prefix of its data on the device.\<close>

lemma WriteAt_torn:
  assumes "WriteAt b off d = (r, d1)"
  obtains k where "dev_bytes d1 = overwrite (unat off) (take k b) (dev_bytes d)"
proof -
  obtain f d' where f: "next_fault d = (f, d')" by fastforce
  show ?thesis
  proof (cases "sint off < 0 \<or> b = []")
    case True
    then show ?thesis using assms that [of 0] by (auto simp: WriteAt_def split: if_splits)
  next
    case False
    then show ?thesis using assms f that [of "length b"] that next_fault_bytes [OF f]
      by (auto simp: WriteAt_def split: option.splits)
  qed
qed

lemma WriteAt_done:
  assumes "WriteAt b off d = (Inr u, d1)"
  shows "dev_bytes d1 = overwrite (unat off) b (dev_bytes d)"
  using assms by (auto simp: WriteAt_def split: if_splits prod.splits option.splits dest: next_fault_bytes)

lemma ReadAt_cases:
  assumes "ReadAt n off d = ((b, e), d1)" and "unat off + n \<le> length (dev_bytes d)"
    and "length (dev_bytes d) < 2 ^ 63" and "0 < n"
  shows "dev_bytes d1 = dev_bytes d \<and> (e = None \<longrightarrow> b = bslice (unat off) n (dev_bytes d))"
  using assms by (auto simp: ReadAt_def split: prod.splits option.splits if_splits dest: next_fault_bytes)

end
