(* ===== verification/Utils.thy ===== *)
theory Utils
  imports Go_Device "HOL-Library.Sublist"
begin

text \<open>
  \<^verbatim>\<open>user/utils/utils.go\<close>: the helpers the daemons share.  \<open>Error\<close> is the message of an
  error as Go and the operating system word it, for the errors of a connection; the
  classification of a lost connection looks for substrings of it.
\<close>

definition Bit :: "nat \<Rightarrow> u32" where
  "Bit nr = push_bit nr 1"

fun Error :: "go_error \<Rightarrow> string" where
  "Error (ErrMsg s) = s"
| "Error ErrClosed = ''use of closed network connection''"
| "Error ErrConnReset = ''connection reset by peer''"
| "Error ErrBrokenPipe = ''broken pipe''"
| "Error ErrConnRefused = ''connection refused''"
| "Error ErrEOF = ''EOF''"
| "Error ErrTimeout = ''i/o timeout''"
| "Error e = ''error''"

definition IsConnectionClosed :: "go_error option \<Rightarrow> bool" where
  "IsConnectionClosed err = (case err of
     None \<Rightarrow> False
   | Some e \<Rightarrow>
       sublist ''connection reset by peer'' (Error e) \<or>
       sublist ''broken pipe'' (Error e) \<or>
       sublist ''connection refused'' (Error e) \<or>
       sublist ''use of closed network connection'' (Error e) \<or>
       e = ErrEOF)"

text \<open>
  A channel is its buffered values and whether it is closed; \<^verbatim>\<open>DrainChannel\<close> receives
  until the channel has nothing to offer and counts the values.
\<close>

fun DrainChannel :: "'a list \<Rightarrow> nat \<Rightarrow> nat \<times> 'a list" where
  "DrainChannel [] count = (count, [])"
| "DrainChannel (v # vs) count = DrainChannel vs (count + 1)"

definition GetDeviceSize :: "device \<Rightarrow> u64 result" where
  "GetDeviceSize d = (if \<not> dev_present d then Inl ErrOpen
     else if \<not> dev_block d then Inl ErrIoctl
     else Inr (of_nat (length (dev_bytes d))))"

text \<open>\<^verbatim>\<open>Stat\<close> needs the path to exist; the mode says whether it is a device.\<close>

definition IsDevice :: "device \<Rightarrow> bool result" where
  "IsDevice d = (if \<not> dev_present d then Inl ErrOpen else Inr (dev_block d))"

text \<open>
  \<^verbatim>\<open>PrintBitmap\<close>: the first \<open>maxBlocks\<close> bits of the bitmap, most significant bit of each
  byte first, with a space after every 64 bits that are not the last.
\<close>

definition bitmap_char :: "bytes \<Rightarrow> nat \<Rightarrow> char" where
  "bitmap_char bitmap i = (if bitmap ! (i div 8) AND push_bit (7 - i mod 8) 1 \<noteq> 0 then CHR ''1'' else CHR ''0'')"

definition PrintBitmap :: "bytes \<Rightarrow> nat \<Rightarrow> string" where
  "PrintBitmap bitmap maxBlocks =
     (let maxBlocks = (if maxBlocks = 0 \<or> maxBlocks > length bitmap * 8 then length bitmap * 8 else maxBlocks)
      in concat (map (\<lambda>i. bitmap_char bitmap i #
           (if (i + 1) mod 64 = 0 \<and> i + 1 < maxBlocks then '' '' else [])) [0..<maxBlocks]))"

lemma DrainChannel_all: "DrainChannel vs n = (n + length vs, [])"
  by (induction vs arbitrary: n) auto

lemma IsConnectionClosed_wrapped:
  assumes "IsConnectionClosed (Some e)" and "e \<noteq> ErrEOF"
  shows "IsConnectionClosed (Some (ErrMsg (msg @ Error e)))"
proof -
  have "sublist xs (Error e) \<Longrightarrow> sublist xs (msg @ Error e)" for xs
    unfolding sublist_def by (metis append_assoc)
  then show ?thesis using assms by (auto simp: IsConnectionClosed_def)
qed

end
