(* ===== verification/Journal.thy ===== *)
theory Journal
  imports Networking Go_Device Utils
begin

text \<open>
  \<^verbatim>\<open>user/journal/journal.go\<close>: the on-disk journal.  The device starts with a 64-byte
  header, followed by a section of fixed-size slots for buffered writes and a section of
  fixed-size slots for correct blocks.  A \<^verbatim>\<open>*Journal\<close> holds a handle on the device;
  here the record \<open>Journal\<close> holds the other fields and the device is an explicit
  argument and result of every operation, so that two handles on one device see each
  other's writes, as they do in the program.
\<close>

definition BdrMagic :: u64 where
  "BdrMagic = 0x4244525F52504C43"

definition JournalValidFlag :: u64 where
  "JournalValidFlag = push_bit 0 1"

record Header =
  magic :: u64
  bufWriteByteSize :: u64
  bufWritesCount :: u64
  bufWritesStartOffset :: u64
  corrBlockByteSize :: u64
  corrBlocksCount :: u64
  corrBlocksStartOffset :: u64
  flags :: u64

record Journal =
  diskSize :: u64
  WriteOffset :: u64
  CorrectOffset :: u64
  header :: Header

subsection \<open>The header\<close>

definition GetBufWriteSectionByteSize :: "Header \<Rightarrow> u64" where
  "GetBufWriteSectionByteSize h = bufWriteByteSize h * bufWritesCount h"

definition GetCorrBlockSectionByteSize :: "Header \<Rightarrow> u64" where
  "GetCorrBlockSectionByteSize h = corrBlockByteSize h * corrBlocksCount h"

definition setValidFlag :: "Header \<Rightarrow> Header" where
  "setValidFlag h = h\<lparr>flags := flags h OR JournalValidFlag\<rparr>"

definition setInvalidFlag :: "Header \<Rightarrow> Header" where
  "setInvalidFlag h = h\<lparr>flags := flags h AND NOT JournalValidFlag\<rparr>"

definition Header_IsValid :: "Header \<Rightarrow> bool" where
  "Header_IsValid h \<longleftrightarrow> flags h AND JournalValidFlag \<noteq> 0"

definition Journal_IsValid :: "Journal \<Rightarrow> bool" where
  "Journal_IsValid j = Header_IsValid (header j)"

text \<open>
  \<^verbatim>\<open>Equals\<close> on possibly nil journals; every \<^verbatim>\<open>Journal\<close> the package builds has a
  header, so only the journal itself can be nil.
\<close>

definition Journal_Equals :: "Journal \<Rightarrow> Journal option \<Rightarrow> bool" where
  "Journal_Equals j other = (case other of None \<Rightarrow> False
    | Some k \<Rightarrow>
        magic (header j) = magic (header k) \<and>
        bufWriteByteSize (header j) = bufWriteByteSize (header k) \<and>
        bufWritesCount (header j) = bufWritesCount (header k) \<and>
        bufWritesStartOffset (header j) = bufWritesStartOffset (header k) \<and>
        corrBlockByteSize (header j) = corrBlockByteSize (header k) \<and>
        corrBlocksCount (header j) = corrBlocksCount (header k) \<and>
        corrBlocksStartOffset (header j) = corrBlocksStartOffset (header k))"

text \<open>\<^verbatim>\<open>unsafe.Sizeof\<close> of eight \<^verbatim>\<open>uint64\<close> fields.\<close>

definition GetHeaderByteSize :: u64 where
  "GetHeaderByteSize = 64"

definition VerifyMagic :: "u64 \<Rightarrow> bool" where
  "VerifyMagic m \<longleftrightarrow> BdrMagic = m"

definition header_bytes :: "Header \<Rightarrow> bytes" where
  "header_bytes h =
     put_be 8 (magic h) @ put_be 8 (bufWriteByteSize h) @ put_be 8 (bufWritesCount h) @
     put_be 8 (bufWritesStartOffset h) @ put_be 8 (corrBlockByteSize h) @
     put_be 8 (corrBlocksCount h) @ put_be 8 (corrBlocksStartOffset h) @ put_be 8 (flags h)"

definition parse_header :: "bytes \<Rightarrow> Header" where
  "parse_header b = \<lparr>
     magic = get_be (bslice 0 8 b),
     bufWriteByteSize = get_be (bslice 8 8 b),
     bufWritesCount = get_be (bslice 16 8 b),
     bufWritesStartOffset = get_be (bslice 24 8 b),
     corrBlockByteSize = get_be (bslice 32 8 b),
     corrBlocksCount = get_be (bslice 40 8 b),
     corrBlocksStartOffset = get_be (bslice 48 8 b),
     flags = get_be (bslice 56 8 b)\<rparr>"

definition WriteHeader :: "Journal \<Rightarrow> device \<Rightarrow> unit result \<times> device" where
  "WriteHeader j d = (case WriteAt (header_bytes (header j)) 0 d of
     (Inl e, d1) \<Rightarrow> (Inl ErrIOFailure, d1)
   | (Inr u, d1) \<Rightarrow> (case Sync d1 of
        (Inl e, d2) \<Rightarrow> (Inl ErrIOFailure, d2)
      | (Inr u, d2) \<Rightarrow> (Inr (), d2)))"

definition ReadHeader :: "device \<Rightarrow> Header result \<times> device" where
  "ReadHeader d = (case ReadAt (unat GetHeaderByteSize) 0 d of
     ((b, Some e), d1) \<Rightarrow> (Inl ErrIOFailure, d1)
   | ((b, None), d1) \<Rightarrow> (Inr (parse_header b), d1))"

definition Invalidate :: "Journal \<Rightarrow> device \<Rightarrow> unit result \<times> Journal \<times> device" where
  "Invalidate j d =
     (let j1 = j\<lparr>header := setInvalidFlag (header j)\<rparr>; (r, d1) = WriteHeader j1 d
      in (r, j1, d1))"

definition Validate :: "Journal \<Rightarrow> device \<Rightarrow> unit result \<times> Journal \<times> device" where
  "Validate j d =
     (let j1 = j\<lparr>header := setValidFlag (header j)\<rparr>; (r, d1) = WriteHeader j1 d
      in (r, j1, d1))"

subsection \<open>Slots\<close>

text \<open>
  \<^verbatim>\<open>serializeCorrectBlockInfo\<close> and \<^verbatim>\<open>serializeWriteInfo\<close> are the same code on two struct
  types with the same fields; \<open>serialize_entry\<close> is that code.  The additions are those
  of \<^verbatim>\<open>uint32\<close> and wrap; a slice expression out of range panics.
\<close>

definition make_bytes :: "u64 \<Rightarrow> bytes" where
  "make_bytes n = replicate (unat n) 0"

definition serialize_entry :: "u64 \<Rightarrow> u32 \<Rightarrow> bytes \<Rightarrow> bytes \<Rightarrow> bytes result" where
  "serialize_entry off sz data buffer =
     (if length buffer < 12 then Inl Panic
      else let b = overwrite 8 (put_be 4 sz) (overwrite 0 (put_be 8 off) buffer) in
        if sz > 0 \<and> length data > 0
        then let dataSize = of_nat (length data) :: u32;
                 dataSize = (if dataSize > sz then sz else dataSize);
                 high = 12 + dataSize
             in if high < 12 \<or> unat high > length buffer then Inl Panic
                else Inr (overwrite 12 (take (unat dataSize) data) b)
        else Inr b)"

definition deserialize_entry :: "bytes \<Rightarrow> (u64 \<times> u32 \<times> bytes) result" where
  "deserialize_entry buffer =
     (if length buffer < 12 then Inl Panic
      else let off = get_be (bslice 0 8 buffer); sz = get_be (bslice 8 4 buffer) in
        if sz > 0
        then let high = 12 + sz
             in if high < 12 \<or> unat high > length buffer then Inl Panic
                else Inr (off, sz, bslice 12 (unat sz) buffer)
        else Inr (off, sz, []))"

definition serializeCorrectBlockInfo :: "CorrectBlockInfo \<Rightarrow> bytes \<Rightarrow> bytes result" where
  "serializeCorrectBlockInfo info buffer =
     serialize_entry (cbOffset info) (cbSize info) (cbData info) buffer"

definition deserializeCorrectBlockInfo :: "bytes \<Rightarrow> CorrectBlockInfo result" where
  "deserializeCorrectBlockInfo buffer = (case deserialize_entry buffer of
     Inl e \<Rightarrow> Inl e
   | Inr (off, sz, data) \<Rightarrow> Inr \<lparr>cbOffset = off, cbSize = sz, cbData = data\<rparr>)"

definition serializeWriteInfo :: "WriteInfo \<Rightarrow> bytes \<Rightarrow> bytes result" where
  "serializeWriteInfo info buffer =
     serialize_entry (wiOffset info) (wiSize info) (wiData info) buffer"

definition deserializeWriteInfo :: "bytes \<Rightarrow> WriteInfo result" where
  "deserializeWriteInfo buffer = (case deserialize_entry buffer of
     Inl e \<Rightarrow> Inl e
   | Inr (off, sz, data) \<Rightarrow> Inr \<lparr>wiOffset = off, wiSize = sz, wiData = data\<rparr>)"

definition GetInvalidCorrectBlock :: CorrectBlockInfo where
  "GetInvalidCorrectBlock = \<lparr>cbOffset = 0, cbSize = 0, cbData = []\<rparr>"

definition GetInvalidWrite :: WriteInfo where
  "GetInvalidWrite = \<lparr>wiOffset = 0, wiSize = 0, wiData = []\<rparr>"

text \<open>Writing and reading one slot, shared by the two sections.\<close>

definition slot_offset :: "u64 \<Rightarrow> u64 \<Rightarrow> u64 \<Rightarrow> u64" where
  "slot_offset start sz i = start + i * sz"

definition WriteCorrectBlock ::
    "Journal \<Rightarrow> u64 \<Rightarrow> CorrectBlockInfo \<Rightarrow> device \<Rightarrow> unit result \<times> device" where
  "WriteCorrectBlock j index block d =
     (let h = header j in
      if index \<ge> corrBlocksCount h then (Inl ErrInvalidSize, d)
      else case serializeCorrectBlockInfo block (make_bytes (corrBlockByteSize h)) of
          Inl e \<Rightarrow> (Inl e, d)
        | Inr blockData \<Rightarrow>
           (case WriteAt blockData
                  (slot_offset (corrBlocksStartOffset h) (corrBlockByteSize h) index) d of
              (Inl e, d1) \<Rightarrow> (Inl ErrIOFailure, d1)
            | (Inr u, d1) \<Rightarrow> Sync d1))"

definition ReadCorrectBlock ::
    "Journal \<Rightarrow> u64 \<Rightarrow> device \<Rightarrow> CorrectBlockInfo result \<times> device" where
  "ReadCorrectBlock j index d =
     (let h = header j in
      if index \<ge> corrBlocksCount h then (Inl ErrInvalidSize, d)
      else case ReadAt (unat (corrBlockByteSize h))
                  (slot_offset (corrBlocksStartOffset h) (corrBlockByteSize h) index) d of
          ((b, Some e), d1) \<Rightarrow> (Inl ErrIOFailure, d1)
        | ((b, None), d1) \<Rightarrow> (deserializeCorrectBlockInfo b, d1))"

definition WriteBufferWrite ::
    "Journal \<Rightarrow> u64 \<Rightarrow> WriteInfo \<Rightarrow> device \<Rightarrow> unit result \<times> device" where
  "WriteBufferWrite j index write d =
     (let h = header j in
      if index \<ge> bufWritesCount h then (Inl ErrInvalidSize, d)
      else case serializeWriteInfo write (make_bytes (bufWriteByteSize h)) of
          Inl e \<Rightarrow> (Inl e, d)
        | Inr writeData \<Rightarrow>
           (case WriteAt writeData
                  (slot_offset (bufWritesStartOffset h) (bufWriteByteSize h) index) d of
              (Inl e, d1) \<Rightarrow> (Inl ErrIOFailure, d1)
            | (Inr u, d1) \<Rightarrow> Sync d1))"

definition ReadBufferWrite ::
    "Journal \<Rightarrow> u64 \<Rightarrow> device \<Rightarrow> WriteInfo result \<times> device" where
  "ReadBufferWrite j index d =
     (let h = header j in
      if index \<ge> bufWritesCount h then (Inl ErrInvalidSize, d)
      else case ReadAt (unat (bufWriteByteSize h))
                  (slot_offset (bufWritesStartOffset h) (bufWriteByteSize h) index) d of
          ((b, Some e), d1) \<Rightarrow> (Inl ErrIOFailure, d1)
        | ((b, None), d1) \<Rightarrow> (deserializeWriteInfo b, d1))"

text \<open>
  The loops \<^verbatim>\<open>for i := uint64(0); i < n; i++\<close> recurse on the number of iterations left;
  the index stays a \<^verbatim>\<open>uint64\<close>.  \<open>find_free\<close> is the loop body the two
  \<^verbatim>\<open>FindFirstAvailable\<close> functions share, \<open>clear_slots\<close> that of the four
  \<^verbatim>\<open>Clear\<close> functions.
\<close>

fun find_free ::
    "(u64 \<Rightarrow> device \<Rightarrow> 'e result \<times> device) \<Rightarrow> ('e \<Rightarrow> bool) \<Rightarrow> go_error \<Rightarrow> nat \<Rightarrow> u64 \<Rightarrow> device
     \<Rightarrow> u64 result \<times> device" where
  "find_free rd vld err 0 i d = (Inl err, d)"
| "find_free rd vld err (Suc n) i d = (case rd i d of
     (Inl e, d1) \<Rightarrow> (Inl e, d1)
   | (Inr x, d1) \<Rightarrow> if \<not> vld x then (Inr i, d1) else find_free rd vld err n (i + 1) d1)"

definition FindFirstAvailableBufferWrite :: "Journal \<Rightarrow> device \<Rightarrow> u64 result \<times> device" where
  "FindFirstAvailableBufferWrite j d =
     find_free (ReadBufferWrite j) WriteInfo_IsValid ErrNoWriteSlots
       (unat (bufWritesCount (header j))) 0 d"

definition FindFirstAvailableCorrectBlock :: "Journal \<Rightarrow> device \<Rightarrow> u64 result \<times> device" where
  "FindFirstAvailableCorrectBlock j d =
     find_free (ReadCorrectBlock j) CorrectBlockInfo_IsValid ErrNoBlockSlots
       (unat (corrBlocksCount (header j))) 0 d"

fun clear_slots :: "nat \<Rightarrow> u64 \<Rightarrow> u64 \<Rightarrow> u64 \<Rightarrow> bytes \<Rightarrow> device \<Rightarrow> unit result \<times> device" where
  "clear_slots 0 i start sz data d = (Inr (), d)"
| "clear_slots (Suc n) i start sz data d = (case WriteAt data (slot_offset start sz i) d of
     (Inl e, d1) \<Rightarrow> (Inl ErrIOFailure, d1)
   | (Inr u, d1) \<Rightarrow> clear_slots n (i + 1) start sz data d1)"

definition ClearCorrectBlockSectionTo :: "Journal \<Rightarrow> u64 \<Rightarrow> device \<Rightarrow> unit result \<times> device" where
  "ClearCorrectBlockSectionTo j correctBlockOff d =
     (let h = header j in
      if correctBlockOff > corrBlocksCount h then (Inl ErrInvalidSize, d)
      else case serializeCorrectBlockInfo GetInvalidCorrectBlock (make_bytes (corrBlockByteSize h)) of
          Inl e \<Rightarrow> (Inl e, d)
        | Inr blockData \<Rightarrow> clear_slots (unat correctBlockOff) 0 (corrBlocksStartOffset h)
                             (corrBlockByteSize h) blockData d)"

definition ClearWriteSectionTo :: "Journal \<Rightarrow> u64 \<Rightarrow> device \<Rightarrow> unit result \<times> device" where
  "ClearWriteSectionTo j bufferWriteOff d =
     (let h = header j in
      if bufferWriteOff > bufWritesCount h then (Inl ErrInvalidSize, d)
      else case serializeWriteInfo GetInvalidWrite (make_bytes (bufWriteByteSize h)) of
          Inl e \<Rightarrow> (Inl e, d)
        | Inr writeData \<Rightarrow> clear_slots (unat bufferWriteOff) 0 (bufWritesStartOffset h)
                             (bufWriteByteSize h) writeData d)"

definition ClearCorrectBlockSection :: "Journal \<Rightarrow> device \<Rightarrow> unit result \<times> device" where
  "ClearCorrectBlockSection j d =
     (let h = header j in
      case serializeCorrectBlockInfo GetInvalidCorrectBlock (make_bytes (corrBlockByteSize h)) of
          Inl e \<Rightarrow> (Inl e, d)
        | Inr blockData \<Rightarrow> clear_slots (unat (corrBlocksCount h)) 0 (corrBlocksStartOffset h)
                             (corrBlockByteSize h) blockData d)"

definition ClearWriteSection :: "Journal \<Rightarrow> device \<Rightarrow> unit result \<times> device" where
  "ClearWriteSection j d =
     (let h = header j in
      case serializeWriteInfo GetInvalidWrite (make_bytes (bufWriteByteSize h)) of
          Inl e \<Rightarrow> (Inl e, d)
        | Inr writeData \<Rightarrow> clear_slots (unat (bufWritesCount h)) 0 (bufWritesStartOffset h)
                             (bufWriteByteSize h) writeData d)"

definition ResetTo :: "Journal \<Rightarrow> u64 \<Rightarrow> u64 \<Rightarrow> device \<Rightarrow> unit result \<times> Journal \<times> device" where
  "ResetTo j bufferWriteOff correctBlockOff d = (case Invalidate j d of
     (Inl e, j1, d1) \<Rightarrow> (Inl e, j1, d1)
   | (Inr u, j1, d1) \<Rightarrow> (case ClearWriteSectionTo j1 bufferWriteOff d1 of
        (Inl e, d2) \<Rightarrow> (Inl e, j1, d2)
      | (Inr u, d2) \<Rightarrow> (case ClearCorrectBlockSectionTo j1 correctBlockOff d2 of
           (Inl e, d3) \<Rightarrow> (Inl e, j1, d3)
         | (Inr u, d3) \<Rightarrow> (Inr (), j1\<lparr>WriteOffset := 0, CorrectOffset := 0\<rparr>, d3))))"

definition Reset :: "Journal \<Rightarrow> device \<Rightarrow> unit result \<times> Journal \<times> device" where
  "Reset j d = (case Invalidate j d of
     (Inl e, j1, d1) \<Rightarrow> (Inl e, j1, d1)
   | (Inr u, j1, d1) \<Rightarrow> (case ClearWriteSection j1 d1 of
        (Inl e, d2) \<Rightarrow> (Inl e, j1, d2)
      | (Inr u, d2) \<Rightarrow> (case ClearCorrectBlockSection j1 d2 of
           (Inl e, d3) \<Rightarrow> (Inl e, j1, d3)
         | (Inr u, d3) \<Rightarrow> (Inr (), j1\<lparr>WriteOffset := 0, CorrectOffset := 0\<rparr>, d3))))"

definition InitWithoutClearing :: "Journal \<Rightarrow> device \<Rightarrow> unit result \<times> Journal \<times> device" where
  "InitWithoutClearing j d = Invalidate j d"

definition Init :: "Journal \<Rightarrow> device \<Rightarrow> unit result \<times> Journal \<times> device" where
  "Init j d = (case ClearWriteSection j d of
     (Inl e, d1) \<Rightarrow> (Inl e, j, d1)
   | (Inr u, d1) \<Rightarrow> (case ClearCorrectBlockSection j d1 of
        (Inl e, d2) \<Rightarrow> (Inl e, j, d2)
      | (Inr u, d2) \<Rightarrow> Invalidate j d2))"

subsection \<open>Opening and creating\<close>

definition OpenJournal :: "device \<Rightarrow> Journal result \<times> device" where
  "OpenJournal d = (case OpenFile d of
     Inl e \<Rightarrow> (Inl e, d)
   | Inr u \<Rightarrow> (case ReadHeader d of
        (Inl e, d1) \<Rightarrow> (Inl e, d1)
      | (Inr h, d1) \<Rightarrow>
          if \<not> VerifyMagic (magic h) then (Inl ErrInvalidMagic, d1)
          else case GetDeviceSize d1 of
              Inl e \<Rightarrow> (Inl e, d1)
            | Inr sz \<Rightarrow>
               (let jrn = \<lparr>diskSize = sz, WriteOffset = 0, CorrectOffset = 0, header = h\<rparr> in
                case FindFirstAvailableBufferWrite jrn d1 of
                  (Inl e, d2) \<Rightarrow> (Inl e, d2)
                | (Inr firstWrite, d2) \<Rightarrow> (case FindFirstAvailableCorrectBlock jrn d2 of
                     (Inl e, d3) \<Rightarrow> (Inl e, d3)
                   | (Inr firstBlock, d3) \<Rightarrow>
                       (Inr (jrn\<lparr>WriteOffset := firstWrite, CorrectOffset := firstBlock\<rparr>), d3)))))"

definition ValidateJournal :: "device \<Rightarrow> Journal \<Rightarrow> (bool \<times> Journal) result \<times> device" where
  "ValidateJournal d j = (case OpenJournal d of
     (Inl e, d1) \<Rightarrow> (Inl e, d1)
   | (Inr readJournal, d1) \<Rightarrow> (Inr (Journal_Equals j (Some readJournal), readJournal), d1))"

definition NewJournal :: "device \<Rightarrow> u64 \<Rightarrow> u64 \<Rightarrow> u64 \<Rightarrow> Journal result" where
  "NewJournal d sectionBufWritesSize writeSize blockSize = (case OpenFile d of
     Inl e \<Rightarrow> Inl e
   | Inr u \<Rightarrow> (case GetDeviceSize d of
        Inl e \<Rightarrow> Inl e
      | Inr sz \<Rightarrow>
         (let headerSize = GetHeaderByteSize in
          if sectionBufWritesSize > sz - headerSize \<or> sectionBufWritesSize = 0
          then Inl ErrInvalidSize
          else if blockSize = 0 \<or> writeSize = 0 then Inl ErrInvalidSize
          else let sectionCorBlocksSize = sz - headerSize - sectionBufWritesSize;
                   h = \<lparr>magic = BdrMagic,
                        bufWriteByteSize = writeSize,
                        bufWritesCount = sectionBufWritesSize div writeSize,
                        bufWritesStartOffset = headerSize,
                        corrBlockByteSize = blockSize,
                        corrBlocksCount = sectionCorBlocksSize div blockSize,
                        corrBlocksStartOffset = headerSize + sectionBufWritesSize,
                        flags = 0\<rparr>
               in Inr \<lparr>diskSize = sz,
                       WriteOffset = sectionBufWritesSize div writeSize,
                       CorrectOffset = sectionCorBlocksSize div blockSize,
                       header = h\<rparr>)))"

subsection \<open>Entries and their bytes\<close>

lemma unat_slot_offset:
  assumes "unat start + n * unat sz \<le> len" and "len < 2 ^ 63" and "unat i < n"
  shows "unat (slot_offset start sz i) = unat start + unat i * unat sz"
proof -
  have le: "unat start + unat i * unat sz + unat sz \<le> len"
    using slot_end_le [OF assms(3), of "unat start" "unat sz"] assms(1) by linarith
  then have "unat i * unat sz < 2 ^ LENGTH(64)" using assms(2) by simp
  then have m: "unat (i * sz) = unat i * unat sz" by (simp only: unat_mult_lem)
  have "unat start + unat (i * sz) < 2 ^ LENGTH(64)" using le assms(2) m by simp
  then have "unat (start + i * sz) = unat start + unat (i * sz)" by (simp only: unat_add_lem)
  then show ?thesis by (simp add: slot_offset_def m)
qed

definition entry_fits :: "nat \<Rightarrow> u32 \<Rightarrow> bytes \<Rightarrow> bool" where
  "entry_fits slot sz data \<longleftrightarrow>
     unat sz \<le> length data \<and> length data < 2 ^ 32 \<and> 12 + unat sz \<le> slot \<and> 12 + unat sz < 2 ^ 32"

definition entry_bytes :: "nat \<Rightarrow> u64 \<Rightarrow> u32 \<Rightarrow> bytes \<Rightarrow> bytes" where
  "entry_bytes slot off sz data =
     put_be 8 off @ put_be 4 sz @ take (unat sz) data @ replicate (slot - 12 - unat sz) 0"

lemma unat_12_add: "12 + unat (sz::u32) < 2 ^ 32 \<Longrightarrow> unat (12 + sz) = 12 + unat sz"
  using unat_add_lem [of "12 :: u32" sz] by simp

lemma serialize_entry_fits:
  assumes "entry_fits n sz data"
  shows "serialize_entry off sz data (replicate n 0) = Inr (entry_bytes n off sz data)"
proof -
  from assms have fit: "unat sz \<le> length data" "length data < 2 ^ 32" "12 + unat sz \<le> n"
    "12 + unat sz < 2 ^ 32" by (auto simp: entry_fits_def)
  have hdr: "overwrite 8 (put_be 4 sz) (overwrite 0 (put_be 8 off) (replicate n 0))
      = put_be 8 off @ put_be 4 sz @ replicate (n - 12) (0::u8)"
    using fit(3) overwrite_append [of 0 "[]" "put_be 8 off" "replicate n 0"]
      overwrite_append [of 8 "put_be 8 off" "put_be 4 sz" "replicate (n - 8) 0"] by simp
  show ?thesis
  proof (cases "sz = 0")
    case True
    then show ?thesis using hdr fit(3) by (simp add: serialize_entry_def entry_bytes_def)
  next
    case False
    then have pos: "sz > 0" "data \<noteq> []" using fit(1) by (auto simp: word_gt_0 unat_eq_0)
    have u: "unat (of_nat (length data) :: u32) = length data"
      using fit(2) by (simp add: unat_of_nat)
    have ds: "(if of_nat (length data) > sz then sz else of_nat (length data)) = sz"
      using fit(1) u by (auto simp: word_less_nat_alt word_unat_eq_iff)
    have "overwrite 12 (take (unat sz) data) (put_be 8 off @ put_be 4 sz @ replicate (n - 12) 0)
        = entry_bytes n off sz data"
      using fit overwrite_append [of 12 "put_be 8 off @ put_be 4 sz" "take (unat sz) data" "replicate (n - 12) 0"]
      by (simp add: entry_bytes_def)
    then show ?thesis
      using pos fit unat_12_add [OF fit(4)]
      unfolding serialize_entry_def Let_def ds hdr by (simp add: word_less_nat_alt)
  qed
qed

lemma length_entry_bytes [simp]: "entry_fits n sz data \<Longrightarrow> length (entry_bytes n off sz data) = n"
  by (auto simp: entry_fits_def entry_bytes_def)

lemma deserialize_entry_bytes:
  assumes "entry_fits n sz data"
  shows "deserialize_entry (entry_bytes n off sz data) = Inr (off, sz, take (unat sz) data)"
proof -
  from assms have fit: "unat sz \<le> length data" "12 + unat sz \<le> n" "12 + unat sz < 2 ^ 32"
    by (auto simp: entry_fits_def)
  let ?b = "entry_bytes n off sz data"
  have "bslice 0 8 ?b = put_be 8 off"
    by (simp add: entry_bytes_def bslice_append_left)
  moreover have "bslice 8 4 ?b = put_be 4 sz"
    by (simp add: entry_bytes_def bslice_append_right bslice_append_left)
  moreover have "bslice 12 (unat sz) ?b = take (unat sz) data"
    using fit(1) by (simp add: entry_bytes_def bslice_append_right bslice_append_left)
  moreover have "length ?b = n" using assms by simp
  ultimately show ?thesis using fit unat_12_add [OF fit(3)]
    by (auto simp: deserialize_entry_def Let_def word_less_nat_alt word_gt_0 unat_eq_zero)
qed

subsection \<open>The layout and the slots\<close>

definition layout_ok :: "Header \<Rightarrow> nat \<Rightarrow> bool" where
  "layout_ok h len \<longleftrightarrow>
     12 \<le> unat (bufWriteByteSize h) \<and> 12 \<le> unat (corrBlockByteSize h) \<and>
     64 \<le> unat (bufWritesStartOffset h) \<and>
     unat (bufWritesStartOffset h) + unat (bufWritesCount h) * unat (bufWriteByteSize h)
       \<le> unat (corrBlocksStartOffset h) \<and>
     unat (corrBlocksStartOffset h) + unat (corrBlocksCount h) * unat (corrBlockByteSize h)
       \<le> len \<and> len < 2 ^ 63"

definition wpos :: "Header \<Rightarrow> nat \<Rightarrow> nat" where
  "wpos h i = unat (bufWritesStartOffset h) + i * unat (bufWriteByteSize h)"

definition cpos :: "Header \<Rightarrow> nat \<Rightarrow> nat" where
  "cpos h i = unat (corrBlocksStartOffset h) + i * unat (corrBlockByteSize h)"

definition wslot :: "Header \<Rightarrow> bytes \<Rightarrow> nat \<Rightarrow> WriteInfo result" where
  "wslot h b i = deserializeWriteInfo (bslice (wpos h i) (unat (bufWriteByteSize h)) b)"

definition cslot :: "Header \<Rightarrow> bytes \<Rightarrow> nat \<Rightarrow> CorrectBlockInfo result" where
  "cslot h b i = deserializeCorrectBlockInfo (bslice (cpos h i) (unat (corrBlockByteSize h)) b)"

lemma wpos_bounds:
  assumes "layout_ok h len" and "i < unat (bufWritesCount h)"
  shows "64 \<le> wpos h i" and "wpos h i + unat (bufWriteByteSize h) \<le> unat (corrBlocksStartOffset h)"
    and "wpos h i + unat (bufWriteByteSize h) \<le> len"
proof -
  show "64 \<le> wpos h i" using assms by (auto simp: layout_ok_def wpos_def)
  show le: "wpos h i + unat (bufWriteByteSize h) \<le> unat (corrBlocksStartOffset h)"
    using slot_end_le [OF assms(2), of "unat (bufWritesStartOffset h)" "unat (bufWriteByteSize h)"] assms(1)
    by (simp add: layout_ok_def wpos_def)
  have "unat (corrBlocksStartOffset h) \<le> len" using assms(1) by (simp add: layout_ok_def)
  with le show "wpos h i + unat (bufWriteByteSize h) \<le> len" by simp
qed

lemma cpos_bounds:
  assumes "layout_ok h len" and "i < unat (corrBlocksCount h)"
  shows "64 \<le> cpos h i" and "unat (corrBlocksStartOffset h) \<le> cpos h i"
    and "cpos h i + unat (corrBlockByteSize h) \<le> len"
proof -
  show "64 \<le> cpos h i" using assms(1) by (simp add: layout_ok_def cpos_def)
  show "unat (corrBlocksStartOffset h) \<le> cpos h i" by (simp add: cpos_def)
  show "cpos h i + unat (corrBlockByteSize h) \<le> len"
    using slot_end_le [OF assms(2), of "unat (corrBlocksStartOffset h)" "unat (corrBlockByteSize h)"] assms(1)
    by (simp add: layout_ok_def cpos_def)
qed

lemma unat_woffset:
  assumes "layout_ok h len" and "unat i < unat (bufWritesCount h)"
  shows "unat (slot_offset (bufWritesStartOffset h) (bufWriteByteSize h) i) = wpos h (unat i)"
  unfolding wpos_def
  by (rule unat_slot_offset [OF _ _ assms(2), of _ _ len]) (use assms(1) in \<open>auto simp: layout_ok_def\<close>)

lemma unat_coffset:
  assumes "layout_ok h len" and "unat i < unat (corrBlocksCount h)"
  shows "unat (slot_offset (corrBlocksStartOffset h) (corrBlockByteSize h) i) = cpos h (unat i)"
  unfolding cpos_def
  by (rule unat_slot_offset [OF _ _ assms(2), of _ _ len]) (use assms(1) in \<open>auto simp: layout_ok_def\<close>)

text \<open>Reading a slot under any schedule: the bytes stay, and the result is the slot or an I/O error.\<close>

lemma ReadBufferWrite_any:
  assumes "layout_ok (header j) (length (dev_bytes d))" and "unat i < unat (bufWritesCount (header j))"
    and "ReadBufferWrite j i d = (r, d1)"
  shows "dev_bytes d1 = dev_bytes d \<and> (r = Inl ErrIOFailure \<or> r = wslot (header j) (dev_bytes d) (unat i))"
proof -
  let ?h = "header j"
  have len: "length (dev_bytes d) < 2 ^ 63" "0 < unat (bufWriteByteSize ?h)"
    using assms(1) by (auto simp: layout_ok_def)
  obtain b e d' where rd: "ReadAt (unat (bufWriteByteSize ?h))
      (slot_offset (bufWritesStartOffset ?h) (bufWriteByteSize ?h) i) d = ((b, e), d')"
    by (metis prod.exhaust)
  from ReadAt_cases [OF rd _ len] wpos_bounds(3) [OF assms(1,2)]
  have "dev_bytes d' = dev_bytes d \<and>
      (e = None \<longrightarrow> b = bslice (wpos ?h (unat i)) (unat (bufWriteByteSize ?h)) (dev_bytes d))"
    by (simp add: unat_woffset [OF assms(1,2)])
  then show ?thesis using assms(2,3) rd
    by (auto simp: ReadBufferWrite_def Let_def wslot_def word_le_nat_alt split: option.splits)
qed

lemma ReadCorrectBlock_any:
  assumes "layout_ok (header j) (length (dev_bytes d))" and "unat i < unat (corrBlocksCount (header j))"
    and "ReadCorrectBlock j i d = (r, d1)"
  shows "dev_bytes d1 = dev_bytes d \<and> (r = Inl ErrIOFailure \<or> r = cslot (header j) (dev_bytes d) (unat i))"
proof -
  let ?h = "header j"
  have len: "length (dev_bytes d) < 2 ^ 63" "0 < unat (corrBlockByteSize ?h)"
    using assms(1) by (auto simp: layout_ok_def)
  obtain b e d' where rd: "ReadAt (unat (corrBlockByteSize ?h))
      (slot_offset (corrBlocksStartOffset ?h) (corrBlockByteSize ?h) i) d = ((b, e), d')"
    by (metis prod.exhaust)
  from ReadAt_cases [OF rd _ len] cpos_bounds(3) [OF assms(1,2)]
  have "dev_bytes d' = dev_bytes d \<and>
      (e = None \<longrightarrow> b = bslice (cpos ?h (unat i)) (unat (corrBlockByteSize ?h)) (dev_bytes d))"
    by (simp add: unat_coffset [OF assms(1,2)])
  then show ?thesis using assms(2,3) rd
    by (auto simp: ReadCorrectBlock_def Let_def cslot_def word_le_nat_alt split: option.splits)
qed

lemma ReadBufferWrite_healthy:
  assumes "healthy d" and "layout_ok (header j) (length (dev_bytes d))"
    and "unat i < unat (bufWritesCount (header j))"
  shows "ReadBufferWrite j i d = (wslot (header j) (dev_bytes d) (unat i), d)"
proof -
  let ?h = "header j"
  have "ReadAt (unat (bufWriteByteSize ?h)) (slot_offset (bufWritesStartOffset ?h) (bufWriteByteSize ?h) i) d
      = ((bslice (wpos ?h (unat i)) (unat (bufWriteByteSize ?h)) (dev_bytes d), None), d)"
    using ReadAt_ok [OF assms(1)] wpos_bounds(3) [OF assms(2,3)] assms(2)
    by (simp add: unat_woffset [OF assms(2,3)] layout_ok_def)
  then show ?thesis using assms(3)
    by (simp add: ReadBufferWrite_def Let_def wslot_def word_le_nat_alt)
qed

lemma ReadCorrectBlock_healthy:
  assumes "healthy d" and "layout_ok (header j) (length (dev_bytes d))"
    and "unat i < unat (corrBlocksCount (header j))"
  shows "ReadCorrectBlock j i d = (cslot (header j) (dev_bytes d) (unat i), d)"
proof -
  let ?h = "header j"
  have "ReadAt (unat (corrBlockByteSize ?h)) (slot_offset (corrBlocksStartOffset ?h) (corrBlockByteSize ?h) i) d
      = ((bslice (cpos ?h (unat i)) (unat (corrBlockByteSize ?h)) (dev_bytes d), None), d)"
    using ReadAt_ok [OF assms(1)] cpos_bounds(3) [OF assms(2,3)] assms(2)
    by (simp add: unat_coffset [OF assms(2,3)] layout_ok_def)
  then show ?thesis using assms(3)
    by (simp add: ReadCorrectBlock_def Let_def cslot_def word_le_nat_alt)
qed

definition write_fits :: "Header \<Rightarrow> WriteInfo \<Rightarrow> bool" where
  "write_fits h w = entry_fits (unat (bufWriteByteSize h)) (wiSize w) (wiData w)"

definition block_fits :: "Header \<Rightarrow> CorrectBlockInfo \<Rightarrow> bool" where
  "block_fits h c = entry_fits (unat (corrBlockByteSize h)) (cbSize c) (cbData c)"

definition stored_write :: "WriteInfo \<Rightarrow> WriteInfo" where
  "stored_write w = w\<lparr>wiData := take (unat (wiSize w)) (wiData w)\<rparr>"

definition stored_block :: "CorrectBlockInfo \<Rightarrow> CorrectBlockInfo" where
  "stored_block c = c\<lparr>cbData := take (unat (cbSize c)) (cbData c)\<rparr>"

definition write_bytes :: "Header \<Rightarrow> WriteInfo \<Rightarrow> bytes" where
  "write_bytes h w = entry_bytes (unat (bufWriteByteSize h)) (wiOffset w) (wiSize w) (wiData w)"

definition block_bytes :: "Header \<Rightarrow> CorrectBlockInfo \<Rightarrow> bytes" where
  "block_bytes h c = entry_bytes (unat (corrBlockByteSize h)) (cbOffset c) (cbSize c) (cbData c)"

lemma length_write_bytes [simp]: "write_fits h w \<Longrightarrow> length (write_bytes h w) = unat (bufWriteByteSize h)"
  by (simp add: write_fits_def write_bytes_def)

lemma length_block_bytes [simp]: "block_fits h c \<Longrightarrow> length (block_bytes h c) = unat (corrBlockByteSize h)"
  by (simp add: block_fits_def block_bytes_def)

lemma serializeWriteInfo_fits:
  "write_fits h w \<Longrightarrow> serializeWriteInfo w (make_bytes (bufWriteByteSize h)) = Inr (write_bytes h w)"
  by (simp add: write_fits_def write_bytes_def serializeWriteInfo_def make_bytes_def serialize_entry_fits)

lemma serializeCorrectBlockInfo_fits:
  "block_fits h c \<Longrightarrow>
   serializeCorrectBlockInfo c (make_bytes (corrBlockByteSize h)) = Inr (block_bytes h c)"
  by (simp add: block_fits_def block_bytes_def serializeCorrectBlockInfo_def make_bytes_def
      serialize_entry_fits)

lemma deserialize_write_bytes: "write_fits h w \<Longrightarrow> deserializeWriteInfo (write_bytes h w) = Inr (stored_write w)"
  by (simp add: write_fits_def write_bytes_def deserializeWriteInfo_def deserialize_entry_bytes stored_write_def)

lemma deserialize_block_bytes:
  "block_fits h c \<Longrightarrow> deserializeCorrectBlockInfo (block_bytes h c) = Inr (stored_block c)"
  by (simp add: block_fits_def block_bytes_def deserializeCorrectBlockInfo_def deserialize_entry_bytes
      stored_block_def)

text \<open>Overwriting one slot: what each slot of either section then holds.\<close>

lemma wslot_put_same:
  assumes "layout_ok h (length b)" and "i < unat (bufWritesCount h)" and "write_fits h w"
  shows "wslot h (overwrite (wpos h i) (write_bytes h w) b) i = Inr (stored_write w)"
proof -
  have "bslice (wpos h i) (unat (bufWriteByteSize h)) (overwrite (wpos h i) (write_bytes h w) b) = write_bytes h w"
    using bslice_overwrite_same [of "wpos h i" "write_bytes h w" b] wpos_bounds(3) [OF assms(1,2)] assms(3)
    by simp
  then show ?thesis by (simp add: wslot_def deserialize_write_bytes assms(3))
qed

lemma cslot_put_same:
  assumes "layout_ok h (length b)" and "i < unat (corrBlocksCount h)" and "block_fits h c"
  shows "cslot h (overwrite (cpos h i) (block_bytes h c) b) i = Inr (stored_block c)"
proof -
  have "bslice (cpos h i) (unat (corrBlockByteSize h)) (overwrite (cpos h i) (block_bytes h c) b) = block_bytes h c"
    using bslice_overwrite_same [of "cpos h i" "block_bytes h c" b] cpos_bounds(3) [OF assms(1,2)] assms(3)
    by simp
  then show ?thesis by (simp add: cslot_def deserialize_block_bytes assms(3))
qed

lemma wslot_put_other:
  assumes "k \<noteq> i" and "length x = unat (bufWriteByteSize h)"
  shows "wslot h (overwrite (wpos h i) x b) k = wslot h b k"
  using slots_apart [OF assms(1)] assms(2)
  by (simp add: wslot_def wpos_def bslice_overwrite_other)

lemma cslot_put_other:
  assumes "k \<noteq> i" and "length x = unat (corrBlockByteSize h)"
  shows "cslot h (overwrite (cpos h i) x b) k = cslot h b k"
  using slots_apart [OF assms(1)] assms(2)
  by (simp add: cslot_def cpos_def bslice_overwrite_other)

lemma wslot_put_block:
  assumes "layout_ok h (length b)" and "i < unat (corrBlocksCount h)" and "k < unat (bufWritesCount h)"
  shows "wslot h (overwrite (cpos h i) x b) k = wslot h b k"
  using wpos_bounds(2) [OF assms(1,3)] cpos_bounds(2) [OF assms(1,2)]
  by (simp add: wslot_def bslice_overwrite_other)

lemma cslot_put_write:
  assumes "layout_ok h (length b)" and "i < unat (bufWritesCount h)" and "k < unat (corrBlocksCount h)"
    and "length x = unat (bufWriteByteSize h)"
  shows "cslot h (overwrite (wpos h i) x b) k = cslot h b k"
  using wpos_bounds(2) [OF assms(1,2)] cpos_bounds(2) [OF assms(1,3)] assms(4)
  by (simp add: cslot_def bslice_overwrite_other)

lemma slots_put_header:
  assumes "layout_ok h (length b)" and "length x = 64"
  shows "k < unat (bufWritesCount h) \<Longrightarrow> wslot h (overwrite 0 x b) k = wslot h b k"
    and "k < unat (corrBlocksCount h) \<Longrightarrow> cslot h (overwrite 0 x b) k = cslot h b k"
  using wpos_bounds(1) [OF assms(1), of k] cpos_bounds(1) [OF assms(1), of k] assms(2)
  by (simp_all add: wslot_def cslot_def bslice_overwrite_other)

lemma header_put_slot: "64 \<le> p \<Longrightarrow> bslice 0 64 (overwrite p x b) = bslice 0 64 b"
  by (simp add: bslice_overwrite_other)

lemma length_header_bytes [simp]: "length (header_bytes h) = 64"
  by (simp add: header_bytes_def)

lemma parse_header_bytes [simp]: "parse_header (header_bytes h) = h"
  by (simp add: parse_header_def header_bytes_def bslice_append_right bslice_append_left
      bslice_all)

lemma WriteBufferWrite_healthy:
  assumes "healthy d" and "layout_ok (header j) (length (dev_bytes d))"
    and "unat i < unat (bufWritesCount (header j))" and "write_fits (header j) w"
  shows "WriteBufferWrite j i w d
       = (Inr (), put_bytes (wpos (header j) (unat i)) (write_bytes (header j) w) d)"
proof -
  let ?h = "header j"
  have "WriteAt (write_bytes ?h w) (slot_offset (bufWritesStartOffset ?h) (bufWriteByteSize ?h) i) d
      = (Inr (), put_bytes (wpos ?h (unat i)) (write_bytes ?h w) d)"
    using WriteAt_ok [OF assms(1)] wpos_bounds(3) [OF assms(2,3)] assms(2,4)
    by (simp add: unat_woffset [OF assms(2,3)] layout_ok_def)
  then show ?thesis using assms
    by (simp add: WriteBufferWrite_def Let_def serializeWriteInfo_fits word_le_nat_alt)
qed

lemma WriteCorrectBlock_healthy:
  assumes "healthy d" and "layout_ok (header j) (length (dev_bytes d))"
    and "unat i < unat (corrBlocksCount (header j))" and "block_fits (header j) c"
  shows "WriteCorrectBlock j i c d
       = (Inr (), put_bytes (cpos (header j) (unat i)) (block_bytes (header j) c) d)"
proof -
  let ?h = "header j"
  have "WriteAt (block_bytes ?h c) (slot_offset (corrBlocksStartOffset ?h) (corrBlockByteSize ?h) i) d
      = (Inr (), put_bytes (cpos ?h (unat i)) (block_bytes ?h c) d)"
    using WriteAt_ok [OF assms(1)] cpos_bounds(3) [OF assms(2,3)] assms(2,4)
    by (simp add: unat_coffset [OF assms(2,3)] layout_ok_def)
  then show ?thesis using assms
    by (simp add: WriteCorrectBlock_def Let_def serializeCorrectBlockInfo_fits word_le_nat_alt)
qed

lemma WriteHeader_healthy:
  assumes "healthy d" and "64 \<le> length (dev_bytes d)" and "length (dev_bytes d) < 2 ^ 63"
  shows "WriteHeader j d = (Inr (), put_bytes 0 (header_bytes (header j)) d)"
  using WriteAt_ok [OF assms(1) _ assms(3), of 0 "header_bytes (header j)"] assms(1,2)
  by (simp add: WriteHeader_def)

lemma ReadHeader_healthy:
  assumes "healthy d" and "64 \<le> length (dev_bytes d)" and "length (dev_bytes d) < 2 ^ 63"
  shows "ReadHeader d = (Inr (parse_header (bslice 0 64 (dev_bytes d))), d)"
  using ReadAt_ok [OF assms(1) _ assms(3), of 0 64] assms(2)
  by (simp add: ReadHeader_def GetHeaderByteSize_def)

end
