(* ===== verification/Journal_Log.thy ===== *)
theory Journal_Log
  imports Journal
begin

text \<open>
  The journal as two append-only logs.  The locale \<open>slot_section\<close> is the contract of
  one section of slots, as the server relies on it: reading a slot, writing a slot, and
  the refusal of an index past the last slot.  The client lemmas (appending to the log,
  finding the first free slot) are proved once in it and hold for the section of buffered
  writes and for the section of correct blocks by interpretation on the functions of
  \<^verbatim>\<open>journal.go\<close>.
\<close>

definition log_entries :: "(nat \<Rightarrow> 'm \<Rightarrow> 'e) \<Rightarrow> nat \<Rightarrow> 'm \<Rightarrow> 'e list" where
  "log_entries get k m = map (\<lambda>i. get i m) [0..<k]"

lemma log_entries_Suc: "log_entries get (Suc k) m = log_entries get k m @ [get k m]"
  by (simp add: log_entries_def)

lemma length_log_entries [simp]: "length (log_entries get k m) = k"
  by (simp add: log_entries_def)

lemma nth_log_entries [simp]: "i < k \<Longrightarrow> log_entries get k m ! i = get i m"
  by (simp add: log_entries_def)

lemma log_entries_cong: "(\<And>i. i < k \<Longrightarrow> get i m = get i m') \<Longrightarrow> log_entries get k m = log_entries get k m'"
  by (simp add: log_entries_def)

locale slot_section =
  fixes rd :: "u64 \<Rightarrow> device \<Rightarrow> 'e result \<times> device"
    and wr :: "u64 \<Rightarrow> 'e \<Rightarrow> device \<Rightarrow> unit result \<times> device"
    and get :: "nat \<Rightarrow> device \<Rightarrow> 'e result"
    and cap :: nat
    and ok :: "'e \<Rightarrow> bool"
    and stored :: "'e \<Rightarrow> 'e"
    and inv :: "device \<Rightarrow> bool"
  assumes rd_get: "inv d \<Longrightarrow> unat i < cap \<Longrightarrow> rd i d = (get (unat i) d, d)"
    and rd_beyond: "cap \<le> unat i \<Longrightarrow> rd i d = (Inl ErrInvalidSize, d)"
    and wr_succeeds: "inv d \<Longrightarrow> unat i < cap \<Longrightarrow> ok e \<Longrightarrow> fst (wr i e d) = Inr ()"
    and wr_inv: "inv d \<Longrightarrow> unat i < cap \<Longrightarrow> ok e \<Longrightarrow> inv (snd (wr i e d))"
    and wr_same: "inv d \<Longrightarrow> unat i < cap \<Longrightarrow> ok e \<Longrightarrow> get (unat i) (snd (wr i e d)) = Inr (stored e)"
    and wr_other: "inv d \<Longrightarrow> unat i < cap \<Longrightarrow> ok e \<Longrightarrow> k < cap \<Longrightarrow> k \<noteq> unat i \<Longrightarrow>
        get k (snd (wr i e d)) = get k d"
    and wr_beyond: "cap \<le> unat i \<Longrightarrow> wr i e d = (Inl ErrInvalidSize, d)"
    and cap_u64: "cap < 2 ^ 64"
begin

lemma rd_after_wr:
  assumes "inv d" and "unat i < cap" and "ok e"
  shows "fst (rd i (snd (wr i e d))) = Inr (stored e)"
  using assms by (simp add: rd_get wr_inv wr_same)

lemma rd_other_after_wr:
  assumes "inv d" and "unat i < cap" and "ok e" and "k \<noteq> i"
  shows "fst (rd k (snd (wr i e d))) = fst (rd k d)"
proof (cases "unat k < cap")
  case True
  moreover have "unat k \<noteq> unat i" using assms(4) by (simp add: word_unat_eq_iff)
  ultimately show ?thesis using assms by (simp add: rd_get wr_inv wr_other)
next
  case False
  then show ?thesis by (simp add: rd_beyond)
qed

lemma append_log:
  assumes "inv d" and "unat off < cap" and "ok e"
  shows "log_entries get (unat (off + 1)) (snd (wr off e d))
       = log_entries get (unat off) d @ [Inr (stored e)]"
proof -
  have "unat off + 1 < 2 ^ 64" using assms(2) cap_u64 by linarith
  then have "unat (off + 1) = Suc (unat off)" using unat_add_lem [of off 1] by simp
  moreover have "log_entries get (unat off) (snd (wr off e d)) = log_entries get (unat off) d"
    using assms by (intro log_entries_cong wr_other) auto
  ultimately show ?thesis using assms by (simp add: log_entries_Suc wr_same)
qed

lemma find_free_first:
  assumes "inv d" and "m < n" and "unat i + n \<le> cap"
    and "\<And>k. k < m \<Longrightarrow> \<exists>e. get (unat i + k) d = Inr e \<and> vld e"
    and "\<exists>e. get (unat i + m) d = Inr e \<and> \<not> vld e"
  shows "find_free rd vld err n i d = (Inr (i + of_nat m), d)"
  using assms(2-5)
proof (induction m arbitrary: n i)
  case 0
  then obtain n' where n: "n = Suc n'" by (cases n) auto
  with 0 show ?case by (auto simp: rd_get assms(1))
next
  case (Suc m)
  then obtain n' where n: "n = Suc n'" by (cases n) auto
  from Suc.prems(3) [of 0] obtain e where e: "get (unat i) d = Inr e" "vld e" by auto
  have "unat i + 1 < 2 ^ 64" using Suc.prems(1,2) n cap_u64 by linarith
  then have ui: "unat (i + 1) = Suc (unat i)" using unat_add_lem [of i 1] by simp
  have "find_free rd vld err n' (i + 1) d = (Inr (i + 1 + of_nat m), d)"
  proof (rule Suc.IH)
    show "\<exists>e. get (unat (i + 1) + k) d = Inr e \<and> vld e" if "k < m" for k
      using Suc.prems(3) [of "Suc k"] that by (simp add: ui)
    show "\<exists>e. get (unat (i + 1) + m) d = Inr e \<and> \<not> vld e"
      using Suc.prems(4) by (simp add: ui)
  qed (use Suc.prems n ui in auto)
  then show ?case using Suc.prems(2) n e by (simp add: rd_get assms(1) algebra_simps)
qed

lemma find_free_none:
  assumes "inv d" and "unat i + n \<le> cap"
    and "\<And>k. k < n \<Longrightarrow> \<exists>e. get (unat i + k) d = Inr e \<and> vld e"
  shows "find_free rd vld err n i d = (Inl err, d)"
  using assms(2,3)
proof (induction n arbitrary: i)
  case 0
  then show ?case by simp
next
  case (Suc n)
  from Suc.prems(2) [of 0] obtain e where e: "get (unat i) d = Inr e" "vld e" by auto
  show ?case
  proof (cases n)
    case 0
    then show ?thesis using Suc.prems(1) e by (simp add: rd_get assms(1))
  next
    case (Suc n')
    have "unat i + 1 < 2 ^ 64" using Suc.prems(1) Suc cap_u64 by linarith
    then have ui: "unat (i + 1) = Suc (unat i)" using unat_add_lem [of i 1] by simp
    have "find_free rd vld err n (i + 1) d = (Inl err, d)"
    proof (rule Suc.IH)
      show "\<exists>e. get (unat (i + 1) + k) d = Inr e \<and> vld e" if "k < n" for k
        using Suc.prems(2) [of "Suc k"] that by (simp add: ui)
    qed (use Suc.prems(1) ui in simp)
    then show ?thesis using Suc.prems(1) e by (simp add: rd_get assms(1))
  qed
qed

end

subsection \<open>The two sections satisfy the contract\<close>

definition journal_ready :: "Journal \<Rightarrow> device \<Rightarrow> bool" where
  "journal_ready j d \<longleftrightarrow> healthy d \<and> layout_ok (header j) (length (dev_bytes d))"

interpretation ws: slot_section "ReadBufferWrite j" "WriteBufferWrite j"
    "\<lambda>i d. wslot (header j) (dev_bytes d) i" "unat (bufWritesCount (header j))"
    "write_fits (header j)" stored_write "journal_ready j" for j
proof unfold_locales
  fix d i k e
  show "unat (bufWritesCount (header j)) < 2 ^ 64"
    using unsigned_less [of "bufWritesCount (header j)", where ?'a = nat] by simp
  show "unat (bufWritesCount (header j)) \<le> unat i \<Longrightarrow> ReadBufferWrite j i d = (Inl ErrInvalidSize, d)"
    by (simp add: ReadBufferWrite_def word_le_nat_alt)
  show "unat (bufWritesCount (header j)) \<le> unat i \<Longrightarrow> WriteBufferWrite j i e d = (Inl ErrInvalidSize, d)"
    by (simp add: WriteBufferWrite_def word_le_nat_alt)
  assume inv: "journal_ready j d" and i: "unat i < unat (bufWritesCount (header j))"
  then show "ReadBufferWrite j i d = (wslot (header j) (dev_bytes d) (unat i), d)"
    by (simp add: journal_ready_def ReadBufferWrite_healthy)
  assume fits: "write_fits (header j) e"
  have wr: "WriteBufferWrite j i e d
      = (Inr (), put_bytes (wpos (header j) (unat i)) (write_bytes (header j) e) d)"
    using inv i fits by (simp add: journal_ready_def WriteBufferWrite_healthy)
  show "fst (WriteBufferWrite j i e d) = Inr ()" by (simp add: wr)
  show "journal_ready j (snd (WriteBufferWrite j i e d))" using inv by (simp add: wr journal_ready_def)
  show "wslot (header j) (dev_bytes (snd (WriteBufferWrite j i e d))) (unat i) = Inr (stored_write e)"
    using inv i fits by (simp add: wr journal_ready_def wslot_put_same)
  show "k \<noteq> unat i \<Longrightarrow> wslot (header j) (dev_bytes (snd (WriteBufferWrite j i e d))) k
      = wslot (header j) (dev_bytes d) k"
    using fits by (simp add: wr wslot_put_other)
qed

interpretation cs: slot_section "ReadCorrectBlock j" "WriteCorrectBlock j"
    "\<lambda>i d. cslot (header j) (dev_bytes d) i" "unat (corrBlocksCount (header j))"
    "block_fits (header j)" stored_block "journal_ready j" for j
proof unfold_locales
  fix d i k e
  show "unat (corrBlocksCount (header j)) < 2 ^ 64"
    using unsigned_less [of "corrBlocksCount (header j)", where ?'a = nat] by simp
  show "unat (corrBlocksCount (header j)) \<le> unat i \<Longrightarrow> ReadCorrectBlock j i d = (Inl ErrInvalidSize, d)"
    by (simp add: ReadCorrectBlock_def word_le_nat_alt)
  show "unat (corrBlocksCount (header j)) \<le> unat i \<Longrightarrow> WriteCorrectBlock j i e d = (Inl ErrInvalidSize, d)"
    by (simp add: WriteCorrectBlock_def word_le_nat_alt)
  assume inv: "journal_ready j d" and i: "unat i < unat (corrBlocksCount (header j))"
  then show "ReadCorrectBlock j i d = (cslot (header j) (dev_bytes d) (unat i), d)"
    by (simp add: journal_ready_def ReadCorrectBlock_healthy)
  assume fits: "block_fits (header j) e"
  have wr: "WriteCorrectBlock j i e d
      = (Inr (), put_bytes (cpos (header j) (unat i)) (block_bytes (header j) e) d)"
    using inv i fits by (simp add: journal_ready_def WriteCorrectBlock_healthy)
  show "fst (WriteCorrectBlock j i e d) = Inr ()" by (simp add: wr)
  show "journal_ready j (snd (WriteCorrectBlock j i e d))" using inv by (simp add: wr journal_ready_def)
  show "cslot (header j) (dev_bytes (snd (WriteCorrectBlock j i e d))) (unat i) = Inr (stored_block e)"
    using inv i fits by (simp add: wr journal_ready_def cslot_put_same)
  show "k \<noteq> unat i \<Longrightarrow> cslot (header j) (dev_bytes (snd (WriteCorrectBlock j i e d))) k
      = cslot (header j) (dev_bytes d) k"
    using fits by (simp add: wr cslot_put_other)
qed

subsection \<open>Clearing\<close>

definition fill_slots :: "nat \<Rightarrow> nat \<Rightarrow> bytes \<Rightarrow> nat \<Rightarrow> nat \<Rightarrow> bytes \<Rightarrow> bytes" where
  "fill_slots a s x l u b = fold (\<lambda>k. overwrite (a + k * s) x) [l..<u] b"

lemma length_fold_overwrite [simp]: "length (fold (\<lambda>k. overwrite (f k) x) ks b) = length b"
  by (induction ks arbitrary: b) auto

lemma length_fill_slots [simp]: "length (fill_slots a s x l u b) = length b"
  by (simp add: fill_slots_def)

lemma fill_slots_Suc: "l \<le> u \<Longrightarrow>
   fill_slots a s x l (Suc u) b = overwrite (a + u * s) x (fill_slots a s x l u b)"
  by (simp add: fill_slots_def)

lemma bslice_fill_slots:
  assumes "length x = s" and "a + u * s \<le> length b" and "l \<le> u"
  shows "bslice (a + k * s) s (fill_slots a s x l u b)
       = (if l \<le> k \<and> k < u then x else bslice (a + k * s) s b)"
  using assms(2,3)
proof (induction u)
  case 0
  then show ?case by (simp add: fill_slots_def)
next
  case (Suc u)
  show ?case
  proof (cases "l \<le> u")
    case False
    then show ?thesis using Suc.prems by (auto simp: fill_slots_def)
  next
    case True
    have IH: "bslice (a + k * s) s (fill_slots a s x l u b) = (if l \<le> k \<and> k < u then x else bslice (a + k * s) s b)"
      using Suc.IH Suc.prems(1) True by simp
    show ?thesis
    proof (cases "k = u")
      case k: True
      show ?thesis using bslice_overwrite_same [of "a + u * s" x "fill_slots a s x l u b"] assms(1) Suc.prems(1) True k
        by (simp add: fill_slots_Suc)
    next
      case k: False
      then show ?thesis using slots_apart [OF k, of a s] assms(1) IH True
        by (auto simp: fill_slots_Suc bslice_overwrite_other)
    qed
  qed
qed

lemma bslice_fill_slots_other:
  assumes "length x = s" and "p + n \<le> a \<or> a + u * s \<le> p" and "l \<le> u"
  shows "bslice p n (fill_slots a s x l u b) = bslice p n b"
  using assms(2,3)
proof (induction u)
  case 0
  then show ?case by (simp add: fill_slots_def)
next
  case (Suc u)
  show ?case
  proof (cases "l \<le> u")
    case False
    then show ?thesis using Suc.prems by (simp add: fill_slots_def)
  next
    case True
    then have "bslice p n (fill_slots a s x l u b) = bslice p n b" using Suc by auto
    moreover have "p + n \<le> a + u * s \<or> a + u * s + length x \<le> p" using Suc.prems(1) assms(1) by auto
    ultimately show ?thesis using True by (simp add: fill_slots_Suc bslice_overwrite_other)
  qed
qed

lemma clear_slots_healthy:
  assumes "healthy d" and "length x = unat sz" and "unat start + n * unat sz \<le> length (dev_bytes d)"
    and "length (dev_bytes d) < 2 ^ 63" and "unat i + m \<le> n" and "n < 2 ^ 64"
  shows "clear_slots m i start sz x d =
     (Inr (), d\<lparr>dev_bytes := fill_slots (unat start) (unat sz) x (unat i) (unat i + m) (dev_bytes d)\<rparr>)"
  using assms
proof (induction m arbitrary: i d)
  case 0
  then show ?case by (simp add: fill_slots_def)
next
  case (Suc m)
  let ?p = "unat start + unat i * unat sz"
  have ui: "unat i < n" using Suc.prems(5) by simp
  have off: "unat (slot_offset start sz i) = ?p"
    by (rule unat_slot_offset [OF Suc.prems(3,4) ui])
  have "?p + unat sz \<le> length (dev_bytes d)"
    using slot_end_le [OF ui, of "unat start" "unat sz"] Suc.prems(3) by linarith
  then have wr: "WriteAt x (slot_offset start sz i) d = (Inr (), put_bytes ?p x d)"
    using WriteAt_ok [OF Suc.prems(1) _ Suc.prems(4)] off Suc.prems(2) by simp
  have "unat i + 1 < 2 ^ 64" using ui Suc.prems(6) by simp
  then have i1: "unat (i + 1) = Suc (unat i)" using unat_add_lem [of i 1] by simp
  have fold: "fill_slots (unat start) (unat sz) x (unat i) (unat i + Suc m) b
      = fill_slots (unat start) (unat sz) x (Suc (unat i)) (Suc (unat i) + m) (overwrite ?p x b)" for b
    by (simp add: fill_slots_def upt_conv_Cons del: upt_Suc)
  have "clear_slots m (i + 1) start sz x (put_bytes ?p x d) =
     (Inr (), (put_bytes ?p x d)\<lparr>dev_bytes := fill_slots (unat start) (unat sz) x (unat (i + 1))
        (unat (i + 1) + m) (dev_bytes (put_bytes ?p x d))\<rparr>)"
    using Suc.prems by (intro Suc.IH) (auto simp: i1)
  then show ?case by (simp add: wr i1 fold put_bytes_def del: add_Suc_right)
qed

definition cleared :: "Header \<Rightarrow> bytes \<Rightarrow> nat \<Rightarrow> nat \<Rightarrow> bytes \<Rightarrow> bool" where
  "cleared h b nw nc b' \<longleftrightarrow>
     length b' = length b \<and> bslice 0 64 b' = bslice 0 64 b \<and>
     (\<forall>k < unat (bufWritesCount h).
        wslot h b' k = (if k < nw then Inr GetInvalidWrite else wslot h b k)) \<and>
     (\<forall>k < unat (corrBlocksCount h).
        cslot h b' k = (if k < nc then Inr GetInvalidCorrectBlock else cslot h b k))"

lemma flags_frame [simp]:
  "wpos (h\<lparr>flags := f\<rparr>) i = wpos h i" "cpos (h\<lparr>flags := f\<rparr>) i = cpos h i"
  "wslot (h\<lparr>flags := f\<rparr>) b i = wslot h b i" "cslot (h\<lparr>flags := f\<rparr>) b i = cslot h b i"
  "layout_ok (h\<lparr>flags := f\<rparr>) n = layout_ok h n"
  "write_fits (h\<lparr>flags := f\<rparr>) w = write_fits h w" "block_fits (h\<lparr>flags := f\<rparr>) c = block_fits h c"
  by (simp_all add: wpos_def cpos_def wslot_def cslot_def layout_ok_def write_fits_def block_fits_def)

lemmas flag_defs = setValidFlag_def setInvalidFlag_def

lemma invalid_fits:
  "layout_ok h n \<Longrightarrow> write_fits h GetInvalidWrite" "layout_ok h n \<Longrightarrow> block_fits h GetInvalidCorrectBlock"
  by (simp_all add: layout_ok_def write_fits_def block_fits_def entry_fits_def GetInvalidWrite_def
      GetInvalidCorrectBlock_def)

lemma deserialize_invalid:
  "layout_ok h n \<Longrightarrow> deserializeWriteInfo (write_bytes h GetInvalidWrite) = Inr GetInvalidWrite"
  "layout_ok h n \<Longrightarrow> deserializeCorrectBlockInfo (block_bytes h GetInvalidCorrectBlock) = Inr GetInvalidCorrectBlock"
  by (simp_all add: deserialize_write_bytes deserialize_block_bytes invalid_fits)
    (simp_all add: stored_write_def stored_block_def GetInvalidWrite_def GetInvalidCorrectBlock_def)

lemma ClearWriteSectionTo_healthy:
  assumes "journal_ready j d" and "off \<le> bufWritesCount (header j)"
  obtains b' where "ClearWriteSectionTo j off d = (Inr (), d\<lparr>dev_bytes := b'\<rparr>)"
    and "cleared (header j) (dev_bytes d) (unat off) 0 b'"
proof -
  let ?h = "header j" and ?b = "dev_bytes d"
  let ?x = "write_bytes ?h GetInvalidWrite"
  from assms(1) have d: "healthy d" and lay: "layout_ok ?h (length ?b)" by (auto simp: journal_ready_def)
  note fit = invalid_fits(1) [OF lay]
  let ?a = "unat (bufWritesStartOffset ?h)" and ?s = "unat (bufWriteByteSize ?h)"
  let ?b' = "fill_slots ?a ?s ?x 0 (unat off) ?b"
  have off: "unat off \<le> unat (bufWritesCount ?h)" using assms(2) by (simp add: word_le_nat_alt)
  have up: "?a + unat off * ?s \<le> ?a + unat (bufWritesCount ?h) * ?s" using off by simp
  have up2: "?a + unat off * ?s \<le> unat (corrBlocksStartOffset ?h)"
    using lay by (intro order_trans [OF up]) (simp add: layout_ok_def)
  have up3: "?a + unat off * ?s \<le> length ?b" using up2 lay by (simp add: layout_ok_def)
  have "clear_slots (unat off) 0 (bufWritesStartOffset ?h) (bufWriteByteSize ?h) ?x d
      = (Inr (), d\<lparr>dev_bytes := ?b'\<rparr>)"
    using clear_slots_healthy [OF d, of ?x "bufWriteByteSize ?h" "bufWritesStartOffset ?h" "unat off" 0 "unat off"]
      lay up3 fit unsigned_less [of off, where ?'a = nat]
    by (simp add: layout_ok_def)
  then have run: "ClearWriteSectionTo j off d = (Inr (), d\<lparr>dev_bytes := ?b'\<rparr>)"
    using assms(2) by (simp add: ClearWriteSectionTo_def Let_def serializeWriteInfo_fits fit not_less)
  have "cleared ?h ?b (unat off) 0 ?b'"
    unfolding cleared_def
  proof (intro conjI allI impI)
    show "bslice 0 64 ?b' = bslice 0 64 ?b"
      using lay fit by (intro bslice_fill_slots_other) (auto simp: layout_ok_def)
    show "wslot ?h ?b' k = (if k < unat off then Inr GetInvalidWrite else wslot ?h ?b k)" for k
      using bslice_fill_slots [of ?x ?s ?a "unat off" ?b 0 k] up3 fit
      by (simp add: wslot_def wpos_def deserialize_invalid [OF lay])
    show "cslot ?h ?b' k = (if k < 0 then Inr GetInvalidCorrectBlock else cslot ?h ?b k)"
      if "k < unat (corrBlocksCount ?h)" for k
      using bslice_fill_slots_other [of ?x ?s "cpos ?h k" _ ?a "unat off" 0 ?b] fit up2
        cpos_bounds(2) [OF lay that]
      by (simp add: cslot_def)
  qed simp
  with run that show ?thesis by blast
qed

lemma ClearCorrectBlockSectionTo_healthy:
  assumes "journal_ready j d" and "off \<le> corrBlocksCount (header j)"
  obtains b' where "ClearCorrectBlockSectionTo j off d = (Inr (), d\<lparr>dev_bytes := b'\<rparr>)"
    and "cleared (header j) (dev_bytes d) 0 (unat off) b'"
proof -
  let ?h = "header j" and ?b = "dev_bytes d"
  let ?x = "block_bytes ?h GetInvalidCorrectBlock"
  from assms(1) have d: "healthy d" and lay: "layout_ok ?h (length ?b)" by (auto simp: journal_ready_def)
  note fit = invalid_fits(2) [OF lay]
  let ?a = "unat (corrBlocksStartOffset ?h)" and ?s = "unat (corrBlockByteSize ?h)"
  let ?b' = "fill_slots ?a ?s ?x 0 (unat off) ?b"
  have off: "unat off \<le> unat (corrBlocksCount ?h)" using assms(2) by (simp add: word_le_nat_alt)
  have up: "?a + unat off * ?s \<le> ?a + unat (corrBlocksCount ?h) * ?s" using off by simp
  have up3: "?a + unat off * ?s \<le> length ?b"
    using lay by (intro order_trans [OF up]) (simp add: layout_ok_def)
  have "clear_slots (unat off) 0 (corrBlocksStartOffset ?h) (corrBlockByteSize ?h) ?x d
      = (Inr (), d\<lparr>dev_bytes := ?b'\<rparr>)"
    using clear_slots_healthy [OF d, of ?x "corrBlockByteSize ?h" "corrBlocksStartOffset ?h" "unat off" 0 "unat off"]
      lay up3 fit unsigned_less [of off, where ?'a = nat]
    by (simp add: layout_ok_def)
  then have run: "ClearCorrectBlockSectionTo j off d = (Inr (), d\<lparr>dev_bytes := ?b'\<rparr>)"
    using assms(2) by (simp add: ClearCorrectBlockSectionTo_def Let_def serializeCorrectBlockInfo_fits fit not_less)
  have "cleared ?h ?b 0 (unat off) ?b'"
    unfolding cleared_def
  proof (intro conjI allI impI)
    show "bslice 0 64 ?b' = bslice 0 64 ?b"
      using lay fit by (intro bslice_fill_slots_other) (auto simp: layout_ok_def)
    show "cslot ?h ?b' k = (if k < unat off then Inr GetInvalidCorrectBlock else cslot ?h ?b k)" for k
      using bslice_fill_slots [of ?x ?s ?a "unat off" ?b 0 k] up3 fit
      by (simp add: cslot_def cpos_def deserialize_invalid [OF lay])
    show "wslot ?h ?b' k = (if k < 0 then Inr GetInvalidWrite else wslot ?h ?b k)"
      if "k < unat (bufWritesCount ?h)" for k
      using bslice_fill_slots_other [of ?x ?s "wpos ?h k" _ ?a "unat off" 0 ?b] fit
        wpos_bounds(2) [OF lay that]
      by (simp add: wslot_def)
  qed simp
  with run that show ?thesis by blast
qed

lemma cleared_trans:
  "cleared h b nw 0 b1 \<Longrightarrow> cleared h b1 0 nc b2 \<Longrightarrow> cleared h b nw nc b2"
  by (auto simp: cleared_def)

lemma Invalidate_healthy:
  assumes "journal_ready j d"
  shows "Invalidate j d = (Inr (), j\<lparr>header := setInvalidFlag (header j)\<rparr>,
            put_bytes 0 (header_bytes (setInvalidFlag (header j))) d)"
  using assms WriteHeader_healthy [of d "j\<lparr>header := setInvalidFlag (header j)\<rparr>"]
  by (simp add: Invalidate_def journal_ready_def layout_ok_def)

lemma Validate_healthy:
  assumes "journal_ready j d"
  shows "Validate j d = (Inr (), j\<lparr>header := setValidFlag (header j)\<rparr>,
            put_bytes 0 (header_bytes (setValidFlag (header j))) d)"
  using assms WriteHeader_healthy [of d "j\<lparr>header := setValidFlag (header j)\<rparr>"]
  by (simp add: Validate_def journal_ready_def layout_ok_def)

lemma bslice_header_put: "64 \<le> length b \<Longrightarrow> bslice 0 64 (overwrite 0 (header_bytes h) b) = header_bytes h"
  using bslice_overwrite_same [of 0 "header_bytes h" b] by simp

lemma ResetTo_healthy:
  assumes ready: "journal_ready j d" and "wo \<le> bufWritesCount (header j)" and "co \<le> corrBlocksCount (header j)"
  obtains b' where
    "ResetTo j wo co d = (Inr (), j\<lparr>header := setInvalidFlag (header j), WriteOffset := 0, CorrectOffset := 0\<rparr>,
                          d\<lparr>dev_bytes := b'\<rparr>)"
    and "cleared (header j) (overwrite 0 (header_bytes (setInvalidFlag (header j))) (dev_bytes d))
           (unat wo) (unat co) b'"
proof -
  let ?h = "setInvalidFlag (header j)"
  let ?j = "j\<lparr>header := ?h\<rparr>" and ?d = "put_bytes 0 (header_bytes ?h) d"
  have r1: "journal_ready ?j ?d" using ready by (simp add: journal_ready_def flag_defs)
  obtain b1 where b1: "ClearWriteSectionTo ?j wo ?d = (Inr (), ?d\<lparr>dev_bytes := b1\<rparr>)"
      and c1: "cleared ?h (dev_bytes ?d) (unat wo) 0 b1"
    using ClearWriteSectionTo_healthy [OF r1, of wo] assms(2) by (auto simp: flag_defs)
  have r2: "journal_ready ?j (?d\<lparr>dev_bytes := b1\<rparr>)"
    using r1 c1 by (simp add: journal_ready_def cleared_def healthy_def)
  obtain b2 where b2: "ClearCorrectBlockSectionTo ?j co (?d\<lparr>dev_bytes := b1\<rparr>) = (Inr (), ?d\<lparr>dev_bytes := b2\<rparr>)"
      and c2: "cleared ?h b1 0 (unat co) b2"
    using ClearCorrectBlockSectionTo_healthy [OF r2, of co] assms(3) by (auto simp: flag_defs)
  have "ResetTo j wo co d = (Inr (), ?j\<lparr>WriteOffset := 0, CorrectOffset := 0\<rparr>, ?d\<lparr>dev_bytes := b2\<rparr>)"
    using b1 b2 by (simp add: ResetTo_def Invalidate_healthy [OF ready])
  moreover have "cleared (header j) (dev_bytes ?d) (unat wo) (unat co) b2"
    using cleared_trans [OF c1 c2] by (simp add: cleared_def flag_defs)
  ultimately show ?thesis using that [of b2] by (simp add: put_bytes_def)
qed

subsection \<open>The log invariant, opening and resetting\<close>

definition log_shape :: "Header \<Rightarrow> bytes \<Rightarrow> nat \<Rightarrow> nat \<Rightarrow> bool" where
  "log_shape h b nw nc \<longleftrightarrow>
     nw \<le> unat (bufWritesCount h) \<and> nc \<le> unat (corrBlocksCount h) \<and>
     (\<forall>k < nw. \<exists>w. wslot h b k = Inr w \<and> WriteInfo_IsValid w) \<and>
     (\<forall>k < unat (bufWritesCount h). nw \<le> k \<longrightarrow> (\<exists>w. wslot h b k = Inr w \<and> \<not> WriteInfo_IsValid w)) \<and>
     (\<forall>k < nc. \<exists>c. cslot h b k = Inr c \<and> CorrectBlockInfo_IsValid c) \<and>
     (\<forall>k < unat (corrBlocksCount h). nc \<le> k \<longrightarrow> (\<exists>c. cslot h b k = Inr c \<and> \<not> CorrectBlockInfo_IsValid c))"

definition journal_inv :: "Journal \<Rightarrow> device \<Rightarrow> bool" where
  "journal_inv j d \<longleftrightarrow>
     journal_ready j d \<and> dev_present d \<and> dev_block d \<and>
     bslice 0 64 (dev_bytes d) = header_bytes (header j) \<and> magic (header j) = BdrMagic \<and>
     diskSize j = of_nat (length (dev_bytes d)) \<and>
     log_shape (header j) (dev_bytes d) (unat (WriteOffset j)) (unat (CorrectOffset j))"

lemma FindFirstAvailableBufferWrite_shape:
  assumes "journal_ready j d" and "log_shape (header j) (dev_bytes d) nw nc"
  shows "nw < unat (bufWritesCount (header j)) \<Longrightarrow> FindFirstAvailableBufferWrite j d = (Inr (of_nat nw), d)"
    and "nw = unat (bufWritesCount (header j)) \<Longrightarrow> FindFirstAvailableBufferWrite j d = (Inl ErrNoWriteSlots, d)"
  using ws.find_free_first [OF assms(1), of nw _ 0 WriteInfo_IsValid]
    ws.find_free_none [OF assms(1), of 0 _ WriteInfo_IsValid] assms(2)
  by (auto simp: FindFirstAvailableBufferWrite_def log_shape_def)

lemma FindFirstAvailableCorrectBlock_shape:
  assumes "journal_ready j d" and "log_shape (header j) (dev_bytes d) nw nc"
  shows "nc < unat (corrBlocksCount (header j)) \<Longrightarrow> FindFirstAvailableCorrectBlock j d = (Inr (of_nat nc), d)"
    and "nc = unat (corrBlocksCount (header j)) \<Longrightarrow> FindFirstAvailableCorrectBlock j d = (Inl ErrNoBlockSlots, d)"
  using cs.find_free_first [OF assms(1), of nc _ 0 CorrectBlockInfo_IsValid]
    cs.find_free_none [OF assms(1), of 0 _ CorrectBlockInfo_IsValid] assms(2)
  by (auto simp: FindFirstAvailableCorrectBlock_def log_shape_def)

lemma ReadHeader_inv:
  assumes "healthy d" and "layout_ok h (length (dev_bytes d))" and "bslice 0 64 (dev_bytes d) = header_bytes h"
  shows "ReadHeader d = (Inr h, d)"
proof -
  have "64 \<le> length (dev_bytes d)" using arg_cong [OF assms(3), of length] by simp
  moreover have "length (dev_bytes d) < 2 ^ 63" using assms(2) by (simp add: layout_ok_def)
  ultimately show ?thesis using ReadHeader_healthy [OF assms(1)] assms(3) by simp
qed

lemma OpenJournal_opens:
  assumes "healthy d" and "dev_present d" and "dev_block d" and "layout_ok h (length (dev_bytes d))"
    and "bslice 0 64 (dev_bytes d) = header_bytes h" and "magic h = BdrMagic"
  shows "OpenJournal d =
     (let jrn = \<lparr>diskSize = of_nat (length (dev_bytes d)), WriteOffset = 0, CorrectOffset = 0, header = h\<rparr> in
      case FindFirstAvailableBufferWrite jrn d of
        (Inl e, d2) \<Rightarrow> (Inl e, d2)
      | (Inr firstWrite, d2) \<Rightarrow> (case FindFirstAvailableCorrectBlock jrn d2 of
           (Inl e, d3) \<Rightarrow> (Inl e, d3)
         | (Inr firstBlock, d3) \<Rightarrow>
             (Inr (jrn\<lparr>WriteOffset := firstWrite, CorrectOffset := firstBlock\<rparr>), d3)))"
  using assms by (simp add: OpenJournal_def OpenFile_def ReadHeader_inv VerifyMagic_def GetDeviceSize_def)

text \<open>Opening a well-formed journal finds both offsets again, unless a section is full.\<close>

lemma OpenJournal_outcome:
  assumes "journal_inv j d"
  shows "OpenJournal d =
    (if WriteOffset j = bufWritesCount (header j) then Inl ErrNoWriteSlots
     else if CorrectOffset j = corrBlocksCount (header j) then Inl ErrNoBlockSlots
     else Inr j, d)"
proof -
  let ?jrn = "\<lparr>diskSize = of_nat (length (dev_bytes d)), WriteOffset = 0, CorrectOffset = 0, header = header j\<rparr>"
  have ready: "journal_ready ?jrn d" and shape: "log_shape (header j) (dev_bytes d) (unat (WriteOffset j)) (unat (CorrectOffset j))"
    using assms by (auto simp: journal_inv_def journal_ready_def)
  have le: "WriteOffset j \<le> bufWritesCount (header j)" "CorrectOffset j \<le> corrBlocksCount (header j)"
    using shape by (simp_all add: log_shape_def word_le_nat_alt)
  have "FindFirstAvailableBufferWrite ?jrn d =
      (if WriteOffset j = bufWritesCount (header j) then Inl ErrNoWriteSlots else Inr (WriteOffset j), d)"
    using FindFirstAvailableBufferWrite_shape [OF ready] shape le(1) by (auto simp: word_less_nat_alt order.order_iff_strict)
  moreover have "FindFirstAvailableCorrectBlock ?jrn d =
      (if CorrectOffset j = corrBlocksCount (header j) then Inl ErrNoBlockSlots else Inr (CorrectOffset j), d)"
    using FindFirstAvailableCorrectBlock_shape [OF ready] shape le(2) by (auto simp: word_less_nat_alt order.order_iff_strict)
  ultimately show ?thesis using assms OpenJournal_opens [of d "header j"]
    by (simp add: journal_inv_def journal_ready_def)
qed

lemma OpenJournal_inv:
  assumes "journal_inv j d" and "WriteOffset j < bufWritesCount (header j)"
    and "CorrectOffset j < corrBlocksCount (header j)"
  shows "OpenJournal d = (Inr j, d)"
  using OpenJournal_outcome [OF assms(1)] assms(2,3) by (simp add: less_imp_neq)

lemma invalid_not_valid [simp]:
  "\<not> WriteInfo_IsValid GetInvalidWrite" "\<not> CorrectBlockInfo_IsValid GetInvalidCorrectBlock"
  by (simp_all add: WriteInfo_IsValid_def CorrectBlockInfo_IsValid_def GetInvalidWrite_def GetInvalidCorrectBlock_def)

lemma IsValid_setInvalidFlag [simp]: "\<not> Header_IsValid (setInvalidFlag h)"
proof -
  have "(flags h AND NOT JournalValidFlag) AND JournalValidFlag = 0"
    by (rule bit_word_eqI) (simp add: bit_simps)
  then show ?thesis by (simp add: Header_IsValid_def setInvalidFlag_def)
qed

lemma IsValid_setValidFlag [simp]: "Header_IsValid (setValidFlag h)"
proof -
  have "(flags h OR JournalValidFlag) AND JournalValidFlag = JournalValidFlag"
    by (rule bit_word_eqI) (auto simp: bit_simps)
  moreover have "JournalValidFlag \<noteq> 0" by (simp add: JournalValidFlag_def)
  ultimately show ?thesis by (simp add: Header_IsValid_def setValidFlag_def)
qed

text \<open>Slots at and after the offsets are free: what the reset relies on.\<close>

definition free_after :: "Header \<Rightarrow> bytes \<Rightarrow> nat \<Rightarrow> nat \<Rightarrow> bool" where
  "free_after h b nw nc \<longleftrightarrow>
     (\<forall>k < unat (bufWritesCount h). nw \<le> k \<longrightarrow> (\<exists>w. wslot h b k = Inr w \<and> \<not> WriteInfo_IsValid w)) \<and>
     (\<forall>k < unat (corrBlocksCount h). nc \<le> k \<longrightarrow> (\<exists>c. cslot h b k = Inr c \<and> \<not> CorrectBlockInfo_IsValid c))"

lemma ResetTo_establishes:
  assumes ready: "journal_ready j d" and "dev_present d" and "dev_block d" and "magic (header j) = BdrMagic"
    and "diskSize j = of_nat (length (dev_bytes d))"
    and "WriteOffset j \<le> bufWritesCount (header j)" and "CorrectOffset j \<le> corrBlocksCount (header j)"
    and free: "free_after (header j) (dev_bytes d) (unat (WriteOffset j)) (unat (CorrectOffset j))"
    and run: "ResetTo j (WriteOffset j) (CorrectOffset j) d = (r, j', d')"
  shows "r = Inr () \<and> journal_inv j' d' \<and> WriteOffset j' = 0 \<and> CorrectOffset j' = 0 \<and> \<not> Journal_IsValid j'"
proof -
  let ?h = "setInvalidFlag (header j)"
  from ready have lay: "layout_ok (header j) (length (dev_bytes d))" by (simp add: journal_ready_def)
  have 64: "64 \<le> length (dev_bytes d)" using lay by (simp add: layout_ok_def)
  obtain b' where eq: "r = Inr ()" "j' = j\<lparr>header := ?h, WriteOffset := 0, CorrectOffset := 0\<rparr>"
      "d' = d\<lparr>dev_bytes := b'\<rparr>"
    and cl: "cleared (header j) (overwrite 0 (header_bytes ?h) (dev_bytes d))
        (unat (WriteOffset j)) (unat (CorrectOffset j)) b'"
    using ResetTo_healthy [OF ready assms(6,7)] run by (metis prod.inject)
  have len: "length b' = length (dev_bytes d)" and hb: "bslice 0 64 b' = header_bytes ?h"
    using cl 64 by (auto simp: cleared_def bslice_header_put)
  have slots: "k < unat (bufWritesCount (header j)) \<Longrightarrow> \<exists>w. wslot (header j) b' k = Inr w \<and> \<not> WriteInfo_IsValid w"
    "k < unat (corrBlocksCount (header j)) \<Longrightarrow> \<exists>c. cslot (header j) b' k = Inr c \<and> \<not> CorrectBlockInfo_IsValid c" for k
    using cl free slots_put_header [OF lay, of "header_bytes ?h" k]
    by (auto simp: cleared_def free_after_def)
  have "log_shape ?h b' 0 0" using slots by (simp add: log_shape_def flag_defs)
  then show ?thesis using assms(2-5) ready eq len hb
    by (simp add: IsValid_setInvalidFlag [unfolded setInvalidFlag_def] journal_inv_def journal_ready_def flag_defs healthy_def Journal_IsValid_def)
qed

subsection \<open>Creating\<close>

lemma unat_device_size: "n < 2 ^ 63 \<Longrightarrow> unat (of_nat n :: u64) = n"
  by (simp add: unat_of_nat)

lemma NewJournal_rejects_iff:
  assumes "dev_present d" and "dev_block d" and "64 \<le> length (dev_bytes d)" "length (dev_bytes d) < 2 ^ 63"
  shows "NewJournal d sw ws bs = Inl ErrInvalidSize \<longleftrightarrow>
     length (dev_bytes d) < 64 + unat sw \<or> sw = 0 \<or> ws = 0 \<or> bs = 0"
proof -
  let ?n = "of_nat (length (dev_bytes d)) :: u64"
  have n: "unat ?n = length (dev_bytes d)" by (rule unat_device_size [OF assms(4)])
  have "64 \<le> ?n" using assms(3) n by (simp add: word_le_nat_alt)
  then have "unat (?n - 64) = length (dev_bytes d) - 64" using n by (simp add: unat_sub)
  then have "sw > ?n - 64 \<longleftrightarrow> length (dev_bytes d) < 64 + unat sw"
    using assms(3) by (auto simp: word_less_nat_alt)
  then show ?thesis using assms(1,2)
    by (auto simp: NewJournal_def OpenFile_def GetDeviceSize_def GetHeaderByteSize_def Let_def)
qed

lemma NewJournal_layout:
  assumes new: "NewJournal d sw ws bs = Inr j"
    and size: "64 \<le> length (dev_bytes d)" "length (dev_bytes d) < 2 ^ 63"
    and slots: "12 \<le> ws" "12 \<le> bs"
  shows "layout_ok (header j) (length (dev_bytes d))"
    and "magic (header j) = BdrMagic" and "diskSize j = of_nat (length (dev_bytes d))"
    and "WriteOffset j = bufWritesCount (header j)" and "CorrectOffset j = corrBlocksCount (header j)"
    and "\<not> Journal_IsValid j"
proof -
  let ?n = "of_nat (length (dev_bytes d)) :: u64"
  have n: "unat ?n = length (dev_bytes d)" by (rule unat_device_size [OF size(2)])
  have le: "64 \<le> ?n" using size(1) n by (simp add: word_le_nat_alt)
  have sub: "unat (?n - 64) = length (dev_bytes d) - 64"
    using unat_sub [OF le] n by simp
  have sw: "sw \<le> ?n - 64" and
    j: "j = \<lparr>diskSize = ?n, WriteOffset = sw div ws, CorrectOffset = (?n - 64 - sw) div bs,
      header = \<lparr>magic = BdrMagic, bufWriteByteSize = ws, bufWritesCount = sw div ws,
        bufWritesStartOffset = 64, corrBlockByteSize = bs, corrBlocksCount = (?n - 64 - sw) div bs,
        corrBlocksStartOffset = 64 + sw, flags = 0\<rparr>\<rparr>"
    using new by (auto simp: NewJournal_def OpenFile_def GetDeviceSize_def GetHeaderByteSize_def Let_def
        split: if_splits)
  have swn: "unat sw \<le> length (dev_bytes d) - 64" using sw sub by (simp add: word_le_nat_alt)
  have sub2: "unat (?n - 64 - sw) = length (dev_bytes d) - 64 - unat sw" using unat_sub [OF sw] sub by simp
  have "64 + unat sw < 2 ^ 64" using swn size by simp
  then have st: "unat (64 + sw) = 64 + unat sw" using unat_add_lem [of "64 :: u64" sw] by simp
  let ?rest = "length (dev_bytes d) - (64 + unat sw)"
  have "?rest div unat bs * unat bs \<le> ?rest" by simp
  then have "64 + unat sw + ?rest div unat bs * unat bs \<le> length (dev_bytes d)"
    using swn size(1) by linarith
  then show "layout_ok (header j) (length (dev_bytes d))"
    using slots size swn st sub2 by (simp add: j layout_ok_def unat_div word_le_nat_alt)
  show "magic (header j) = BdrMagic" "diskSize j = ?n" "WriteOffset j = bufWritesCount (header j)"
    "CorrectOffset j = corrBlocksCount (header j)" "\<not> Journal_IsValid j"
    by (simp_all add: j Journal_IsValid_def Header_IsValid_def)
qed

subsection \<open>Appending\<close>

abbreviation write_at :: "Journal \<Rightarrow> nat \<Rightarrow> device \<Rightarrow> WriteInfo result" where
  "write_at j \<equiv> \<lambda>i d. wslot (header j) (dev_bytes d) i"

abbreviation block_at :: "Journal \<Rightarrow> nat \<Rightarrow> device \<Rightarrow> CorrectBlockInfo result" where
  "block_at j \<equiv> \<lambda>i d. cslot (header j) (dev_bytes d) i"

definition journal_writes :: "Journal \<Rightarrow> device \<Rightarrow> WriteInfo result list" where
  "journal_writes j d = log_entries (write_at j) (unat (WriteOffset j)) d"

definition journal_blocks :: "Journal \<Rightarrow> device \<Rightarrow> CorrectBlockInfo result list" where
  "journal_blocks j d = log_entries (block_at j) (unat (CorrectOffset j)) d"

lemma unat_Suc_u64: "unat (i :: u64) < unat (n :: u64) \<Longrightarrow> unat (i + 1) = Suc (unat i)"
proof -
  assume "unat i < unat n"
  then have "unat i + 1 < 2 ^ 64" using unsigned_less [of n, where ?'a = nat] by simp
  then show ?thesis using unat_add_lem [of i 1] by simp
qed

lemma journal_append_write:
  assumes inv: "journal_inv j d" and room: "WriteOffset j < bufWritesCount (header j)"
    and fits: "write_fits (header j) w" and valid: "WriteInfo_IsValid w"
    and run: "WriteBufferWrite j (WriteOffset j) w d = (r, d')"
  shows "r = Inr ()" and "journal_inv (j\<lparr>WriteOffset := WriteOffset j + 1\<rparr>) d'"
    and "journal_writes (j\<lparr>WriteOffset := WriteOffset j + 1\<rparr>) d' = journal_writes j d @ [Inr (stored_write w)]"
    and "journal_blocks (j\<lparr>WriteOffset := WriteOffset j + 1\<rparr>) d' = journal_blocks j d"
proof -
  let ?h = "header j" and ?p = "wpos (header j) (unat (WriteOffset j))"
  from inv have ready: "journal_ready j d" by (simp add: journal_inv_def)
  then have lay: "layout_ok ?h (length (dev_bytes d))" by (simp add: journal_ready_def)
  have u: "unat (WriteOffset j) < unat (bufWritesCount ?h)" using room by (simp add: word_less_nat_alt)
  have d': "r = Inr ()" "d' = put_bytes ?p (write_bytes ?h w) d"
    using run WriteBufferWrite_healthy [of d j "WriteOffset j" w] ready u fits by (auto simp: journal_ready_def)
  show "r = Inr ()" by (rule d'(1))
  have cs: "cslot ?h (dev_bytes d') k = cslot ?h (dev_bytes d) k" if "k < unat (corrBlocksCount ?h)" for k
    using that u fits by (simp add: d' cslot_put_write [OF lay])
  have w1: "wslot ?h (dev_bytes d') (unat (WriteOffset j)) = Inr (stored_write w)"
    using u fits by (simp add: d' wslot_put_same [OF lay])
  have w2: "wslot ?h (dev_bytes d') k = wslot ?h (dev_bytes d) k" if "k \<noteq> unat (WriteOffset j)" for k
    using that fits by (simp add: d' wslot_put_other)
  have hdr: "bslice 0 64 (dev_bytes d') = bslice 0 64 (dev_bytes d)"
    using wpos_bounds(1) [OF lay u] by (simp add: d' header_put_slot)
  have sv: "WriteInfo_IsValid (stored_write w)" using valid by (simp add: WriteInfo_IsValid_def stored_write_def)
  have "log_shape ?h (dev_bytes d') (unat (WriteOffset j + 1)) (unat (CorrectOffset j))"
    using inv u cs w1 w2 sv unfolding log_shape_def journal_inv_def unat_Suc_u64 [OF u]
    by (auto simp: less_Suc_eq)
  then show "journal_inv (j\<lparr>WriteOffset := WriteOffset j + 1\<rparr>) d'"
    using inv hdr by (simp add: journal_inv_def journal_ready_def d')
  show "journal_writes (j\<lparr>WriteOffset := WriteOffset j + 1\<rparr>) d' = journal_writes j d @ [Inr (stored_write w)]"
    using ws.append_log [OF ready u fits] run by (simp add: journal_writes_def)
  show "journal_blocks (j\<lparr>WriteOffset := WriteOffset j + 1\<rparr>) d' = journal_blocks j d"
    using inv cs by (auto simp: journal_blocks_def journal_inv_def log_shape_def intro: log_entries_cong)
qed

lemma journal_append_block:
  assumes inv: "journal_inv j d" and room: "CorrectOffset j < corrBlocksCount (header j)"
    and fits: "block_fits (header j) c" and valid: "CorrectBlockInfo_IsValid c"
    and run: "WriteCorrectBlock j (CorrectOffset j) c d = (r, d')"
  shows "r = Inr ()" and "journal_inv (j\<lparr>CorrectOffset := CorrectOffset j + 1\<rparr>) d'"
    and "journal_blocks (j\<lparr>CorrectOffset := CorrectOffset j + 1\<rparr>) d' = journal_blocks j d @ [Inr (stored_block c)]"
    and "journal_writes (j\<lparr>CorrectOffset := CorrectOffset j + 1\<rparr>) d' = journal_writes j d"
proof -
  let ?h = "header j" and ?p = "cpos (header j) (unat (CorrectOffset j))"
  from inv have ready: "journal_ready j d" by (simp add: journal_inv_def)
  then have lay: "layout_ok ?h (length (dev_bytes d))" by (simp add: journal_ready_def)
  have u: "unat (CorrectOffset j) < unat (corrBlocksCount ?h)" using room by (simp add: word_less_nat_alt)
  have d': "r = Inr ()" "d' = put_bytes ?p (block_bytes ?h c) d"
    using run WriteCorrectBlock_healthy [of d j "CorrectOffset j" c] ready u fits by (auto simp: journal_ready_def)
  show "r = Inr ()" by (rule d'(1))
  have ws: "wslot ?h (dev_bytes d') k = wslot ?h (dev_bytes d) k" if "k < unat (bufWritesCount ?h)" for k
    using that u fits by (simp add: d' wslot_put_block [OF lay])
  have c1: "cslot ?h (dev_bytes d') (unat (CorrectOffset j)) = Inr (stored_block c)"
    using u fits by (simp add: d' cslot_put_same [OF lay])
  have c2: "cslot ?h (dev_bytes d') k = cslot ?h (dev_bytes d) k" if "k \<noteq> unat (CorrectOffset j)" for k
    using that fits by (simp add: d' cslot_put_other)
  have hdr: "bslice 0 64 (dev_bytes d') = bslice 0 64 (dev_bytes d)"
    using cpos_bounds(1) [OF lay u] by (simp add: d' header_put_slot)
  have sv: "CorrectBlockInfo_IsValid (stored_block c)"
    using valid by (simp add: CorrectBlockInfo_IsValid_def stored_block_def)
  have "log_shape ?h (dev_bytes d') (unat (WriteOffset j)) (unat (CorrectOffset j + 1))"
    using inv u ws c1 c2 sv unfolding log_shape_def journal_inv_def unat_Suc_u64 [OF u]
    by (auto simp: less_Suc_eq)
  then show "journal_inv (j\<lparr>CorrectOffset := CorrectOffset j + 1\<rparr>) d'"
    using inv hdr by (simp add: journal_inv_def journal_ready_def d')
  show "journal_blocks (j\<lparr>CorrectOffset := CorrectOffset j + 1\<rparr>) d' = journal_blocks j d @ [Inr (stored_block c)]"
    using cs.append_log [OF ready u fits] run by (simp add: journal_blocks_def)
  show "journal_writes (j\<lparr>CorrectOffset := CorrectOffset j + 1\<rparr>) d' = journal_writes j d"
    using inv ws by (auto simp: journal_writes_def journal_inv_def log_shape_def intro: log_entries_cong)
qed

text \<open>A small concrete journal: two slots of 16 bytes in each section of a 128-byte device.\<close>

definition demo_header :: Header where
  "demo_header = \<lparr>magic = BdrMagic, bufWriteByteSize = 16, bufWritesCount = 2, bufWritesStartOffset = 64,
     corrBlockByteSize = 16, corrBlocksCount = 2, corrBlocksStartOffset = 96, flags = 0\<rparr>"

definition demo_journal :: Journal where
  "demo_journal = \<lparr>diskSize = 128, WriteOffset = 0, CorrectOffset = 0, header = demo_header\<rparr>"

definition demo_device :: device where
  "demo_device = \<lparr>dev_bytes = header_bytes demo_header @ replicate 64 0, dev_faults = [],
     dev_present = True, dev_block = True\<rparr>"

definition demo_write :: WriteInfo where
  "demo_write = \<lparr>wiOffset = 1, wiSize = 2, wiData = [7, 8, 9]\<rparr>"

definition demo_block :: CorrectBlockInfo where
  "demo_block = \<lparr>cbOffset = 0, cbSize = 4, cbData = [1, 2, 3, 4]\<rparr>"

lemma bslice_replicate: "off + n \<le> m \<Longrightarrow> bslice off n (replicate m x) = replicate n x"
  by (simp add: bslice_def)

lemma get_be_zeros: "get_be (replicate n 0) = 0"
  by (induction n) (simp_all add: get_be_def)

lemma deserialize_zeros: "12 \<le> n \<Longrightarrow> deserialize_entry (replicate n 0) = Inr (0, 0, [])"
  by (simp add: deserialize_entry_def bslice_replicate get_be_zeros)

lemma demo_layout: "layout_ok demo_header 128"
  by (simp add: layout_ok_def demo_header_def)

lemma demo_slots:
  "k < 2 \<Longrightarrow> wslot demo_header (header_bytes h @ replicate 64 0) k = Inr GetInvalidWrite"
  "k < 2 \<Longrightarrow> cslot demo_header (header_bytes h @ replicate 64 0) k = Inr GetInvalidCorrectBlock"
  by (auto simp: wslot_def cslot_def wpos_def cpos_def demo_header_def less_2_cases_iff bslice_append_right
      bslice_replicate deserializeWriteInfo_def deserializeCorrectBlockInfo_def deserialize_zeros
      GetInvalidWrite_def GetInvalidCorrectBlock_def)

lemma demo_inv: "journal_inv demo_journal demo_device"
proof -
  have "log_shape demo_header (dev_bytes demo_device) 0 0"
    using demo_slots [of _ demo_header]
    by (auto simp: log_shape_def demo_device_def demo_header_def less_2_cases_iff)
  then show ?thesis
    using demo_layout
    by (simp add: journal_inv_def journal_ready_def healthy_def demo_journal_def demo_device_def
        bslice_append_left) (simp add: demo_header_def)
qed

lemma demo_inv_room:
  "WriteOffset demo_journal < bufWritesCount (header demo_journal)"
  "WriteOffset demo_journal + 1 < bufWritesCount (header demo_journal)"
  "CorrectOffset demo_journal < corrBlocksCount (header demo_journal)"
  by (simp_all add: demo_journal_def demo_header_def)

lemma demo_entry_fits:
  "write_fits (header demo_journal) demo_write" "WriteInfo_IsValid demo_write"
  "block_fits (header demo_journal) demo_block" "CorrectBlockInfo_IsValid demo_block"
  by (simp_all add: write_fits_def block_fits_def entry_fits_def demo_journal_def demo_header_def demo_write_def
      demo_block_def WriteInfo_IsValid_def CorrectBlockInfo_IsValid_def)

subsection \<open>Properties\<close>

text \<open>
  C7: Appending a buffered write with \<^verbatim>\<open>WriteBufferWrite\<close> at \<^verbatim>\<open>WriteOffset\<close>, where a slot is free.
  The call succeeds, the log of buffered writes grows by exactly that write and the log of
  correct blocks is unchanged.  The append survives a restart as long as it does not fill
  its section and the section of the blocks is not full: then \<^verbatim>\<open>OpenJournal\<close> on the device finds
  both offsets again and rebuilds the journal handle field for field.  When it fills its
  section, or the other one is full, \<^verbatim>\<open>OpenJournal\<close> refuses the journal with the error that the
  section has no free slot.
\<close>

theorem append_write_survives_reopen:
  assumes inv: "journal_inv j d" and room: "WriteOffset j < bufWritesCount (header j)"
    and w: "write_fits (header j) w" "WriteInfo_IsValid w"
  shows "\<exists>d'. WriteBufferWrite j (WriteOffset j) w d = (Inr (), d') \<and>
     journal_writes (j\<lparr>WriteOffset := WriteOffset j + 1\<rparr>) d' = journal_writes j d @ [Inr (stored_write w)] \<and>
     journal_blocks (j\<lparr>WriteOffset := WriteOffset j + 1\<rparr>) d' = journal_blocks j d \<and>
     OpenJournal d' = (if WriteOffset j + 1 = bufWritesCount (header j) then Inl ErrNoWriteSlots
       else if CorrectOffset j = corrBlocksCount (header j) then Inl ErrNoBlockSlots
       else Inr (j\<lparr>WriteOffset := WriteOffset j + 1\<rparr>), d')"
proof -
  obtain r d' where run: "WriteBufferWrite j (WriteOffset j) w d = (r, d')" by fastforce
  note a = journal_append_write [OF inv room w run]
  show ?thesis using OpenJournal_outcome [OF a(2)] a run by (intro exI [of _ d']) simp
qed

theorem append_write_survives_reopen_witness:
  "\<exists>d'. WriteBufferWrite demo_journal 0 demo_write demo_device = (Inr (), d') \<and>
     OpenJournal d' = (Inr (demo_journal\<lparr>WriteOffset := 1\<rparr>), d')"
  using append_write_survives_reopen [OF demo_inv demo_inv_room(1) demo_entry_fits(1,2)]
  by (auto simp: demo_journal_def demo_header_def)

text \<open>
  C8: The same for a correct block appended with \<^verbatim>\<open>WriteCorrectBlock\<close> at \<^verbatim>\<open>CorrectOffset\<close>, where a
  slot is free: the call succeeds and only the log of the blocks grows, by that block.
  \<^verbatim>\<open>OpenJournal\<close> finds both offsets again as long as the append does not fill its section and
  the section of the writes is not full; otherwise it refuses the journal.
\<close>

theorem append_block_survives_reopen:
  assumes inv: "journal_inv j d" and room: "CorrectOffset j < corrBlocksCount (header j)"
    and c: "block_fits (header j) c" "CorrectBlockInfo_IsValid c"
  shows "\<exists>d'. WriteCorrectBlock j (CorrectOffset j) c d = (Inr (), d') \<and>
     journal_blocks (j\<lparr>CorrectOffset := CorrectOffset j + 1\<rparr>) d' = journal_blocks j d @ [Inr (stored_block c)] \<and>
     journal_writes (j\<lparr>CorrectOffset := CorrectOffset j + 1\<rparr>) d' = journal_writes j d \<and>
     OpenJournal d' = (if WriteOffset j = bufWritesCount (header j) then Inl ErrNoWriteSlots
       else if CorrectOffset j + 1 = corrBlocksCount (header j) then Inl ErrNoBlockSlots
       else Inr (j\<lparr>CorrectOffset := CorrectOffset j + 1\<rparr>), d')"
proof -
  obtain r d' where run: "WriteCorrectBlock j (CorrectOffset j) c d = (r, d')" by fastforce
  note a = journal_append_block [OF inv room c run]
  show ?thesis using OpenJournal_outcome [OF a(2)] a run by (intro exI [of _ d']) simp
qed

theorem append_block_survives_reopen_witness:
  "\<exists>d'. WriteCorrectBlock demo_journal 0 demo_block demo_device = (Inr (), d') \<and>
     OpenJournal d' = (Inr (demo_journal\<lparr>CorrectOffset := 1\<rparr>), d')"
  using append_block_survives_reopen [OF demo_inv demo_inv_room(3) demo_entry_fits(3,4)]
  by (auto simp: demo_journal_def demo_header_def)

text \<open>
  C16: Creating a journal and resetting it, as the server does for a new client and at
  the start of its first scan, gives an empty, well-formed, invalid journal whatever bytes
  were on the device before: \<^verbatim>\<open>NewJournal\<close> sets both offsets to the number of slots, so
  \<^verbatim>\<open>ResetTo\<close> clears every slot of both sections.
\<close>

theorem new_journal_reset_empty:
  assumes new: "NewJournal d sw ws bs = Inr j" and "healthy d" and "dev_present d" and "dev_block d"
    and size: "64 \<le> length (dev_bytes d)" "length (dev_bytes d) < 2 ^ 63" and slots: "12 \<le> ws" "12 \<le> bs"
  shows "\<exists>j' d'. ResetTo j (WriteOffset j) (CorrectOffset j) d = (Inr (), j', d') \<and> journal_inv j' d' \<and>
     journal_writes j' d' = [] \<and> journal_blocks j' d' = [] \<and> \<not> Journal_IsValid j'"
proof -
  note n = NewJournal_layout [OF new size slots]
  obtain r j' d' where run: "ResetTo j (WriteOffset j) (CorrectOffset j) d = (r, j', d')" by (metis prod_cases3)
  have "free_after (header j) (dev_bytes d) (unat (WriteOffset j)) (unat (CorrectOffset j))"
    by (simp add: free_after_def n)
  then have "r = Inr () \<and> journal_inv j' d' \<and> WriteOffset j' = 0 \<and> CorrectOffset j' = 0 \<and> \<not> Journal_IsValid j'"
    using ResetTo_establishes [OF _ assms(3,4) n(2,3) _ _ _ run] n assms(2) by (simp add: journal_ready_def)
  then show ?thesis using run by (auto simp: journal_writes_def journal_blocks_def log_entries_def)
qed

definition demo_blank :: device where
  "demo_blank = \<lparr>dev_bytes = replicate 128 255, dev_faults = [], dev_present = True, dev_block = True\<rparr>"

theorem new_journal_reset_empty_witness:
  "\<exists>j d'. NewJournal demo_blank 32 16 16 = Inr j \<and>
     (\<exists>j'. ResetTo j (WriteOffset j) (CorrectOffset j) demo_blank = (Inr (), j', d') \<and> journal_inv j' d')"
proof -
  have "NewJournal demo_blank 32 16 16 = Inr (projr (NewJournal demo_blank 32 16 16))"
    by (simp add: NewJournal_def OpenFile_def GetDeviceSize_def GetHeaderByteSize_def demo_blank_def)
  from new_journal_reset_empty [OF this] this show ?thesis
    by (fastforce simp: demo_blank_def healthy_def)
qed

text \<open>\<^verbatim>\<open>Reset\<close> is \<^verbatim>\<open>ResetTo\<close> at the full section sizes, under any faults.\<close>

lemma Reset_ResetTo: "Reset j d = ResetTo j (bufWritesCount (header j)) (corrBlocksCount (header j)) d"
  by (auto simp: Reset_def ResetTo_def ClearWriteSection_def ClearWriteSectionTo_def
      ClearCorrectBlockSection_def ClearCorrectBlockSectionTo_def Let_def Invalidate_def setInvalidFlag_def
      split: sum.splits prod.splits)

text \<open>
  C32: On a device of at least 64 bytes \<^verbatim>\<open>NewJournal\<close> refuses exactly the parameters that
  do not fit: a write section larger than what the header leaves, or a size that is zero.
\<close>

theorem NewJournal_rejects:
  assumes "dev_present d" and "dev_block d" and "64 \<le> length (dev_bytes d)" "length (dev_bytes d) < 2 ^ 63"
  shows "NewJournal d sw ws bs = Inl ErrInvalidSize \<longleftrightarrow>
     length (dev_bytes d) < 64 + unat sw \<or> sw = 0 \<or> ws = 0 \<or> bs = 0"
  using assms by (rule NewJournal_rejects_iff)

theorem NewJournal_rejects_witness:
  "NewJournal demo_blank 65 16 16 = Inl ErrInvalidSize \<and> NewJournal demo_blank 64 16 16 \<noteq> Inl ErrInvalidSize"
  using NewJournal_rejects [of demo_blank 65 16 16] NewJournal_rejects [of demo_blank 64 16 16]
  by (simp add: demo_blank_def)

text \<open>
  C33: On a device shorter than the header the subtraction in the size check wraps around
  and \<^verbatim>\<open>NewJournal\<close> accepts a write section that starts beyond the end of the device.
\<close>

theorem NewJournal_short_device:
  assumes "dev_present d" and "dev_block d" and "length (dev_bytes d) < 64"
    and "0 < sw" and "sw \<le> 2 ^ 63" and "0 < ws" and "0 < bs"
  shows "\<exists>j. NewJournal d sw ws bs = Inr j \<and> length (dev_bytes d) < unat (bufWritesStartOffset (header j))"
proof -
  let ?n = "of_nat (length (dev_bytes d)) :: u64"
  have n: "unat ?n = length (dev_bytes d)" using assms(3) by (intro unat_device_size) simp
  then have "\<not> 64 \<le> ?n" using assms(3) by (simp add: word_le_nat_alt)
  then have "unat (?n - 64) = 2 ^ 64 + length (dev_bytes d) - 64"
    using n assms(3) by (simp add: unat_sub_if' word_le_nat_alt)
  moreover have "unat sw \<le> 2 ^ 63" using assms(5) by (simp add: word_le_nat_alt)
  ultimately have "\<not> sw > ?n - 64" by (simp add: word_less_nat_alt)
  then obtain j where "NewJournal d sw ws bs = Inr j" "bufWritesStartOffset (header j) = 64"
    using assms(1,2,4,6,7)
    by (auto simp: NewJournal_def OpenFile_def GetDeviceSize_def GetHeaderByteSize_def Let_def word_gt_0)
  then show ?thesis using assms(3) by auto
qed

theorem NewJournal_short_device_witness:
  "\<exists>j. NewJournal (demo_blank\<lparr>dev_bytes := replicate 3 1\<rparr>) 4096 16 16 = Inr j \<and> 3 < unat (bufWritesStartOffset (header j))"
  using NewJournal_short_device [of "demo_blank\<lparr>dev_bytes := replicate 3 1\<rparr>" 4096 16 16]
  by (simp add: demo_blank_def)

text \<open>
  C34: A journal whose write section is full cannot be opened: \<^verbatim>\<open>OpenJournal\<close> reports that
  there is no free slot, so a valid full journal is never recovered.
\<close>

theorem OpenJournal_full:
  assumes "journal_inv j d" and "WriteOffset j = bufWritesCount (header j)"
  shows "OpenJournal d = (Inl ErrNoWriteSlots, d)"
  using OpenJournal_outcome [OF assms(1)] assms(2) by simp

text \<open>Two buffered writes fill the two slots.\<close>

definition demo_full_device :: device where
  "demo_full_device = snd (WriteBufferWrite (demo_journal\<lparr>WriteOffset := 1\<rparr>) 1 demo_write
                        (snd (WriteBufferWrite demo_journal 0 demo_write demo_device)))"

theorem OpenJournal_full_witness: "OpenJournal demo_full_device = (Inl ErrNoWriteSlots, demo_full_device)"
proof (rule OpenJournal_full)
  let ?j1 = "demo_journal\<lparr>WriteOffset := 1\<rparr>"
  obtain r d where 1: "WriteBufferWrite demo_journal 0 demo_write demo_device = (r, d)" by fastforce
  have o: "WriteOffset demo_journal = 0" by (simp add: demo_journal_def)
  have inv1: "journal_inv ?j1 d"
    using journal_append_write(2) [OF demo_inv demo_inv_room(1) demo_entry_fits(1,2), of r d] 1 by (simp add: o)
  obtain r' d' where 2: "WriteBufferWrite ?j1 1 demo_write d = (r', d')" by fastforce
  have "journal_inv (demo_journal\<lparr>WriteOffset := 2\<rparr>) d'"
    using journal_append_write(2) [OF inv1, of demo_write r' d'] demo_inv_room(2) demo_entry_fits(1,2) 2 by (simp add: o)
  then show "journal_inv (demo_journal\<lparr>WriteOffset := 2\<rparr>) demo_full_device" using 1 2 by (simp add: demo_full_device_def)
  show "WriteOffset (demo_journal\<lparr>WriteOffset := 2\<rparr>) = bufWritesCount (header (demo_journal\<lparr>WriteOffset := 2\<rparr>))"
    by (simp add: demo_journal_def demo_header_def)
qed

text \<open>
  C35: Reading a slot panics exactly when the stored length does not fit the slot: the
  length read from the device is used as a slice bound unchecked.
\<close>

theorem deserialize_entry_panics:
  assumes "length b < 2 ^ 32"
  shows "deserialize_entry b = Inl Panic \<longleftrightarrow>
     length b < 12 \<or> (get_be (bslice 8 4 b) :: u32) \<noteq> 0 \<and> length b < 12 + unat (get_be (bslice 8 4 b) :: u32)"
proof -
  let ?s = "get_be (bslice 8 4 b) :: u32"
  have wrap: "12 + ?s < 12 \<or> unat (12 + ?s) > length b \<longleftrightarrow> length b < 12 + unat ?s" if "12 \<le> length b"
  proof (cases "12 + unat ?s < 2 ^ 32")
    case True
    then show ?thesis using unat_12_add [OF True] by (simp add: word_less_nat_alt)
  next
    case False
    have "unat (12 + ?s) = (12 + unat ?s) mod 2 ^ 32" by (simp add: unat_word_ariths)
    also have "\<dots> = 12 + unat ?s - 2 ^ 32"
      using False unsigned_less [of ?s, where ?'a = nat] by (simp add: mod_if)
    finally have "unat (12 + ?s) < 12" using unsigned_less [of ?s, where ?'a = nat] by simp
    then show ?thesis using False assms by (simp add: word_less_nat_alt)
  qed
  then show ?thesis by (auto simp: deserialize_entry_def Let_def word_gt_0)
qed

theorem deserialize_entry_panics_witness:
  "deserialize_entry [0, 0, 0, 0, 0, 0, 0, 0, 0, 0, 0, 5, 1, 2, 3, 4] = Inl Panic"
  using deserialize_entry_panics [of "[0, 0, 0, 0, 0, 0, 0, 0, 0, 0, 0, 5, 1, 2, 3, 4]"]
  by (simp add: bslice_def get_be_def)

end
