(* ===== verification/Replay.thy ===== *)
theory Replay
  imports BDR_Prelude
begin

text \<open>
  The algebra of replaying writes on a disk image.  A write is a pair of a byte offset
  and the data; \<open>replay\<close> applies a list of them in order.  Everything the recovery
  and scan arguments need is one fact: two images that agree outside the bytes a list
  of writes covers are equal after the list has been replayed on both
  (\<open>replay_absorbs\<close>).
\<close>

type_synonym disk_write = "nat \<times> bytes"

definition footprint :: "disk_write \<Rightarrow> nat set" where
  "footprint w = {fst w ..< fst w + length (snd w)}"

definition footprints :: "disk_write list \<Rightarrow> nat set" where
  "footprints ws = (\<Union>w \<in> set ws. footprint w)"

fun replay :: "disk_write list \<Rightarrow> bytes \<Rightarrow> bytes" where
  "replay [] img = img"
| "replay (w # ws) img = replay ws (overwrite (fst w) (snd w) img)"

definition agree_off :: "nat set \<Rightarrow> 'a list \<Rightarrow> 'a list \<Rightarrow> bool" where
  "agree_off S xs ys \<longleftrightarrow>
     length xs = length ys \<and> (\<forall>i < length xs. i \<notin> S \<longrightarrow> xs ! i = ys ! i)"

lemma footprints_simps [simp]:
  "footprints [] = {}"
  "footprints (w # ws) = footprint w \<union> footprints ws"
  "footprints (us @ ws) = footprints us \<union> footprints ws"
  by (auto simp: footprints_def)

lemma footprints_mono: "set us \<subseteq> set ws \<Longrightarrow> footprints us \<subseteq> footprints ws"
  by (auto simp: footprints_def)

lemma length_replay [simp]: "length (replay ws img) = length img"
  by (induction ws arbitrary: img) auto

lemma replay_append [simp]: "replay (us @ ws) img = replay ws (replay us img)"
  by (induction us arbitrary: img) auto

lemma agree_off_refl [simp, intro]: "agree_off S xs xs"
  by (simp add: agree_off_def)

lemma agree_off_sym: "agree_off S xs ys \<Longrightarrow> agree_off S ys xs"
  by (auto simp: agree_off_def)

lemma agree_off_trans: "agree_off S xs ys \<Longrightarrow> agree_off S ys zs \<Longrightarrow> agree_off S xs zs"
  by (auto simp: agree_off_def)

lemma agree_off_mono: "agree_off S xs ys \<Longrightarrow> S \<subseteq> T \<Longrightarrow> agree_off T xs ys"
  by (auto simp: agree_off_def)

lemma agree_off_length: "agree_off S xs ys \<Longrightarrow> length xs = length ys"
  by (simp add: agree_off_def)

lemma agree_off_empty: "agree_off {} xs ys \<Longrightarrow> xs = ys"
  by (auto simp: agree_off_def intro: nth_equalityI)

text \<open>A write, even one torn after some bytes, changes only its footprint.\<close>

lemma agree_off_overwrite:
  "length xs \<le> n \<Longrightarrow> {off ..< off + n} \<subseteq> S \<Longrightarrow> agree_off S (overwrite off xs img) img"
  by (auto simp: agree_off_def nth_overwrite subset_iff)

lemma agree_off_torn:
  assumes "agree_off S img img0" and "{off ..< off + length xs} \<subseteq> S"
  shows "agree_off S (overwrite off (take k xs) img) img0"
  using agree_off_trans [OF agree_off_overwrite assms(1), of "take k xs" "length xs"] assms(2)
  by simp

text \<open>The same write on both sides repairs its footprint.\<close>

lemma agree_off_both:
  "agree_off S xs ys \<Longrightarrow>
   agree_off (S - {off ..< off + length w}) (overwrite off w xs) (overwrite off w ys)"
  by (auto simp: agree_off_def nth_overwrite)

lemma agree_off_replay:
  "agree_off S xs ys \<Longrightarrow> agree_off (S - footprints ws) (replay ws xs) (replay ws ys)"
proof (induction ws arbitrary: S xs ys)
  case Nil
  then show ?case by simp
next
  case (Cons w ws)
  from agree_off_both [OF Cons.prems]
  have "agree_off (S - footprint w) (overwrite (fst w) (snd w) xs) (overwrite (fst w) (snd w) ys)"
    by (simp add: footprint_def)
  from Cons.IH [OF this] show ?case by (simp add: Diff_eq Int_assoc)
qed

lemma replay_within: "agree_off (footprints ws) (replay ws img) img"
proof (induction ws arbitrary: img)
  case Nil
  then show ?case by simp
next
  case (Cons w ws)
  have "agree_off (footprints (w # ws)) (overwrite (fst w) (snd w) img) img"
    by (rule agree_off_overwrite [OF order_refl]) (auto simp: footprint_def)
  moreover have "agree_off (footprints (w # ws)) (replay ws (overwrite (fst w) (snd w) img))
      (overwrite (fst w) (snd w) img)"
    by (rule agree_off_mono [OF Cons.IH]) auto
  ultimately show ?case by (auto intro: agree_off_trans)
qed

lemma replay_absorbs:
  assumes "agree_off S xs ys" and "S \<subseteq> footprints ws"
  shows "replay ws xs = replay ws ys"
proof -
  have "agree_off (S - footprints ws) (replay ws xs) (replay ws ys)"
    by (rule agree_off_replay [OF assms(1)])
  moreover have "S - footprints ws = {}" using assms(2) by blast
  ultimately show ?thesis by (simp add: agree_off_empty)
qed

lemma replay_idem: "replay ws (replay ws img) = replay ws img"
  by (rule replay_absorbs [OF replay_within order_refl])

end
