(* ===== verification/Benchmark.thy ===== *)
theory Benchmark
  imports BDR_Prelude
begin

text \<open>
  \<^verbatim>\<open>user/benchmark/benchmark.go\<close>: the performance counters.  A duration is the
  \<^verbatim>\<open>int64\<close> of \<^verbatim>\<open>time.Duration\<close>; the clock is outside the model, so a measured
  duration is an argument.  A recording function tests \<^verbatim>\<open>Up\<close>, which never changes, and then
  holds the mutex to its end, so each is one atomic step.
\<close>

record BenchmarkStats =
  Up :: bool
  TotalBytesWritten :: u64
  TotalPacketsSent :: u64
  HashingTime :: u64
  HashingBytes :: u64
  BufferOverflows :: u64
  ReconnectionEvents :: u64
  WritingTime :: u64

definition NewBenchmarkStats :: "bool \<Rightarrow> BenchmarkStats" where
  "NewBenchmarkStats up = \<lparr>Up = up, TotalBytesWritten = 0, TotalPacketsSent = 0, HashingTime = 0,
     HashingBytes = 0, BufferOverflows = 0, ReconnectionEvents = 0, WritingTime = 0\<rparr>"

definition RecordWrite :: "u64 \<Rightarrow> u64 \<Rightarrow> BenchmarkStats \<Rightarrow> BenchmarkStats" where
  "RecordWrite duration n bs = (if Up bs = False then bs
     else bs\<lparr>TotalBytesWritten := TotalBytesWritten bs + n,
             WritingTime := WritingTime bs + duration,
             TotalPacketsSent := TotalPacketsSent bs + 1\<rparr>)"

definition RecordHashing :: "u64 \<Rightarrow> u64 \<Rightarrow> BenchmarkStats \<Rightarrow> BenchmarkStats" where
  "RecordHashing duration n bs = (if Up bs = False then bs
     else bs\<lparr>HashingTime := HashingTime bs + duration, HashingBytes := HashingBytes bs + n\<rparr>)"

definition RecordBufferOverflow :: "BenchmarkStats \<Rightarrow> BenchmarkStats" where
  "RecordBufferOverflow bs = (if Up bs = False then bs
     else bs\<lparr>BufferOverflows := BufferOverflows bs + 1\<rparr>)"

definition RecordReconnection :: "BenchmarkStats \<Rightarrow> BenchmarkStats" where
  "RecordReconnection bs = (if Up bs = False then bs
     else bs\<lparr>ReconnectionEvents := ReconnectionEvents bs + 1\<rparr>)"

end
