(* ===== verification/Server.thy ===== *)
theory Server
  imports Journal_Log Replay Benchmark
begin

text \<open>
  \<^verbatim>\<open>user/server/server.go\<close>, the state of the server and the operations on the journal
  and the replica.  The record \<open>Server\<close> holds the fields of the Go struct; the target
  device and the device at \<^verbatim>\<open>Config.JournalPath\<close> are fields of it (they are two
  devices), the encoder is the list of packets it has sent together with the outcomes
  the connection has in store for the next sends, and \<^verbatim>\<open>TermChan\<close> is whether it has
  been closed; \<open>SrvConn\<close>, \<open>SrvListener\<close> and \<open>TargetOpen\<close> say whether the connection, the
  listener and the target's file are open.  Log output is not modelled.
\<close>

datatype ServerState =
    StateHashing
  | StateWriting
  | StateDisconnected
  | StateDestroyingReplica
  | StateJournalOverflow
  | StateReplicating

record Server =
  ClientInfo :: "InitInfo option"
  TargetDevFd :: device
  JournalDev :: device
  SrvJournal :: "Journal option"
  SrvStats :: BenchmarkStats
  SrvConnected :: bool
  SrvConn :: bool
  SrvListener :: bool
  TargetOpen :: bool
  SrvTerm :: bool
  sent :: "Packet list"
  sendFaults :: "go_error option list"
  sstate :: ServerState

definition GetState :: "Server \<Rightarrow> ServerState" where
  "GetState s = sstate s"

definition SetState :: "ServerState \<Rightarrow> Server \<Rightarrow> Server" where
  "SetState newState s = s\<lparr>sstate := newState\<rparr>"

text \<open>
  \<^verbatim>\<open>NewServer\<close> opens the target and then the TCP listener; whether \<^verbatim>\<open>net.Listen\<close>
  succeeds is an argument.  The journal device is only named by the configuration.
\<close>

definition NewServer :: "bool \<Rightarrow> bool \<Rightarrow> device \<Rightarrow> device \<Rightarrow> Server result" where
  "NewServer listens bench td jd = (case OpenFile td of
     Inl e \<Rightarrow> Inl (ErrMsg ''failed to open device'')
   | Inr u \<Rightarrow>
       if \<not> listens then Inl (ErrMsg ''failed to listen on port'')
       else Inr \<lparr>ClientInfo = None, TargetDevFd = td, JournalDev = jd, SrvJournal = None,
                 SrvStats = NewBenchmarkStats bench, SrvConnected = False, SrvConn = False,
                 SrvListener = True, TargetOpen = True, SrvTerm = False,
                 sent = [], sendFaults = [], sstate = StateDisconnected\<rparr>)"

text \<open>An error wrapped by \<^verbatim>\<open>fmt.Errorf\<close>; a panic is not an error and is not wrapped.\<close>

definition wrap :: "string \<Rightarrow> go_error \<Rightarrow> go_error" where
  "wrap msg e = (if e = Panic then Panic else ErrMsg msg)"

definition SendPacket :: "Packet \<Rightarrow> Server \<Rightarrow> unit result \<times> Server" where
  "SendPacket packet s = (case sendFaults s of
     [] \<Rightarrow> (Inr (), s\<lparr>sent := sent s @ [packet]\<rparr>)
   | None # fs \<Rightarrow> (Inr (), s\<lparr>sent := sent s @ [packet], sendFaults := fs\<rparr>)
   | Some e # fs \<Rightarrow> (Inl (ErrMsg (''SendPacket failed: '' @ Error e)), s\<lparr>sendFaults := fs\<rparr>))"

subsection \<open>Appending to the journal\<close>

definition WriteCorrectBlockToJournal :: "CorrectBlockInfo \<Rightarrow> Server \<Rightarrow> unit result \<times> Server" where
  "WriteCorrectBlockToJournal correctBlock s = (case SrvJournal s of
     None \<Rightarrow> (Inl Panic, s)
   | Some j \<Rightarrow> (case WriteCorrectBlock j (CorrectOffset j) correctBlock (JournalDev s) of
        (Inl e, jd) \<Rightarrow> (Inl e, s\<lparr>JournalDev := jd\<rparr>)
      | (Inr u, jd) \<Rightarrow>
          (Inr (), s\<lparr>JournalDev := jd, SrvJournal := Some (j\<lparr>CorrectOffset := CorrectOffset j + 1\<rparr>)\<rparr>)))"

definition WriteBufferWriteToJournal :: "WriteInfo \<Rightarrow> Server \<Rightarrow> unit result \<times> Server" where
  "WriteBufferWriteToJournal bufferWrite s = (case SrvJournal s of
     None \<Rightarrow> (Inl Panic, s)
   | Some j \<Rightarrow> (case WriteBufferWrite j (WriteOffset j) bufferWrite (JournalDev s) of
        (Inl e, jd) \<Rightarrow> (Inl e, s\<lparr>JournalDev := jd\<rparr>)
      | (Inr u, jd) \<Rightarrow>
          (Inr (), s\<lparr>JournalDev := jd, SrvJournal := Some (j\<lparr>WriteOffset := WriteOffset j + 1\<rparr>)\<rparr>)))"

definition HandleJournalBufferWrite :: "Packet \<Rightarrow> Server \<Rightarrow> unit result \<times> Server" where
  "HandleJournalBufferWrite packet s = (case PayloadOf packet of
     PWrite writeInfo \<Rightarrow> (case WriteBufferWriteToJournal writeInfo s of
        (Inl e, s1) \<Rightarrow> (Inl (wrap ''Cant write buffer write to replica'' e), s1)
      | (Inr u, s1) \<Rightarrow> (Inr (), s1))
   | _ \<Rightarrow> (Inl (ErrMsg ''Invalid payload type for WriteInfo''), s))"

definition HandleJournalCorrectBlock :: "Packet \<Rightarrow> Server \<Rightarrow> unit result \<times> Server" where
  "HandleJournalCorrectBlock packet s = (case PayloadOf packet of
     PCorrect correctInfo \<Rightarrow> (case WriteCorrectBlockToJournal correctInfo s of
        (Inl e, s1) \<Rightarrow> (Inl (wrap ''Cant write buffer write to replica'' e), s1)
      | (Inr u, s1) \<Rightarrow> (Inr (), s1))
   | _ \<Rightarrow> (Inl (ErrMsg ''invalid packet type for CorrectBlockInfo''), s))"

text \<open>
  What both cases of \<^verbatim>\<open>HandleJournalPackets\<close> do with the result: on an error the client
  is told that the journal overflowed (a failure to send is only logged) and the state
  becomes \<open>StateJournalOverflow\<close>.
\<close>

definition journal_overflow :: "unit result \<times> Server \<Rightarrow> unit result \<times> Server" where
  "journal_overflow rs = (case rs of
     (Inl e, s) \<Rightarrow>
       if e = Panic then (Inl Panic, s)
       else (Inr (), SetState StateJournalOverflow
               (snd (SendPacket (CreateInfoPacket PacketTypeErrJournalOverflow) s)))
   | (Inr u, s) \<Rightarrow> (Inr (), s))"

text \<open>One iteration of the \<^verbatim>\<open>HandleJournalPackets\<close> loop, and the loop over a queue.\<close>

definition HandleJournalPacket :: "Packet \<Rightarrow> Server \<Rightarrow> unit result \<times> Server" where
  "HandleJournalPacket packet s =
     (if GetState s = StateJournalOverflow then (Inr (), s)
      else case PacketTypeOf packet of
          PacketTypePayloadBufferWrite \<Rightarrow> journal_overflow (HandleJournalBufferWrite packet s)
        | PacketTypePayloadCorrectBlock \<Rightarrow> journal_overflow (HandleJournalCorrectBlock packet s)
        | _ \<Rightarrow> (Inr (), s))"

fun HandleJournalPackets :: "Packet list \<Rightarrow> Server \<Rightarrow> unit result \<times> Server" where
  "HandleJournalPackets [] s = (Inr (), s)"
| "HandleJournalPackets (p # ps) s = (case HandleJournalPacket p s of
     (Inl e, s1) \<Rightarrow> (Inl e, s1)
   | (Inr u, s1) \<Rightarrow> HandleJournalPackets ps s1)"

subsection \<open>Writing to the replica\<close>

text \<open>\<^verbatim>\<open>Data[:Size]\<close> panics when \<^verbatim>\<open>Size\<close> exceeds the slice.\<close>

definition data_prefix :: "WriteInfo \<Rightarrow> bytes result" where
  "data_prefix w = (if unat (wiSize w) \<le> length (wiData w)
     then Inr (take (unat (wiSize w)) (wiData w)) else Inl Panic)"

definition WriteCorrectBlockToReplica :: "CorrectBlockInfo \<Rightarrow> device \<Rightarrow> unit result \<times> device" where
  "WriteCorrectBlockToReplica correctBlock td =
     (case WriteAt (cbData correctBlock) (cbOffset correctBlock) td of
        (Inl e, td1) \<Rightarrow> (Inl (ErrMsg ''Failed to write buffer write to replica''), td1)
      | (Inr u, td1) \<Rightarrow> (Inr (), td1))"

definition WriteBufferWriteToReplica :: "WriteInfo \<Rightarrow> device \<Rightarrow> unit result \<times> device" where
  "WriteBufferWriteToReplica bufferWrite td = (case data_prefix bufferWrite of
     Inl e \<Rightarrow> (Inl e, td)
   | Inr dataToWrite \<Rightarrow> (case WriteAt dataToWrite (wiOffset bufferWrite) td of
        (Inl e, td1) \<Rightarrow> (Inl (ErrMsg ''Failed to write buffer write to device''), td1)
      | (Inr u, td1) \<Rightarrow> (Inr (), snd (Sync td1))))"

text \<open>
  A loop \<^verbatim>\<open>for i := uint64(0); i < n;\<close> over the slots of the journal that ends at the
  first error; \<open>n\<close> counts the iterations left.
\<close>

fun for_slots :: "(u64 \<Rightarrow> device \<Rightarrow> device \<Rightarrow> unit result \<times> device \<times> device) \<Rightarrow> nat \<Rightarrow> u64
    \<Rightarrow> device \<Rightarrow> device \<Rightarrow> unit result \<times> device \<times> device" where
  "for_slots body 0 i jd td = (Inr (), jd, td)"
| "for_slots body (Suc n) i jd td = (case body i jd td of
     (Inl e, jd1, td1) \<Rightarrow> (Inl e, jd1, td1)
   | (Inr u, jd1, td1) \<Rightarrow> for_slots body n (i + 1) jd1 td1)"

text \<open>
  The bodies of the two loops of \<^verbatim>\<open>WriteJournalToReplica\<close>: read slot \<open>i\<close> of the
  journal and write it to the target.
\<close>

definition apply_block :: "Journal \<Rightarrow> u64 \<Rightarrow> device \<Rightarrow> device \<Rightarrow> unit result \<times> device \<times> device" where
  "apply_block j i jd td = (case ReadCorrectBlock j i jd of
     (Inl e, jd1) \<Rightarrow> (Inl (wrap ''Cant read correct block from journal'' e), jd1, td)
   | (Inr correctBlock, jd1) \<Rightarrow>
       (case WriteAt (cbData correctBlock) (cbOffset correctBlock) td of
          (Inl e, td1) \<Rightarrow> (Inl (ErrMsg ''Cant write correct block''), jd1, td1)
        | (Inr u, td1) \<Rightarrow> (Inr (), jd1, td1)))"

definition apply_write :: "Journal \<Rightarrow> u64 \<Rightarrow> device \<Rightarrow> device \<Rightarrow> unit result \<times> device \<times> device" where
  "apply_write j i jd td = (case ReadBufferWrite j i jd of
     (Inl e, jd1) \<Rightarrow> (Inl (wrap ''Cant read buffer write from journal'' e), jd1, td)
   | (Inr bufferWrite, jd1) \<Rightarrow> (case data_prefix bufferWrite of
        Inl e \<Rightarrow> (Inl e, jd1, td)
      | Inr dataToWrite \<Rightarrow> (case WriteAt dataToWrite (wiOffset bufferWrite) td of
           (Inl e, td1) \<Rightarrow> (Inl (ErrMsg ''Cant write buffer write''), jd1, td1)
         | (Inr u, td1) \<Rightarrow> (Inr (), jd1, snd (Sync td1)))))"

text \<open>The result of \<^verbatim>\<open>Validate\<close> is not looked at.\<close>

definition WriteJournalToReplica :: "Server \<Rightarrow> unit result \<times> Server" where
  "WriteJournalToReplica s = (case SrvJournal s of
     None \<Rightarrow> (Inl Panic, s)
   | Some j0 \<Rightarrow>
      (let (v, j, jd0) = Validate j0 (JournalDev s) in
       case for_slots (apply_block j) (unat (CorrectOffset j)) 0 jd0 (TargetDevFd s) of
         (Inl e, jd1, td1) \<Rightarrow>
           (Inl e, s\<lparr>SrvJournal := Some j, JournalDev := jd1, TargetDevFd := td1\<rparr>)
       | (Inr u, jd1, td1) \<Rightarrow>
          (case for_slots (apply_write j) (unat (WriteOffset j)) 0 jd1 (snd (Sync td1)) of
             (Inl e, jd2, td2) \<Rightarrow>
               (Inl e, s\<lparr>SrvJournal := Some j, JournalDev := jd2, TargetDevFd := td2\<rparr>)
           | (Inr u, jd2, td2) \<Rightarrow>
              (let (r, j2, jd3) = Invalidate j jd2;
                   s2 = s\<lparr>SrvJournal := Some j2, JournalDev := jd3, TargetDevFd := td2\<rparr>
               in case r of
                    Inl e \<Rightarrow> (Inl (ErrMsg ''Cant invalidate the journal''), s2)
                  | Inr u \<Rightarrow> (Inr (), s2)))))"

text \<open>
  A failure to write the journal to the replica is reported to the client as a journal
  overflow; the function itself returns nothing (a panic ends the program).
\<close>

definition HandleJournalWriting :: "Server \<Rightarrow> unit result \<times> Server" where
  "HandleJournalWriting s =
     (if GetState s = StateDestroyingReplica then (Inr (), s)
      else case WriteJournalToReplica s of
          (Inl e, s1) \<Rightarrow>
            if e = Panic then (Inl Panic, s1)
            else (Inr (), snd (SendPacket (CreateInfoPacket PacketTypeErrJournalOverflow) s1))
        | (Inr u, s1) \<Rightarrow> (Inr (), s1))"

subsection \<open>Recovery at start-up\<close>

text \<open>
  The loop bodies of \<^verbatim>\<open>CopyJournalToReplica\<close>: the results of
  \<^verbatim>\<open>WriteCorrectBlockToReplica\<close> and \<^verbatim>\<open>WriteBufferWriteToReplica\<close> are discarded.
\<close>

definition copy_block :: "Journal \<Rightarrow> u64 \<Rightarrow> device \<Rightarrow> device \<Rightarrow> unit result \<times> device \<times> device" where
  "copy_block jrn i jd td = (case ReadCorrectBlock jrn i jd of
     (Inl e, jd1) \<Rightarrow> (Inl (wrap ''Failed to copy journal to replica'' e), jd1, td)
   | (Inr correctBlock, jd1) \<Rightarrow>
       (Inr (), jd1, snd (WriteCorrectBlockToReplica correctBlock td)))"

definition copy_write :: "Journal \<Rightarrow> u64 \<Rightarrow> device \<Rightarrow> device \<Rightarrow> unit result \<times> device \<times> device" where
  "copy_write jrn i jd td = (case ReadBufferWrite jrn i jd of
     (Inl e, jd1) \<Rightarrow> (Inl (wrap ''Failed to copy journal to replica'' e), jd1, td)
   | (Inr bufferWrite, jd1) \<Rightarrow> (case WriteBufferWriteToReplica bufferWrite td of
        (r, td1) \<Rightarrow> (if r = Inl Panic then Inl Panic else Inr (), jd1, td1)))"

definition CopyJournalToReplica :: "Journal \<Rightarrow> Server \<Rightarrow> unit result \<times> Server" where
  "CopyJournalToReplica jrn s =
     (case for_slots (copy_block jrn) (unat (CorrectOffset jrn)) 0 (JournalDev s) (TargetDevFd s) of
        (Inl e, jd1, td1) \<Rightarrow> (Inl e, s\<lparr>JournalDev := jd1, TargetDevFd := td1\<rparr>)
      | (Inr u, jd1, td1) \<Rightarrow>
         (case for_slots (copy_write jrn) (unat (WriteOffset jrn)) 0 jd1 (snd (Sync td1)) of
            (Inl e, jd2, td2) \<Rightarrow> (Inl e, s\<lparr>JournalDev := jd2, TargetDevFd := td2\<rparr>)
          | (Inr u, jd2, td2) \<Rightarrow>
              (let (r, j2, jd3) = Invalidate jrn jd2
               in (Inr (), s\<lparr>JournalDev := jd3, TargetDevFd := td2\<rparr>))))"

definition CheckJournal :: "Server \<Rightarrow> unit result \<times> Server" where
  "CheckJournal s = (case OpenJournal (JournalDev s) of
     (Inl e, jd) \<Rightarrow> (if e = Panic then Inl Panic else Inr (), s\<lparr>JournalDev := jd\<rparr>)
   | (Inr jrn, jd) \<Rightarrow>
      (let s1 = s\<lparr>JournalDev := jd\<rparr> in
       if \<not> Journal_IsValid jrn then (Inr (), s1)
       else case CopyJournalToReplica jrn s1 of
           (Inl e, s2) \<Rightarrow> (Inl (wrap ''Failed to copy journal to replica'' e), s2)
         | (Inr u, s2) \<Rightarrow> (Inr (), s2)))"

end
