(* ===== verification/Recovery.thy ===== *)
theory Recovery
  imports Server
begin

text \<open>
  Crash safety of the journal.  \<open>journal_ops\<close> is what a journal says should be written
  to the target: its correct blocks, then its buffered writes.  The locales
  \<open>journal_copy\<close> and \<open>journal_apply\<close> are the contracts of one iteration of the loops of
  \<^verbatim>\<open>CopyJournalToReplica\<close> and \<^verbatim>\<open>WriteJournalToReplica\<close>; they are interpreted on the
  four loop bodies of the server.
\<close>

text \<open>The device after a restart: the same bytes, no pending faults.\<close>

definition reboot :: "device \<Rightarrow> device" where
  "reboot d = d\<lparr>dev_faults := []\<rparr>"

definition block_op :: "CorrectBlockInfo \<Rightarrow> disk_write" where
  "block_op c = (unat (cbOffset c), cbData c)"

definition write_op :: "WriteInfo \<Rightarrow> disk_write" where
  "write_op w = (unat (wiOffset w), take (unat (wiSize w)) (wiData w))"

definition block_op_at :: "Header \<Rightarrow> bytes \<Rightarrow> nat \<Rightarrow> disk_write" where
  "block_op_at h b k = block_op (projr (cslot h b k))"

definition write_op_at :: "Header \<Rightarrow> bytes \<Rightarrow> nat \<Rightarrow> disk_write" where
  "write_op_at h b k = write_op (projr (wslot h b k))"

definition journal_ops :: "Journal \<Rightarrow> bytes \<Rightarrow> disk_write list" where
  "journal_ops j b = map (block_op_at (header j) b) [0..<unat (CorrectOffset j)]
                   @ map (write_op_at (header j) b) [0..<unat (WriteOffset j)]"

subsection \<open>Devices under faults\<close>

lemma reboot_simps [simp]:
  "dev_bytes (reboot d) = dev_bytes d" "dev_present (reboot d) = dev_present d"
  "dev_block (reboot d) = dev_block d" "healthy (reboot d)" "reboot (reboot d) = reboot d"
  "healthy d \<Longrightarrow> reboot d = d"
  by (simp_all add: reboot_def healthy_def)

lemma reboot_put [simp]: "reboot (put_bytes off b d) = put_bytes off b (reboot d)"
  by (simp add: reboot_def put_bytes_def)

lemma next_fault_reboot: "next_fault d = (f, d1) \<Longrightarrow> reboot d1 = reboot d"
  by (auto simp: next_fault_def reboot_def split: list.splits)

lemma ReadAt_reboot: "ReadAt n off d = (r, d1) \<Longrightarrow> reboot d1 = reboot d"
  by (auto simp: ReadAt_def split: if_splits prod.splits option.splits dest: next_fault_reboot)

lemma Sync_reboot: "Sync d = (r, d1) \<Longrightarrow> reboot d1 = reboot d"
  by (auto simp: Sync_def split: prod.splits option.splits dest: next_fault_reboot)

lemma dev_bytes_Sync [simp]: "dev_bytes (snd (Sync d)) = dev_bytes d"
  using Sync_bytes [of d] by (metis prod.collapse)

lemma WriteAt_reboot:
  assumes "WriteAt b off d = (r, d1)"
  obtains k where "reboot d1 = put_bytes (unat off) (take k b) (reboot d)" and "r = Inr () \<Longrightarrow> length b \<le> k"
proof -
  obtain f d' where f: "next_fault d = (f, d')" by fastforce
  show ?thesis
  proof (cases "sint off < 0 \<or> b = []")
    case True
    then show ?thesis using assms that [of 0] by (auto simp: WriteAt_def put_bytes_def split: if_splits)
  next
    case False
    then show ?thesis using assms f that [of "length b"] that next_fault_reboot [OF f]
      by (auto simp: WriteAt_def split: option.splits)
  qed
qed

lemma WriteAt_present: "WriteAt b off d = (r, d1) \<Longrightarrow> dev_present d1 = dev_present d"
  by (auto simp: WriteAt_def dest: next_fault_bytes split: if_splits prod.splits option.splits)

lemma dev_present_Sync [simp]: "dev_present (snd (Sync d)) = dev_present d"
  by (auto simp: Sync_def dest: next_fault_bytes split: prod.splits option.splits)

lemma ReadCorrectBlock_reboot: "ReadCorrectBlock j i d = (r, d1) \<Longrightarrow> reboot d1 = reboot d"
  by (auto simp: ReadCorrectBlock_def Let_def split: if_splits prod.splits option.splits dest: ReadAt_reboot)

lemma ReadBufferWrite_reboot: "ReadBufferWrite j i d = (r, d1) \<Longrightarrow> reboot d1 = reboot d"
  by (auto simp: ReadBufferWrite_def Let_def split: if_splits prod.splits option.splits dest: ReadAt_reboot)

text \<open>A write to a healthy device stores what fits, even when it reports an error.\<close>

lemma WriteAt_stores:
  assumes "healthy d" and "length (dev_bytes d) < 2 ^ 63"
  shows "snd (WriteAt b off d) = put_bytes (unat off) b d"
proof (cases "unat off < 2 ^ 63")
  case True
  then show ?thesis using assms(1) by (auto simp: WriteAt_def put_bytes_def)
next
  case False
  then have "overwrite (unat off) b (dev_bytes d) = dev_bytes d"
    using assms(2) by (simp add: overwrite_def)
  then show ?thesis using assms(1) by (simp add: WriteAt_def put_bytes_def)
qed

subsection \<open>One iteration of a loop over the journal\<close>

lemma upt_split: "m < n \<Longrightarrow> [m..<n] = m # [Suc m..<n]"
  by (simp add: upt_rec)

locale journal_loop =
  fixes body :: "u64 \<Rightarrow> device \<Rightarrow> device \<Rightarrow> unit result \<times> device \<times> device"
    and op :: "bytes \<Rightarrow> nat \<Rightarrow> disk_write"
    and ok :: "bytes \<Rightarrow> nat \<Rightarrow> bool"
  assumes body_reboot: "body i jd td = (r, jd1, td1) \<Longrightarrow> reboot jd1 = reboot jd"
    and body_present: "body i jd td = (r, jd1, td1) \<Longrightarrow> dev_present td1 = dev_present td"
    and ok_u64: "ok b n \<Longrightarrow> n < 2 ^ 64"
begin

lemma loop_reboot: "for_slots body m i jd td = (r, jd1, td1) \<Longrightarrow> reboot jd1 = reboot jd"
  by (induction m arbitrary: i jd td) (auto split: prod.splits sum.splits dest: body_reboot)

lemma loop_present: "for_slots body m i jd td = (r, jd1, td1) \<Longrightarrow> dev_present td1 = dev_present td"
  by (induction m arbitrary: i jd td) (auto split: prod.splits sum.splits dest: body_present)

lemma next_index:
  fixes i :: u64
  assumes "ok b n" and "unat i + Suc m = n"
  shows "unat (i + 1) = Suc (unat i)" and "unat (i + 1) + m = n" and "unat i < n"
proof -
  have "unat i + 1 < 2 ^ 64" using ok_u64 [OF assms(1)] assms(2) by simp
  then show "unat (i + 1) = Suc (unat i)" using unat_add_lem [of i 1] by simp
  then show "unat (i + 1) + m = n" "unat i < n" using assms(2) by simp_all
qed

lemma body_bytes: "body i jd td = (r, jd1, td1) \<Longrightarrow> dev_bytes jd1 = dev_bytes jd"
  using body_reboot [of i jd td r jd1 td1] by (metis reboot_simps(1))

end

text \<open>A body that stores its entry on a healthy target, whatever the entry.\<close>

locale journal_copy = journal_loop +
  assumes body_copies: "ok (dev_bytes jd) n \<Longrightarrow> unat i < n \<Longrightarrow> healthy jd \<Longrightarrow> healthy td \<Longrightarrow>
    length (dev_bytes td) < 2 ^ 63 \<Longrightarrow>
    body i jd td = (Inr (), jd, put_bytes (fst (op (dev_bytes jd) (unat i))) (snd (op (dev_bytes jd) (unat i))) td)"
begin

lemma loop_copies:
  assumes "ok (dev_bytes jd) n" and "unat i + m = n" and "healthy jd" and "healthy td"
    and "length (dev_bytes td) < 2 ^ 63"
  shows "for_slots body m i jd td
    = (Inr (), jd, td\<lparr>dev_bytes := replay (map (op (dev_bytes jd)) [unat i..<n]) (dev_bytes td)\<rparr>)"
  using assms
proof (induction m arbitrary: i td)
  case 0
  then show ?case by simp
next
  case (Suc m)
  note ix = next_index [OF Suc.prems(1,2)]
  let ?o = "op (dev_bytes jd) (unat i)" and ?td = "put_bytes (fst (op (dev_bytes jd) (unat i))) (snd (op (dev_bytes jd) (unat i))) td"
  have "for_slots body (Suc m) i jd td = for_slots body m (i + 1) jd ?td"
    using body_copies [OF Suc.prems(1) ix(3) Suc.prems(3-5)] by simp
  also have "\<dots> = (Inr (), jd, ?td\<lparr>dev_bytes := replay (map (op (dev_bytes jd)) [unat (i + 1)..<n]) (dev_bytes ?td)\<rparr>)"
    by (rule Suc.IH [OF Suc.prems(1) ix(2)]) (use Suc.prems in simp_all)
  finally show ?case using upt_split [OF ix(3)] by (simp add: ix(1) put_bytes_def)
qed

end

text \<open>
  A body that stops at the first fault: it leaves a prefix of its entry on the target,
  all of it when it succeeds.
\<close>

locale journal_apply = journal_loop +
  assumes body_torn: "ok (dev_bytes jd) n \<Longrightarrow> unat i < n \<Longrightarrow> body i jd td = (r, jd1, td1) \<Longrightarrow>
    \<exists>k. dev_bytes td1 = overwrite (fst (op (dev_bytes jd) (unat i))) (take k (snd (op (dev_bytes jd) (unat i)))) (dev_bytes td)
      \<and> (r = Inr () \<longrightarrow> length (snd (op (dev_bytes jd) (unat i))) \<le> k)"
    and body_fits: "ok (dev_bytes jd) n \<Longrightarrow> unat i < n \<Longrightarrow> healthy jd \<Longrightarrow> healthy td \<Longrightarrow>
    length (dev_bytes td) < 2 ^ 63 \<Longrightarrow>
    fst (op (dev_bytes jd) (unat i)) + length (snd (op (dev_bytes jd) (unat i))) \<le> length (dev_bytes td) \<Longrightarrow>
    body i jd td = (Inr (), jd, put_bytes (fst (op (dev_bytes jd) (unat i))) (snd (op (dev_bytes jd) (unat i))) td)"
begin

lemma loop_torn:
  assumes "ok (dev_bytes jd) n" and "unat i + m = n" and "for_slots body m i jd td = (r, jd1, td1)"
  shows "agree_off (footprints (map (op (dev_bytes jd)) [unat i..<n])) (dev_bytes td1) (dev_bytes td)"
    and "r = Inr () \<Longrightarrow> dev_bytes td1 = replay (map (op (dev_bytes jd)) [unat i..<n]) (dev_bytes td)"
proof -
  have "agree_off (footprints (map (op (dev_bytes jd)) [unat i..<n])) (dev_bytes td1) (dev_bytes td) \<and>
    (r = Inr () \<longrightarrow> dev_bytes td1 = replay (map (op (dev_bytes jd)) [unat i..<n]) (dev_bytes td))"
    using assms
  proof (induction m arbitrary: i jd td)
    case 0
    then show ?case by simp
  next
    case (Suc m)
    note ix = next_index [OF Suc.prems(1,2)]
    let ?o = "op (dev_bytes jd) (unat i)" and ?rest = "map (op (dev_bytes jd)) [Suc (unat i)..<n]"
    obtain r' jd' td' where b: "body i jd td = (r', jd', td')" by (cases "body i jd td") auto
    from body_torn [OF Suc.prems(1) ix(3) b] obtain k where
      k: "dev_bytes td' = overwrite (fst ?o) (take k (snd ?o)) (dev_bytes td)" "r' = Inr () \<longrightarrow> length (snd ?o) \<le> k"
      by blast
    have off: "agree_off (footprint ?o \<union> footprints ?rest) (dev_bytes td') (dev_bytes td)"
      unfolding k(1) by (rule agree_off_torn) (auto simp: footprint_def)
    show ?case
    proof (cases r')
      case (Inl e)
      then show ?thesis using Suc.prems(3) b off upt_split [OF ix(3)] by auto
    next
      case (Inr u)
      have run: "for_slots body m (i + 1) jd' td' = (r, jd1, td1)" using Suc.prems(3) b Inr by simp
      have jb: "dev_bytes jd' = dev_bytes jd" by (rule body_bytes [OF b])
      have ih: "agree_off (footprints ?rest) (dev_bytes td1) (dev_bytes td')"
        "r = Inr () \<longrightarrow> dev_bytes td1 = replay ?rest (dev_bytes td')"
        using Suc.IH [OF _ ix(2) run] Suc.prems(1) by (simp_all add: jb ix(1))
      have "agree_off (footprint ?o \<union> footprints ?rest) (dev_bytes td1) (dev_bytes td)"
        by (rule agree_off_trans [OF agree_off_mono [OF ih(1)] off]) blast
      then show ?thesis using ih(2) k Inr upt_split [OF ix(3)] by simp
    qed
  qed
  then show "agree_off (footprints (map (op (dev_bytes jd)) [unat i..<n])) (dev_bytes td1) (dev_bytes td)"
    "r = Inr () \<Longrightarrow> dev_bytes td1 = replay (map (op (dev_bytes jd)) [unat i..<n]) (dev_bytes td)" by blast+
qed

lemma loop_fits:
  assumes "ok (dev_bytes jd) n" and "unat i + m = n" and "healthy jd" and "healthy td"
    and "length (dev_bytes td) < 2 ^ 63"
    and "\<forall>k. unat i \<le> k \<and> k < n \<longrightarrow>
      fst (op (dev_bytes jd) k) + length (snd (op (dev_bytes jd) k)) \<le> length (dev_bytes td)"
  shows "for_slots body m i jd td
    = (Inr (), jd, td\<lparr>dev_bytes := replay (map (op (dev_bytes jd)) [unat i..<n]) (dev_bytes td)\<rparr>)"
  using assms
proof (induction m arbitrary: i td)
  case 0
  then show ?case by simp
next
  case (Suc m)
  note ix = next_index [OF Suc.prems(1,2)]
  let ?o = "op (dev_bytes jd) (unat i)" and ?td = "put_bytes (fst (op (dev_bytes jd) (unat i))) (snd (op (dev_bytes jd) (unat i))) td"
  have "for_slots body (Suc m) i jd td = for_slots body m (i + 1) jd ?td"
    using body_fits [OF Suc.prems(1) ix(3) Suc.prems(3-5)] Suc.prems(6) ix(3) by simp
  also have "\<dots> = (Inr (), jd, ?td\<lparr>dev_bytes := replay (map (op (dev_bytes jd)) [unat (i + 1)..<n]) (dev_bytes ?td)\<rparr>)"
    by (rule Suc.IH [OF Suc.prems(1) ix(2)]) (use Suc.prems in \<open>simp_all add: ix(1)\<close>)
  finally show ?case using upt_split [OF ix(3)] by (simp add: ix(1) put_bytes_def)
qed

end

subsection \<open>The loop bodies of the server\<close>

definition blocks_ok :: "Header \<Rightarrow> bytes \<Rightarrow> nat \<Rightarrow> bool" where
  "blocks_ok h b n \<longleftrightarrow> layout_ok h (length b) \<and> n \<le> unat (corrBlocksCount h) \<and>
     (\<forall>k < n. \<exists>c. cslot h b k = Inr c)"

definition writes_ok :: "Header \<Rightarrow> bytes \<Rightarrow> nat \<Rightarrow> bool" where
  "writes_ok h b n \<longleftrightarrow> layout_ok h (length b) \<and> n \<le> unat (bufWritesCount h) \<and>
     (\<forall>k < n. \<exists>w. wslot h b k = Inr w)"

lemma deserialize_entry_length:
  assumes "deserialize_entry b = Inr (off, sz, data)"
  shows "length data = unat sz"
proof (cases "sz > 0")
  case True
  then have s: "sz = get_be (bslice 8 4 b)" "data = bslice 12 (unat sz) b"
    "\<not> 12 + sz < 12" "unat (12 + sz) \<le> length b"
    using assms by (auto simp: deserialize_entry_def Let_def split: if_splits)
  have "unat (12 + sz) = 12 + unat sz"
    using s(3) unat_plus_simple [of 12 sz] by (simp add: linorder_not_less)
  then show ?thesis using s by simp
next
  case False
  then show ?thesis using assms
    by (auto simp: deserialize_entry_def Let_def word_gt_0 split: if_splits)
qed

lemma wslot_data: "wslot h b k = Inr w \<Longrightarrow> data_prefix w = Inr (snd (write_op w)) \<and> snd (write_op w) = wiData w"
  by (auto simp: wslot_def deserializeWriteInfo_def data_prefix_def write_op_def
      dest: deserialize_entry_length split: sum.splits)

lemma ReadCorrectBlock_ok:
  assumes "blocks_ok (header j) (dev_bytes d) n" and "unat i < n" and "ReadCorrectBlock j i d = (r, d1)"
  obtains "r = Inl ErrIOFailure"
  | c where "r = Inr c" and "block_op_at (header j) (dev_bytes d) (unat i) = block_op c"
  using ReadCorrectBlock_any [OF _ _ assms(3)] assms(1,2) that
  by (auto simp: blocks_ok_def block_op_at_def)

lemma ReadBufferWrite_ok:
  assumes "writes_ok (header j) (dev_bytes d) n" and "unat i < n" and "ReadBufferWrite j i d = (r, d1)"
  obtains "r = Inl ErrIOFailure"
  | w where "r = Inr w" and "write_op_at (header j) (dev_bytes d) (unat i) = write_op w"
      and "data_prefix w = Inr (snd (write_op w))"
  using ReadBufferWrite_any [OF _ _ assms(3)] assms(1,2) that wslot_data
  by (fastforce simp: writes_ok_def write_op_at_def)

lemma healthy_reads:
  assumes "healthy d"
  shows "blocks_ok (header j) (dev_bytes d) n \<Longrightarrow> unat i < n \<Longrightarrow>
      \<exists>c. ReadCorrectBlock j i d = (Inr c, d) \<and> block_op_at (header j) (dev_bytes d) (unat i) = block_op c"
    and "writes_ok (header j) (dev_bytes d) n \<Longrightarrow> unat i < n \<Longrightarrow>
      \<exists>w. ReadBufferWrite j i d = (Inr w, d) \<and> write_op_at (header j) (dev_bytes d) (unat i) = write_op w
        \<and> data_prefix w = Inr (snd (write_op w))"
  using ReadCorrectBlock_healthy [OF assms, of j i] ReadBufferWrite_healthy [OF assms, of j i]
  by (fastforce simp: blocks_ok_def writes_ok_def block_op_at_def write_op_at_def dest: wslot_data)+

lemma slots_ok_u64:
  "blocks_ok h b n \<Longrightarrow> n < 2 ^ 64" "writes_ok h b n \<Longrightarrow> n < 2 ^ 64"
  using unsigned_less [of "corrBlocksCount h", where ?'a = nat] unsigned_less [of "bufWritesCount h", where ?'a = nat]
  by (auto simp: blocks_ok_def writes_ok_def)

interpretation cpb: journal_copy "copy_block j" "block_op_at (header j)" "blocks_ok (header j)" for j
proof unfold_locales
  fix i jd td r jd1 td1
  assume "copy_block j i jd td = (r, jd1, td1)"
  then show "reboot jd1 = reboot jd"
    by (auto simp: copy_block_def split: prod.splits sum.splits dest: ReadCorrectBlock_reboot)
next
  fix i jd td r jd1 td1
  assume "copy_block j i jd td = (r, jd1, td1)"
  then show "dev_present td1 = dev_present td"
    by (auto simp: copy_block_def WriteCorrectBlockToReplica_def dest: WriteAt_present split: prod.splits sum.splits)
next
  fix b n
  assume "blocks_ok (header j) b n"
  then show "n < 2 ^ 64" by (rule slots_ok_u64)
next
  fix jd td :: device and i :: u64 and n
  let ?o = "block_op_at (header j) (dev_bytes jd) (unat i)"
  assume h: "blocks_ok (header j) (dev_bytes jd) n" "unat i < n" "healthy jd" "healthy td" "length (dev_bytes td) < 2 ^ 63"
  obtain c where c: "ReadCorrectBlock j i jd = (Inr c, jd)" "?o = block_op c"
    using healthy_reads(1) [OF h(3,1,2)] by blast
  have "snd (WriteCorrectBlockToReplica c td) = put_bytes (fst ?o) (snd ?o) td"
    using WriteAt_stores [OF h(4,5), of "cbData c" "cbOffset c"]
    by (auto simp: WriteCorrectBlockToReplica_def c(2) block_op_def split: prod.splits sum.splits)
  then show "copy_block j i jd td = (Inr (), jd, put_bytes (fst ?o) (snd ?o) td)"
    by (simp add: copy_block_def c(1))
qed

interpretation cpw: journal_copy "copy_write j" "write_op_at (header j)" "writes_ok (header j)" for j
proof unfold_locales
  fix i jd td r jd1 td1
  assume "copy_write j i jd td = (r, jd1, td1)"
  then show "reboot jd1 = reboot jd"
    by (auto simp: copy_write_def split: prod.splits sum.splits dest: ReadBufferWrite_reboot)
next
  fix i jd td r jd1 td1
  assume "copy_write j i jd td = (r, jd1, td1)"
  then show "dev_present td1 = dev_present td"
    by (auto simp: copy_write_def WriteBufferWriteToReplica_def dest: WriteAt_present split: prod.splits sum.splits)
next
  fix b n
  assume "writes_ok (header j) b n"
  then show "n < 2 ^ 64" by (rule slots_ok_u64)
next
  fix jd td :: device and i :: u64 and n
  let ?o = "write_op_at (header j) (dev_bytes jd) (unat i)"
  assume h: "writes_ok (header j) (dev_bytes jd) n" "unat i < n" "healthy jd" "healthy td" "length (dev_bytes td) < 2 ^ 63"
  obtain w where w: "ReadBufferWrite j i jd = (Inr w, jd)" "?o = write_op w" "data_prefix w = Inr (snd (write_op w))"
    using healthy_reads(2) [OF h(3,1,2)] by blast
  have st: "snd (WriteAt (snd (write_op w)) (wiOffset w) td) = put_bytes (fst ?o) (snd ?o) td"
    using WriteAt_stores [OF h(4,5), of "snd (write_op w)" "wiOffset w"] by (simp add: w(2) write_op_def)
  obtain r where "WriteBufferWriteToReplica w td = (r, put_bytes (fst ?o) (snd ?o) td)" "r \<noteq> Inl Panic"
    using st h(4) by (cases "WriteAt (snd (write_op w)) (wiOffset w) td"; cases "fst (WriteAt (snd (write_op w)) (wiOffset w) td)")
      (auto simp: WriteBufferWriteToReplica_def w(3))
  then show "copy_write j i jd td = (Inr (), jd, put_bytes (fst ?o) (snd ?o) td)"
    by (simp add: copy_write_def w(1))
qed

lemma WriteAt_prefix:
  assumes "WriteAt b off d = (r, d1)"
  obtains k where "dev_bytes d1 = overwrite (unat off) (take k b) (dev_bytes d)" and "r = Inr () \<Longrightarrow> length b \<le> k"
  using WriteAt_reboot [OF assms] by (metis dev_bytes_put reboot_simps(1))

interpretation apb: journal_apply "apply_block j" "block_op_at (header j)" "blocks_ok (header j)" for j
proof unfold_locales
  fix i jd td r jd1 td1
  assume "apply_block j i jd td = (r, jd1, td1)"
  then show "reboot jd1 = reboot jd"
    by (auto simp: apply_block_def split: prod.splits sum.splits dest: ReadCorrectBlock_reboot)
next
  fix i jd td r jd1 td1
  assume "apply_block j i jd td = (r, jd1, td1)"
  then show "dev_present td1 = dev_present td"
    by (auto simp: apply_block_def dest: WriteAt_present split: prod.splits sum.splits)
next
  fix b n
  assume "blocks_ok (header j) b n"
  then show "n < 2 ^ 64" by (rule slots_ok_u64)
next
  fix jd td jd1 td1 :: device and i :: u64 and n r
  let ?o = "block_op_at (header j) (dev_bytes jd) (unat i)"
  assume h: "blocks_ok (header j) (dev_bytes jd) n" "unat i < n" "apply_block j i jd td = (r, jd1, td1)"
  obtain r' jd' where rd: "ReadCorrectBlock j i jd = (r', jd')" by fastforce
  from h(1,2) rd show "\<exists>k. dev_bytes td1 = overwrite (fst ?o) (take k (snd ?o)) (dev_bytes td)
      \<and> (r = Inr () \<longrightarrow> length (snd ?o) \<le> k)"
  proof (cases rule: ReadCorrectBlock_ok)
    case 1
    then show ?thesis using h(3) rd by (auto simp: apply_block_def intro: exI [of _ 0])
  next
    case (2 c)
    obtain r2 td2 where w: "WriteAt (cbData c) (cbOffset c) td = (r2, td2)" by fastforce
    from WriteAt_prefix [OF w] obtain k where
      "dev_bytes td2 = overwrite (unat (cbOffset c)) (take k (cbData c)) (dev_bytes td)" "r2 = Inr () \<Longrightarrow> length (cbData c) \<le> k"
      by blast
    then show ?thesis using h(3) rd 2 w
      by (intro exI [of _ k]) (auto simp: apply_block_def block_op_def split: sum.splits)
  qed
next
  fix jd td :: device and i :: u64 and n
  let ?o = "block_op_at (header j) (dev_bytes jd) (unat i)"
  assume h: "blocks_ok (header j) (dev_bytes jd) n" "unat i < n" "healthy jd" "healthy td" "length (dev_bytes td) < 2 ^ 63"
    "fst ?o + length (snd ?o) \<le> length (dev_bytes td)"
  obtain c where c: "ReadCorrectBlock j i jd = (Inr c, jd)" "?o = block_op c"
    using healthy_reads(1) [OF h(3,1,2)] by blast
  then show "apply_block j i jd td = (Inr (), jd, put_bytes (fst ?o) (snd ?o) td)"
    using WriteAt_ok [OF h(4) _ h(5), of "cbOffset c" "cbData c"] h(6) by (simp add: apply_block_def block_op_def)
qed

interpretation apw: journal_apply "apply_write j" "write_op_at (header j)" "writes_ok (header j)" for j
proof unfold_locales
  fix i jd td r jd1 td1
  assume "apply_write j i jd td = (r, jd1, td1)"
  then show "reboot jd1 = reboot jd"
    by (auto simp: apply_write_def split: prod.splits sum.splits dest: ReadBufferWrite_reboot)
next
  fix i jd td r jd1 td1
  assume "apply_write j i jd td = (r, jd1, td1)"
  then show "dev_present td1 = dev_present td"
    by (auto simp: apply_write_def dest: WriteAt_present split: prod.splits sum.splits)
next
  fix b n
  assume "writes_ok (header j) b n"
  then show "n < 2 ^ 64" by (rule slots_ok_u64)
next
  fix jd td jd1 td1 :: device and i :: u64 and n r
  let ?o = "write_op_at (header j) (dev_bytes jd) (unat i)"
  assume h: "writes_ok (header j) (dev_bytes jd) n" "unat i < n" "apply_write j i jd td = (r, jd1, td1)"
  obtain r' jd' where rd: "ReadBufferWrite j i jd = (r', jd')" by fastforce
  from h(1,2) rd show "\<exists>k. dev_bytes td1 = overwrite (fst ?o) (take k (snd ?o)) (dev_bytes td)
      \<and> (r = Inr () \<longrightarrow> length (snd ?o) \<le> k)"
  proof (cases rule: ReadBufferWrite_ok)
    case 1
    then show ?thesis using h(3) rd by (auto simp: apply_write_def intro: exI [of _ 0])
  next
    case (2 w)
    let ?b = "snd (write_op w)"
    obtain r2 td2 where w: "WriteAt ?b (wiOffset w) td = (r2, td2)" by fastforce
    from WriteAt_prefix [OF w] obtain k where
      "dev_bytes td2 = overwrite (unat (wiOffset w)) (take k ?b) (dev_bytes td)" "r2 = Inr () \<Longrightarrow> length ?b \<le> k"
      by blast
    then show ?thesis using h(3) rd 2 w
      by (intro exI [of _ k]) (auto simp: apply_write_def write_op_def split: sum.splits)
  qed
next
  fix jd td :: device and i :: u64 and n
  let ?o = "write_op_at (header j) (dev_bytes jd) (unat i)"
  assume h: "writes_ok (header j) (dev_bytes jd) n" "unat i < n" "healthy jd" "healthy td" "length (dev_bytes td) < 2 ^ 63"
    "fst ?o + length (snd ?o) \<le> length (dev_bytes td)"
  obtain w where w: "ReadBufferWrite j i jd = (Inr w, jd)" "?o = write_op w" "data_prefix w = Inr (snd (write_op w))"
    using healthy_reads(2) [OF h(3,1,2)] by blast
  have "unat (wiOffset w) = fst (write_op w)" by (simp add: write_op_def)
  then show "apply_write j i jd td = (Inr (), jd, put_bytes (fst ?o) (snd ?o) td)"
    using WriteAt_ok [OF h(4) _ h(5), of "wiOffset w" "snd (write_op w)"] h(4,6) w
    by (simp add: apply_write_def)
qed

subsection \<open>The header under a torn write\<close>

text \<open>Valid and invalid headers differ in the last of their 64 bytes only.\<close>

lemma put_be_flag:
  assumes "\<And>n. 0 < n \<Longrightarrow> bit (f :: u64) n = bit (g :: u64) n"
  shows "take 7 (put_be 8 f) = take 7 (put_be 8 g)"
proof (rule nth_equalityI)
  fix i assume "i < length (take 7 (put_be 8 f))"
  then have i: "i < 7" by simp
  have "drop_bit (8 * (8 - Suc i)) f = drop_bit (8 * (8 - Suc i)) g"
    using i by (intro bit_word_eqI) (auto simp: bit_simps intro!: assms)
  then show "take 7 (put_be 8 f) ! i = take 7 (put_be 8 g) ! i" using i by (simp add: nth_put_be)
qed simp

lemma header_bytes_flag:
  assumes "\<And>n. 0 < n \<Longrightarrow> bit f n = bit (flags h) n"
  shows "take 63 (header_bytes (h\<lparr>flags := f\<rparr>)) = take 63 (header_bytes h)"
  using put_be_flag [OF assms] by (simp add: header_bytes_def)

lemma flag_bits:
  "0 < n \<Longrightarrow> bit (flags (setValidFlag h)) n = bit (flags h) n"
  "0 < n \<Longrightarrow> bit (flags (setInvalidFlag h)) n = bit (flags h) n"
  by (auto simp: setValidFlag_def setInvalidFlag_def JournalValidFlag_def bit_simps dest: bit_imp_le_length)

lemma WriteHeader_any:
  assumes "take 63 (header_bytes (header j)) = take 63 (header_bytes h)"
    and "bslice 0 64 (dev_bytes d) = header_bytes h" and "WriteHeader j d = (r, d')"
  shows "reboot d' = reboot d \<or> reboot d' = put_bytes 0 (header_bytes (header j)) (reboot d)"
    and "r = Inr () \<Longrightarrow> reboot d' = put_bytes 0 (header_bytes (header j)) (reboot d)"
proof -
  obtain r1 d1 where w: "WriteAt (header_bytes (header j)) 0 d = (r1, d1)" by fastforce
  from WriteAt_reboot [OF w] obtain k where
    k: "reboot d1 = put_bytes 0 (take k (header_bytes (header j))) (reboot d)" "r1 = Inr () \<Longrightarrow> 64 \<le> k"
    by auto
  have d': "reboot d' = reboot d1" "r = Inr () \<Longrightarrow> r1 = Inr ()"
    using assms(3) w by (auto simp: WriteHeader_def split: prod.splits sum.splits dest: Sync_reboot)
  show full: "r = Inr () \<Longrightarrow> reboot d' = put_bytes 0 (header_bytes (header j)) (reboot d)"
    using d' k by simp
  have "reboot d' = reboot d" if "\<not> 64 \<le> k"
  proof -
    have "take k (header_bytes (header j)) = take k (header_bytes h)"
      using arg_cong [OF assms(1), of "take k"] that by (simp add: min_def)
    then have "take k (header_bytes (header j)) = bslice 0 k (dev_bytes d)"
      using that unfolding assms(2) [symmetric] by (simp add: bslice_def min_def)
    then show ?thesis by (simp add: d' k(1) put_bytes_def)
  qed
  then show "reboot d' = reboot d \<or> reboot d' = put_bytes 0 (header_bytes (header j)) (reboot d)"
    using d' k(1) by (cases "64 \<le> k") auto
qed

lemma journal_inv_flag:
  assumes "journal_inv j d" and "header j' = (header j)\<lparr>flags := f\<rparr>"
    and "WriteOffset j' = WriteOffset j" and "CorrectOffset j' = CorrectOffset j" and "diskSize j' = diskSize j"
  shows "journal_inv j' (put_bytes 0 (header_bytes (header j')) d)"
    and "journal_ops j' (overwrite 0 (header_bytes (header j')) (dev_bytes d)) = journal_ops j (dev_bytes d)"
proof -
  have lay: "layout_ok (header j) (length (dev_bytes d))" using assms(1) by (simp add: journal_inv_def journal_ready_def)
  then have 64: "64 \<le> length (dev_bytes d)" by (simp add: layout_ok_def)
  have ws: "k < unat (bufWritesCount (header j)) \<Longrightarrow> wslot (header j) (overwrite 0 (header_bytes g) (dev_bytes d)) k = wslot (header j) (dev_bytes d) k"
    and cs: "k < unat (corrBlocksCount (header j)) \<Longrightarrow> cslot (header j) (overwrite 0 (header_bytes g) (dev_bytes d)) k = cslot (header j) (dev_bytes d) k" for k g
    using slots_put_header [OF lay, of "header_bytes g" k] by simp_all
  have shape: "log_shape (header j) (dev_bytes d) (unat (WriteOffset j)) (unat (CorrectOffset j))"
    using assms(1) by (simp add: journal_inv_def)
  then have "log_shape (header j') (overwrite 0 (header_bytes (header j')) (dev_bytes d)) (unat (WriteOffset j)) (unat (CorrectOffset j))"
    by (simp add: log_shape_def assms(2) ws cs)
  then show "journal_inv j' (put_bytes 0 (header_bytes (header j')) d)"
    using assms 64 bslice_header_put [OF 64] by (simp add: journal_inv_def journal_ready_def)
  show "journal_ops j' (overwrite 0 (header_bytes (header j')) (dev_bytes d)) = journal_ops j (dev_bytes d)"
    using shape by (auto simp: journal_ops_def block_op_at_def write_op_at_def assms ws cs log_shape_def)
qed

lemma set_flag:
  "setInvalidFlag h = h\<lparr>flags := flags (setInvalidFlag h)\<rparr>" "setValidFlag h = h\<lparr>flags := flags (setValidFlag h)\<rparr>"
  by (simp_all add: flag_defs)

lemma journal_inv_set_flag:
  assumes "journal_inv j d" and "h = setInvalidFlag (header j) \<or> h = setValidFlag (header j)"
  shows "journal_inv (j\<lparr>header := h\<rparr>) (put_bytes 0 (header_bytes h) d)"
    and "journal_ops (j\<lparr>header := h\<rparr>) (overwrite 0 (header_bytes h) (dev_bytes d)) = journal_ops j (dev_bytes d)"
  using assms(2) journal_inv_flag [OF assms(1), of "j\<lparr>header := h\<rparr>" "flags h"] set_flag [of "header j"]
  by auto

lemma set_flag_counts [simp]:
  "bufWritesCount (setInvalidFlag h) = bufWritesCount h" "corrBlocksCount (setInvalidFlag h) = corrBlocksCount h"
  "bufWritesCount (setValidFlag h) = bufWritesCount h" "corrBlocksCount (setValidFlag h) = corrBlocksCount h"
  by (simp_all add: flag_defs)

subsection \<open>Recovery\<close>

lemma inv_slots_ok:
  assumes "journal_inv j d"
  shows "blocks_ok (header j) (dev_bytes d) (unat (CorrectOffset j))"
    and "writes_ok (header j) (dev_bytes d) (unat (WriteOffset j))"
  using assms by (auto simp: journal_inv_def journal_ready_def log_shape_def blocks_ok_def writes_ok_def)

lemma CopyJournalToReplica_replays:
  assumes "journal_inv j (JournalDev s)" and "healthy (TargetDevFd s)" and "length (dev_bytes (TargetDevFd s)) < 2 ^ 63"
  shows "CopyJournalToReplica j s = (Inr (), s\<lparr>
      JournalDev := put_bytes 0 (header_bytes (setInvalidFlag (header j))) (JournalDev s),
      TargetDevFd := (TargetDevFd s)\<lparr>dev_bytes := replay (journal_ops j (dev_bytes (JournalDev s))) (dev_bytes (TargetDevFd s))\<rparr>\<rparr>)"
proof -
  let ?jd = "JournalDev s" and ?td = "TargetDevFd s"
  let ?bops = "map (block_op_at (header j) (dev_bytes ?jd)) [0..<unat (CorrectOffset j)]"
  let ?td1 = "?td\<lparr>dev_bytes := replay ?bops (dev_bytes ?td)\<rparr>"
  note ok = inv_slots_ok [OF assms(1)]
  have ready: "journal_ready j ?jd" and h: "healthy ?jd" using assms(1) by (auto simp: journal_inv_def journal_ready_def)
  have h1: "healthy ?td1" using assms(2) by (simp add: healthy_def)
  have l1: "length (dev_bytes ?td1) < 2 ^ 63" using assms(3) by simp
  have 1: "for_slots (copy_block j) (unat (CorrectOffset j)) 0 ?jd ?td = (Inr (), ?jd, ?td1)"
    using cpb.loop_copies [OF ok(1) _ h assms(2,3), of 0] by simp
  have 2: "for_slots (copy_write j) (unat (WriteOffset j)) 0 ?jd ?td1 = (Inr (), ?jd,
      ?td1\<lparr>dev_bytes := replay (map (write_op_at (header j) (dev_bytes ?jd)) [0..<unat (WriteOffset j)]) (dev_bytes ?td1)\<rparr>)"
    using cpw.loop_copies [OF ok(2) _ h h1 l1, of 0] by simp
  show ?thesis
    by (simp only: CopyJournalToReplica_def 1 prod.case sum.case Sync_ok [OF h1] snd_conv 2)
      (simp add: Invalidate_healthy [OF ready] journal_ops_def)
qed

lemma CheckJournal_recovers_any:
  assumes inv: "journal_inv j (JournalDev s)" and room: "WriteOffset j < bufWritesCount (header j)"
      "CorrectOffset j < corrBlocksCount (header j)" and valid: "Journal_IsValid j"
    and td: "healthy (TargetDevFd s)" "length (dev_bytes (TargetDevFd s)) < 2 ^ 63"
    and part: "agree_off (footprints (journal_ops j (dev_bytes (JournalDev s)))) (dev_bytes (TargetDevFd s)) img"
  shows "\<exists>s'. CheckJournal s = (Inr (), s') \<and>
     dev_bytes (TargetDevFd s') = replay (journal_ops j (dev_bytes (JournalDev s))) img \<and>
     OpenJournal (JournalDev s') = (Inr (j\<lparr>header := setInvalidFlag (header j)\<rparr>), JournalDev s')"
proof -
  let ?j = "j\<lparr>header := setInvalidFlag (header j)\<rparr>"
  have "CheckJournal s = CopyJournalToReplica j s"
    using OpenJournal_inv [OF inv room] valid CopyJournalToReplica_replays [OF inv td] by (simp add: CheckJournal_def)
  moreover have "replay (journal_ops j (dev_bytes (JournalDev s))) (dev_bytes (TargetDevFd s))
      = replay (journal_ops j (dev_bytes (JournalDev s))) img"
    by (rule replay_absorbs [OF part order_refl])
  moreover have "OpenJournal (put_bytes 0 (header_bytes (header ?j)) (JournalDev s)) = (Inr ?j, put_bytes 0 (header_bytes (header ?j)) (JournalDev s))"
    using OpenJournal_inv [OF journal_inv_set_flag(1) [OF inv, of "setInvalidFlag (header j)"]] room by simp
  ultimately show ?thesis using CopyJournalToReplica_replays [OF inv td] by simp
qed

lemma CheckJournal_invalid:
  assumes "journal_inv j (JournalDev s)" and "WriteOffset j < bufWritesCount (header j)"
      "CorrectOffset j < corrBlocksCount (header j)" and "\<not> Journal_IsValid j"
  shows "CheckJournal s = (Inr (), s)"
  using OpenJournal_inv [OF assms(1-3)] assms(4) by (simp add: CheckJournal_def)

subsection \<open>Writing the journal to the replica under any faults\<close>

lemma Validate_any:
  assumes "bslice 0 64 (dev_bytes d) = header_bytes (header j)" and "Validate j d = (r, j', d')"
  shows "j' = j\<lparr>header := setValidFlag (header j)\<rparr>"
    and "r = Inr () \<Longrightarrow> reboot d' = put_bytes 0 (header_bytes (setValidFlag (header j))) (reboot d)"
  using assms(2) WriteHeader_any(2) [OF _ assms(1), of "j\<lparr>header := setValidFlag (header j)\<rparr>" r d']
    header_bytes_flag [OF flag_bits(1), of "header j"] set_flag(2) [of "header j"]
  by (auto simp: Validate_def Let_def split: prod.splits)

lemma Invalidate_any:
  assumes "bslice 0 64 (dev_bytes d) = header_bytes (header j)" and "Invalidate j d = (r, j', d')"
  shows "reboot d' = reboot d \<or> reboot d' = put_bytes 0 (header_bytes (setInvalidFlag (header j))) (reboot d)"
    and "r = Inr () \<Longrightarrow> reboot d' = put_bytes 0 (header_bytes (setInvalidFlag (header j))) (reboot d)"
  using assms(2) WriteHeader_any [OF _ assms(1), of "j\<lparr>header := setInvalidFlag (header j)\<rparr>" r d']
    header_bytes_flag [OF flag_bits(2), of "header j"] set_flag(1) [of "header j"]
  by (auto simp: Invalidate_def Let_def split: prod.splits)

lemma inv_header: "journal_inv j d \<Longrightarrow> bslice 0 64 (dev_bytes d) = header_bytes (header j)"
  by (simp add: journal_inv_def)

lemma WriteJournalToReplica_cases:
  assumes "SrvJournal s = Some j" and "Validate j (JournalDev s) = (u, jv, jd0)"
    and "WriteJournalToReplica s = (r, s1)"
  obtains (blocks) e where "r = Inl e"
      and "for_slots (apply_block jv) (unat (CorrectOffset jv)) 0 jd0 (TargetDevFd s) = (Inl e, JournalDev s1, TargetDevFd s1)"
  | (writes) e jd1 td1 where "r = Inl e"
      and "for_slots (apply_block jv) (unat (CorrectOffset jv)) 0 jd0 (TargetDevFd s) = (Inr (), jd1, td1)"
      and "for_slots (apply_write jv) (unat (WriteOffset jv)) 0 jd1 (snd (Sync td1)) = (Inl e, JournalDev s1, TargetDevFd s1)"
  | (applied) jd1 td1 jd2 r3 j3 where "r = Inr () \<longleftrightarrow> r3 = Inr ()"
      and "for_slots (apply_block jv) (unat (CorrectOffset jv)) 0 jd0 (TargetDevFd s) = (Inr (), jd1, td1)"
      and "for_slots (apply_write jv) (unat (WriteOffset jv)) 0 jd1 (snd (Sync td1)) = (Inr (), jd2, TargetDevFd s1)"
      and "Invalidate jv jd2 = (r3, j3, JournalDev s1)"
  using assms by (auto simp: WriteJournalToReplica_def Let_def split: sum.splits prod.splits) force

lemma WriteJournalToReplica_present:
  "dev_present (TargetDevFd (snd (WriteJournalToReplica s))) = dev_present (TargetDevFd s)"
  by (auto simp: WriteJournalToReplica_def Let_def split: option.splits sum.splits prod.splits
      dest!: apb.loop_present apw.loop_present)

lemma WriteJournalToReplica_any:
  fixes s :: Server and j :: Journal
  defines "jv \<equiv> j\<lparr>header := setValidFlag (header j)\<rparr>"
  defines "V \<equiv> put_bytes 0 (header_bytes (header jv)) (reboot (JournalDev s))"
  defines "ops \<equiv> journal_ops j (dev_bytes (JournalDev s))"
  assumes j: "SrvJournal s = Some j" and inv: "journal_inv j (reboot (JournalDev s))"
    and val: "fst (Validate j (JournalDev s)) = Inr ()"
    and run: "WriteJournalToReplica s = (r, s1)"
  shows "reboot (JournalDev s1) = V \<and> r \<noteq> Inr () \<and>
       agree_off (footprints ops) (dev_bytes (TargetDevFd s1)) (dev_bytes (TargetDevFd s)) \<or>
     reboot (JournalDev s1) = put_bytes 0 (header_bytes (setInvalidFlag (header jv))) V \<and>
       dev_bytes (TargetDevFd s1) = replay ops (dev_bytes (TargetDevFd s))"
proof -
  obtain u jd0 where v: "Validate j (JournalDev s) = (u, jv, jd0)" and jd0: "reboot jd0 = V"
    using Validate_any [of "JournalDev s" j] inv_header [OF inv] val
    by (cases "Validate j (JournalDev s)") (auto simp: jv_def V_def)
  have invV: "journal_inv jv V" and opsV: "ops = journal_ops jv (dev_bytes V)"
    using journal_inv_set_flag [OF inv, of "setValidFlag (header j)"] by (simp_all add: jv_def V_def ops_def)
  have bytes: "reboot d = V \<Longrightarrow> dev_bytes d = dev_bytes V" for d using reboot_simps(1) [of d] by simp
  note ok = inv_slots_ok [OF invV]
  let ?b = "map (block_op_at (header jv) (dev_bytes V)) [0..<unat (CorrectOffset jv)]"
  let ?w = "map (write_op_at (header jv) (dev_bytes V)) [0..<unat (WriteOffset jv)]"
  have ops: "ops = ?b @ ?w" by (simp add: opsV journal_ops_def)
  from j v run show ?thesis
  proof (cases rule: WriteJournalToReplica_cases)
    case (blocks e)
    then show ?thesis
      using apb.loop_reboot [OF blocks(2)] apb.loop_torn(1) [OF _ _ blocks(2), unfolded bytes [OF jd0], OF ok(1)] jd0
      by (auto simp: ops intro: agree_off_mono)
  next
    case (writes e jd1 td1)
    have jd1: "reboot jd1 = V" using apb.loop_reboot [OF writes(2)] jd0 by simp
    have "dev_bytes td1 = replay ?b (dev_bytes (TargetDevFd s))"
      using apb.loop_torn(2) [OF _ _ writes(2), unfolded bytes [OF jd0], OF ok(1)] by simp
    then have "agree_off (footprints ?w) (dev_bytes (TargetDevFd s1)) (replay ?b (dev_bytes (TargetDevFd s)))"
      using apw.loop_torn(1) [OF _ _ writes(3), unfolded bytes [OF jd1], OF ok(2)] by simp
    then have "agree_off (footprints ops) (dev_bytes (TargetDevFd s1)) (dev_bytes (TargetDevFd s))"
      by (rule agree_off_trans [OF agree_off_mono agree_off_mono [OF replay_within]]) (auto simp: ops)
    then show ?thesis using writes(1) apw.loop_reboot [OF writes(3)] jd1 by simp
  next
    case (applied jd1 td1 jd2 r3 j3)
    have jd1: "reboot jd1 = V" using apb.loop_reboot [OF applied(2)] jd0 by simp
    have jd2: "reboot jd2 = V" using apw.loop_reboot [OF applied(3)] jd1 by simp
    have fin: "dev_bytes (TargetDevFd s1) = replay ops (dev_bytes (TargetDevFd s))"
      using apb.loop_torn(2) [OF _ _ applied(2), unfolded bytes [OF jd0], OF ok(1)]
        apw.loop_torn(2) [OF _ _ applied(3), unfolded bytes [OF jd1], OF ok(2)] by (simp add: ops)
    note iv = Invalidate_any [OF _ applied(4), unfolded bytes [OF jd2], OF inv_header [OF invV], unfolded jd2]
    then show ?thesis using applied(1) fin replay_within [of ops "dev_bytes (TargetDevFd s)"] by metis
  qed
qed


subsection \<open>A concrete journal with one entry in each section\<close>

definition demo_device2 :: device where
  "demo_device2 = snd (WriteCorrectBlock (demo_journal\<lparr>WriteOffset := 1\<rparr>) 0 demo_block
                   (snd (WriteBufferWrite demo_journal 0 demo_write demo_device)))"

definition demo_journal2 :: Journal where
  "demo_journal2 = demo_journal\<lparr>WriteOffset := 1, CorrectOffset := 1\<rparr>"

text \<open>The target fails after one byte of the second write.\<close>

definition demo_server :: Server where
  "demo_server = \<lparr>ClientInfo = None,
     TargetDevFd = \<lparr>dev_bytes = replicate 8 0, dev_faults = [None, None, Some 1], dev_present = True, dev_block = True\<rparr>,
     JournalDev = demo_device2, SrvJournal = Some demo_journal2, SrvStats = NewBenchmarkStats False,
     SrvConnected = True, SrvConn = True, SrvListener = True, TargetOpen = True, SrvTerm = False, sent = [], sendFaults = [], sstate = StateHashing\<rparr>"

lemma demo_server_fields:
  "SrvJournal demo_server = Some demo_journal2" "JournalDev demo_server = demo_device2"
  "dev_bytes (TargetDevFd demo_server) = [0, 0, 0, 0, 0, 0, 0, 0]"
  "WriteOffset demo_journal2 < bufWritesCount (header demo_journal2)"
  "CorrectOffset demo_journal2 < corrBlocksCount (header demo_journal2)"
  by (simp_all add: demo_server_def demo_journal2_def demo_journal_def demo_header_def numeral_eq_Suc)

lemma demo_fits:
  "write_fits demo_header demo_write" "WriteInfo_IsValid demo_write"
  "block_fits demo_header demo_block" "CorrectBlockInfo_IsValid demo_block"
  by (simp_all add: write_fits_def block_fits_def entry_fits_def demo_header_def demo_write_def demo_block_def
      WriteInfo_IsValid_def CorrectBlockInfo_IsValid_def)

lemma demo_journal_header [simp]: "header demo_journal = demo_header" "WriteOffset demo_journal = 0" "CorrectOffset demo_journal = 0"
  by (simp_all add: demo_journal_def)

lemma demo_inv2:
  "journal_inv demo_journal2 demo_device2"
  "journal_writes demo_journal2 demo_device2 = [Inr (stored_write demo_write)]"
  "journal_blocks demo_journal2 demo_device2 = [Inr (stored_block demo_block)]"
proof -
  obtain r d where 1: "WriteBufferWrite demo_journal 0 demo_write demo_device = (r, d)" by fastforce
  have r1: "WriteOffset demo_journal < bufWritesCount (header demo_journal)" by (simp add: demo_header_def)
  note a = journal_append_write [OF demo_inv r1, of demo_write r d, simplified, OF demo_fits(1,2) 1]
  let ?j = "demo_journal\<lparr>WriteOffset := 1\<rparr>"
  obtain r' d' where 2: "WriteCorrectBlock ?j 0 demo_block d = (r', d')" by fastforce
  have r2: "CorrectOffset ?j < corrBlocksCount (header ?j)" by (simp add: demo_header_def)
  note b = journal_append_block [OF a(2) r2, of demo_block r' d', simplified, OF demo_fits(3,4) 2]
  have d': "demo_device2 = d'" using 1 2 by (simp add: demo_device2_def)
  have j: "demo_journal2 = ?j\<lparr>CorrectOffset := 1\<rparr>" by (simp add: demo_journal2_def)
  show "journal_inv demo_journal2 demo_device2" using b(2) by (simp add: d' j)
  show "journal_writes demo_journal2 demo_device2 = [Inr (stored_write demo_write)]"
    "journal_blocks demo_journal2 demo_device2 = [Inr (stored_block demo_block)]"
    using a(3,4) b(3,4) by (simp_all add: d' j journal_writes_def journal_blocks_def log_entries_def)
qed

lemma demo_ops: "journal_ops demo_journal2 (dev_bytes demo_device2) = [(0, [1, 2, 3, 4]), (1, [7, 8])]"
  using demo_inv2(2,3)
  by (simp add: journal_ops_def block_op_at_def write_op_at_def journal_writes_def journal_blocks_def log_entries_def
      demo_journal2_def stored_write_def stored_block_def block_op_def write_op_def demo_write_def demo_block_def)

subsection \<open>Properties\<close>

text \<open>
  C6: Crash safety of the journal.  Take a server whose journal is well formed and not
  full, and let \<^verbatim>\<open>WriteJournalToReplica\<close> run under any schedule of faults on the
  journal device and on the target, once \<^verbatim>\<open>Validate\<close> has succeeded: it may stop in
  the middle of any write to the target, in the middle of the header write of
  \<^verbatim>\<open>Invalidate\<close>, or succeed.  Whatever happened, a server restarted on the two devices
  ends \<^verbatim>\<open>CheckJournal\<close> without error, with the target holding exactly the original image
  with all correct blocks and then all buffered writes of the journal applied, and with
  the journal marked invalid.
\<close>

theorem crash_recovery:
  assumes j: "SrvJournal s = Some j" and inv: "journal_inv j (reboot (JournalDev s))"
    and room: "WriteOffset j < bufWritesCount (header j)" "CorrectOffset j < corrBlocksCount (header j)"
    and val: "fst (Validate j (JournalDev s)) = Inr ()"
    and size: "length (dev_bytes (TargetDevFd s)) < 2 ^ 63"
    and crash: "s1 = snd (WriteJournalToReplica s)"
    and restart: "NewServer listens bench (reboot (TargetDevFd s1)) (reboot (JournalDev s1)) = Inr s2"
  shows "\<exists>s3 j'. CheckJournal s2 = (Inr (), s3) \<and>
     dev_bytes (TargetDevFd s3) = replay (journal_ops j (dev_bytes (JournalDev s))) (dev_bytes (TargetDevFd s)) \<and>
     OpenJournal (JournalDev s3) = (Inr j', JournalDev s3) \<and> \<not> Journal_IsValid j'"
proof -
  let ?jv = "j\<lparr>header := setValidFlag (header j)\<rparr>"
  let ?V = "put_bytes 0 (header_bytes (header ?jv)) (reboot (JournalDev s))"
  let ?ji = "?jv\<lparr>header := setInvalidFlag (header ?jv)\<rparr>"
  let ?I = "put_bytes 0 (header_bytes (header ?ji)) ?V"
  let ?ops = "journal_ops j (dev_bytes (JournalDev s))"
  have s2: "JournalDev s2 = reboot (JournalDev s1)" "TargetDevFd s2 = reboot (TargetDevFd s1)"
    using restart by (auto simp: NewServer_def split: sum.splits if_splits)
  have V: "journal_inv ?jv ?V" "journal_ops ?jv (dev_bytes ?V) = ?ops" "Journal_IsValid ?jv"
    using journal_inv_set_flag [OF inv, of "setValidFlag (header j)"] by (simp_all add: Journal_IsValid_def)
  have I: "journal_inv ?ji ?I" "\<not> Journal_IsValid ?ji"
    using journal_inv_set_flag(1) [OF V(1), of "setInvalidFlag (header ?jv)"] by (simp_all add: Journal_IsValid_def)
  have run: "WriteJournalToReplica s = (fst (WriteJournalToReplica s), s1)" by (simp add: crash)
  from WriteJournalToReplica_any [OF j inv val run]
  consider (torn) "JournalDev s2 = ?V" "agree_off (footprints ?ops) (dev_bytes (TargetDevFd s2)) (dev_bytes (TargetDevFd s))"
    | (applied) "JournalDev s2 = ?I" "dev_bytes (TargetDevFd s2) = replay ?ops (dev_bytes (TargetDevFd s))"
    using s2 by auto
  then show ?thesis
  proof cases
    case torn
    have "\<exists>s3. CheckJournal s2 = (Inr (), s3) \<and> dev_bytes (TargetDevFd s3) = replay ?ops (dev_bytes (TargetDevFd s)) \<and>
        OpenJournal (JournalDev s3) = (Inr ?ji, JournalDev s3)"
      using CheckJournal_recovers_any [of ?jv s2 "dev_bytes (TargetDevFd s)"] V room torn size s2
        agree_off_length [OF torn(2)] by simp
    then show ?thesis using I(2) by blast
  next
    case applied
    then show ?thesis using CheckJournal_invalid [of ?ji s2] OpenJournal_inv [of ?ji "JournalDev s2"] I room by simp
  qed
qed

theorem crash_recovery_witness:
  "\<exists>s3 j'. CheckJournal (projr (NewServer True False (reboot (TargetDevFd (snd (WriteJournalToReplica demo_server))))
                                  (reboot (JournalDev (snd (WriteJournalToReplica demo_server)))))) = (Inr (), s3) \<and>
     dev_bytes (TargetDevFd s3) = [1, 7, 8, 4, 0, 0, 0, 0] \<and>
     OpenJournal (JournalDev s3) = (Inr j', JournalDev s3) \<and> \<not> Journal_IsValid j'"
proof -
  let ?s1 = "snd (WriteJournalToReplica demo_server)"
  have r: "journal_ready demo_journal2 demo_device2" using demo_inv2(1) by (simp add: journal_inv_def)
  then have h: "reboot demo_device2 = demo_device2" by (simp add: journal_ready_def)
  have v: "fst (Validate demo_journal2 demo_device2) = Inr ()" by (simp add: Validate_healthy [OF r])
  have p: "dev_present (TargetDevFd ?s1)" by (simp add: WriteJournalToReplica_present) (simp add: demo_server_def)
  show ?thesis
    using crash_recovery [of demo_server demo_journal2 ?s1 True False
        "projr (NewServer True False (reboot (TargetDevFd ?s1)) (reboot (JournalDev ?s1)))"]
      demo_inv2(1) demo_ops h v p
    by (simp add: demo_server_fields NewServer_def OpenFile_def overwrite_def)
qed

end
