(* ===== verification/Scan.thy ===== *)
theory Scan
  imports Pipeline Recovery
begin

text \<open>
  The three disk passes: \<^verbatim>\<open>HashDisk\<close> of the server (\<^verbatim>\<open>server.go\<close>), \<^verbatim>\<open>InitHashing\<close> and
  \<^verbatim>\<open>InitReplication\<close> of the client (\<^verbatim>\<open>client.go\<close>).  Each is an instance of the pipeline
  of the theory \<open>Pipeline\<close>; this theory gives what their stages do with an item and the
  properties of a complete pass.  The hash function of the \<^verbatim>\<open>xxh3\<close> package is the
  parameter \<open>hash\<close>.
\<close>

text \<open>
  The producer loop \<^verbatim>\<open>for offset := uint64(0); offset < totalSize; offset += readSize\<close>;
  the addition wraps around, so the loop may run forever.
\<close>

partial_function (option) block_offsets :: "u64 \<Rightarrow> u64 \<Rightarrow> u64 \<Rightarrow> u64 list option" where
  "block_offsets readSize totalSize offset =
     (if offset < totalSize
      then Option.bind (block_offsets readSize totalSize (offset + readSize)) (\<lambda>offs. Some (offset # offs))
      else Some [])"

declare block_offsets.simps [code]

subsection \<open>HashDisk\<close>

datatype HashItem =
    ReadTask u64
  | WorkItem u64 bytes
  | ResultItem u64 u32 u64 "go_error option"

text \<open>A reader: an error other than the end of the file ends the worker, and so does an empty read.\<close>

definition hash_read :: "u64 \<Rightarrow> u64 \<Rightarrow> device \<Rightarrow> HashItem verdict" where
  "hash_read readSize offset td = (case ReadAt (unat readSize) offset td of
     ((buf, err), td1) \<Rightarrow>
       (case err of
          Some e \<Rightarrow> if e \<noteq> ErrEOF then Abort (ResultItem offset 0 0 (Some e))
                    else if buf = [] then Quit else Pass (WorkItem offset buf)
        | None \<Rightarrow> if buf = [] then Quit else Pass (WorkItem offset buf)))"

fun hash_stage :: "(bytes \<Rightarrow> u64) \<Rightarrow> u64 \<Rightarrow> device \<Rightarrow> nat \<Rightarrow> HashItem \<Rightarrow> HashItem verdict" where
  "hash_stage hash readSize td 0 (ReadTask offset) = hash_read readSize offset td"
| "hash_stage hash readSize td (Suc 0) (WorkItem offset buf) =
     Pass (ResultItem offset (of_nat (length buf)) (hash buf) None)"
| "hash_stage hash readSize td k item = Pass item"

text \<open>What the senders of the last stage send for a result: an error does not suppress the hash packet.\<close>

fun result_packets :: "HashItem \<Rightarrow> Packet list" where
  "result_packets (ResultItem offset sz h err) =
     (if err \<noteq> None then [CreateInfoPacket PacketTypeErrHash] else []) @
     [\<lparr>PacketTypeOf = PacketTypePayloadHash, PayloadOf = PHash \<lparr>hiOffset = offset, hiSize = sz, hiHash = h\<rparr>\<rparr>]"
| "result_packets _ = []"

text \<open>
  The stages under any outcome of the environment: each read may meet any fault, and a
  sender may find the connection closed and return.
\<close>

definition hash_work :: "(bytes \<Rightarrow> u64) \<Rightarrow> u64 \<Rightarrow> device \<Rightarrow> nat \<Rightarrow> HashItem \<Rightarrow> HashItem verdict \<Rightarrow> bool" where
  "hash_work hash readSize td k item v \<longleftrightarrow>
     (\<exists>fs. v = hash_stage hash readSize (td\<lparr>dev_faults := fs\<rparr>) k item) \<or> k = 2 \<and> v = Quit"

text \<open>The stages on a target that does not fail, with a connection that stays up.\<close>

definition hash_work_ok :: "(bytes \<Rightarrow> u64) \<Rightarrow> u64 \<Rightarrow> device \<Rightarrow> nat \<Rightarrow> HashItem \<Rightarrow> HashItem verdict \<Rightarrow> bool" where
  "hash_work_ok hash readSize td k item v \<longleftrightarrow> v = hash_stage hash readSize td k item"

subsection \<open>InitHashing\<close>

datatype ScanItem =
    HashPacket Packet
  | ScanWork HashInfo bytes
  | CompItem HashInfo bytes u64

text \<open>
  A reader of \<^verbatim>\<open>InitHashing\<close>.  The buffer has the size the server announced and is not
  shortened: bytes the read did not fill stay zero.  Where the item is skipped the client
  has also called \<^verbatim>\<open>StartHashing\<close>.
\<close>

definition scan_read :: "Packet \<Rightarrow> device \<Rightarrow> ScanItem verdict" where
  "scan_read packet ud = (case PayloadOf packet of
     PHash hashInfo \<Rightarrow>
       (case ReadAt (unat (hiSize hashInfo)) (hiOffset hashInfo) ud of
          ((b, err), ud1) \<Rightarrow>
            if err \<noteq> None \<and> err \<noteq> Some ErrEOF then Skip
            else Pass (ScanWork hashInfo (b @ replicate (unat (hiSize hashInfo) - length b) 0)))
   | _ \<Rightarrow> Skip)"

fun scan_stage :: "(bytes \<Rightarrow> u64) \<Rightarrow> device \<Rightarrow> nat \<Rightarrow> ScanItem \<Rightarrow> ScanItem verdict" where
  "scan_stage hash ud 0 (HashPacket packet) = scan_read packet ud"
| "scan_stage hash ud (Suc 0) (ScanWork hashInfo buffer) = Pass (CompItem hashInfo buffer (hash buffer))"
| "scan_stage hash ud k item = Pass item"

text \<open>The final stage: \<^verbatim>\<open>SendCorrectBlock\<close> when the hashes differ.\<close>

definition correct_block_packet :: "bytes \<Rightarrow> u64 \<Rightarrow> u32 \<Rightarrow> Packet" where
  "correct_block_packet buf offset sz =
     \<lparr>PacketTypeOf = PacketTypePayloadCorrectBlock,
      PayloadOf = PCorrect \<lparr>cbOffset = offset, cbSize = sz, cbData = buf\<rparr>\<rparr>"

fun comp_packets :: "ScanItem \<Rightarrow> Packet list" where
  "comp_packets (CompItem hashInfo buffer h) =
     (if h \<noteq> hiHash hashInfo then [correct_block_packet buffer (hiOffset hashInfo) (hiSize hashInfo)] else [])"
| "comp_packets _ = []"

text \<open>
  The source device is in use while it is read.  \<open>blend hist b\<close>: every byte of the image
  \<open>b\<close> is the byte that some image of the history had at that place.  A read sees some
  blend of the images the device went through during the pass.
\<close>

definition blend :: "bytes list \<Rightarrow> bytes \<Rightarrow> bool" where
  "blend hist b \<longleftrightarrow> (\<forall>img \<in> set hist. length img = length b) \<and>
     (\<forall>i < length b. \<exists>img \<in> set hist. b ! i = img ! i)"

definition scan_work_ok :: "(bytes \<Rightarrow> u64) \<Rightarrow> bytes list \<Rightarrow> nat \<Rightarrow> ScanItem \<Rightarrow> ScanItem verdict \<Rightarrow> bool" where
  "scan_work_ok hash hist k item v \<longleftrightarrow>
     (\<exists>ud. healthy ud \<and> blend hist (dev_bytes ud) \<and> v = scan_stage hash ud k item)"

subsection \<open>InitReplication\<close>

datatype ReplicationItem =
    ReadItem u64 u32
  | SendItem bytes u64 u32

definition read_item :: "u64 \<Rightarrow> u64 \<Rightarrow> u64 \<Rightarrow> ReplicationItem" where
  "read_item blockSize devSize offset =
     (let sz = (ucast blockSize :: u32) in
      ReadItem offset (if offset + ucast sz > devSize then ucast (devSize - offset) else sz))"

fun replication_stage :: "device \<Rightarrow> nat \<Rightarrow> ReplicationItem \<Rightarrow> ReplicationItem verdict" where
  "replication_stage ud 0 (ReadItem offset sz) =
     (case ReadAt (unat sz) offset ud of
        ((b, err), ud1) \<Rightarrow>
          if err \<noteq> None \<and> err \<noteq> Some ErrEOF then Skip
          else Pass (SendItem (b @ replicate (unat sz - length b) 0) offset sz))"
| "replication_stage ud k item = Pass item"

fun replication_packets :: "ReplicationItem \<Rightarrow> Packet list" where
  "replication_packets (SendItem buf offset sz) =
     [\<lparr>PacketTypeOf = PacketTypePayloadReplicationBlock,
       PayloadOf = PReplication \<lparr>rbOffset = offset, rbSize = sz, rbData = buf\<rparr>\<rparr>]"
| "replication_packets _ = []"

definition replication_work_ok :: "bytes list \<Rightarrow> nat \<Rightarrow> ReplicationItem \<Rightarrow> ReplicationItem verdict \<Rightarrow> bool" where
  "replication_work_ok hist k item v \<longleftrightarrow>
     (\<exists>ud. healthy ud \<and> blend hist (dev_bytes ud) \<and> v = replication_stage ud k item)"

subsection \<open>Who outlives whom\<close>

text \<open>
  In all three passes the workers that close the last channel return only when their own
  channel is closed; only the readers of \<^verbatim>\<open>HashDisk\<close> send past them.
\<close>

lemma hash_stage_abort: "hash_stage hash readSize td k x = Abort y \<Longrightarrow> k = 0"
  by (induction hash readSize td k x rule: hash_stage.induct) auto

lemma hash_stage_quit: "hash_stage hash readSize td k x = Quit \<Longrightarrow> k = 0"
  by (induction hash readSize td k x rule: hash_stage.induct) auto

lemma scan_stage_sends: "scan_stage hash ud k x \<noteq> Abort y \<and> scan_stage hash ud k x \<noteq> Quit"
  by (induction hash ud k x rule: scan_stage.induct) (auto simp: scan_read_def split: Payload.splits prod.splits)

lemma replication_stage_sends: "replication_stage ud k x \<noteq> Abort y \<and> replication_stage ud k x \<noteq> Quit"
  by (induction ud k x rule: replication_stage.induct) (auto split: prod.splits)

interpretation hw: reporting_stages 3 "hash_work hash readSize td" for hash readSize td
proof unfold_locales
  show "hash_work hash readSize td k x (Abort y) \<Longrightarrow> 3 = Suc (Suc (Suc k))" for k x y
    unfolding hash_work_def using hash_stage_abort [of hash readSize _ k x y] by (metis numeral_3_eq_3 verdict.distinct(11))
  show "3 = Suc (Suc k) \<Longrightarrow> \<not> hash_work hash readSize td k x Quit" for k x
    unfolding hash_work_def using hash_stage_quit [of hash readSize _ k x] by (metis One_nat_def nat.inject numeral_2_eq_2 numeral_3_eq_3 zero_neq_one)
qed

interpretation hwk: reporting_stages 3 "hash_work_ok hash readSize td" for hash readSize td
proof unfold_locales
  show "hash_work_ok hash readSize td k x (Abort y) \<Longrightarrow> 3 = Suc (Suc (Suc k))" for k x y
    unfolding hash_work_ok_def using hash_stage_abort [of hash readSize td k x y] by simp
  show "3 = Suc (Suc k) \<Longrightarrow> \<not> hash_work_ok hash readSize td k x Quit" for k x
    unfolding hash_work_ok_def using hash_stage_quit [of hash readSize td k x] by fastforce
qed

interpretation swk: reporting_stages 3 "scan_work_ok hash hist" for hash hist
  by unfold_locales (simp_all add: scan_work_ok_def, (metis scan_stage_sends)+)

interpretation rwk: reporting_stages 2 "replication_work_ok hist" for hist
  by unfold_locales (simp_all add: replication_work_ok_def, (metis replication_stage_sends)+)

subsection \<open>The blocks of a device\<close>

definition block_count :: "nat \<Rightarrow> nat \<Rightarrow> nat" where
  "block_count R T = (T + R - 1) div R"

lemma less_block_count:
  assumes "0 < R"
  shows "k < block_count R T \<longleftrightarrow> k * R < T"
proof -
  have "k < block_count R T \<longleftrightarrow> Suc k * R \<le> T + R - 1"
    using less_eq_div_iff_mult_less_eq [OF assms, of "Suc k" "T + R - 1"] by (simp add: block_count_def Suc_le_eq)
  also have "\<dots> \<longleftrightarrow> k * R < T" using assms by auto
  finally show ?thesis .
qed

lemma block_offsets_from:
  assumes "0 < readSize" and "unat totalSize + unat readSize \<le> 2 ^ 64" and "k * unat readSize < 2 ^ 64"
  shows "block_offsets readSize totalSize (of_nat (k * unat readSize)) =
    Some (map (\<lambda>i. of_nat (i * unat readSize)) [k..<block_count (unat readSize) (unat totalSize)])"
  using assms(3)
proof (induction "block_count (unat readSize) (unat totalSize) - k" arbitrary: k)
  case 0
  let ?R = "unat readSize"
  have R: "0 < ?R" using assms(1) by (simp add: word_gt_0 unat_gt_0)
  have "\<not> k * ?R < unat totalSize" using 0 less_block_count [OF R, of k "unat totalSize"] by simp
  moreover have "unat (of_nat (k * ?R) :: u64) = k * ?R" using 0(2) by (simp add: unat_of_nat del: of_nat_mult)
  ultimately have "\<not> (of_nat (k * ?R) :: u64) < totalSize" unfolding word_less_nat_alt by simp
  then show ?case using 0(1) by (subst block_offsets.simps) simp
next
  case (Suc m)
  let ?R = "unat readSize"
  have R: "0 < ?R" using assms(1) by (simp add: word_gt_0 unat_gt_0)
  have k: "k < block_count ?R (unat totalSize)" using Suc(2) by simp
  then have lt: "k * ?R < unat totalSize" using less_block_count [OF R] by blast
  have "unat (of_nat (k * ?R) :: u64) = k * ?R" using Suc.prems by (simp add: unat_of_nat del: of_nat_mult)
  with lt have "(of_nat (k * ?R) :: u64) < totalSize" unfolding word_less_nat_alt by simp
  moreover have "(of_nat (k * ?R) :: u64) + readSize = of_nat (Suc k * ?R)" by simp
  moreover have "Suc k * ?R < 2 ^ 64" using lt assms(2) by simp
  ultimately show ?case using Suc.hyps(1) [of "Suc k"] Suc(2) k
    by (subst block_offsets.simps) (simp add: upt_conv_Cons del: of_nat_mult mult_Suc)
qed

end
