(* ===== verification/Client.thy ===== *)
theory Client
  imports Kernel Pause Config Scan
begin

text \<open>
  \<^verbatim>\<open>user/client/client.go\<close>: the daemon on the source side.  The record \<open>Client\<close> holds the
  fields of the Go struct.  What is outside the program is part of it as what it has in
  store: the connection has the packets and errors the next \<^verbatim>\<open>Decode\<close> calls give and the
  outcomes of the next \<^verbatim>\<open>Encode\<close> calls, the network the outcomes of the next dials, the
  control device the kernel module's context and whether the next ioctls succeed, and
  \<open>TermIn\<close> how many more times \<^verbatim>\<open>TermChan\<close> will be found open (\<open>None\<close>: it is never closed).
  The functions are those of one goroutine.  The listener replaces the connection that the
  others send on; \<open>cListener\<close> is what it will do to the state and to the connection between
  the attempts of a send (empty: nothing more, which is always the case when the listener
  itself sends).  A loop that may run forever returns an option, \<open>None\<close> being that it does not
  return, and sleeping and logging are left out.
\<close>

subsection \<open>The state\<close>

record BufferInfo =
  biOffset :: u64
  biLength :: u64
  biLast :: u64
  biFlags :: u32
  biMaxWrites :: u64

record TargetInfo =
  tiPageSize :: u64
  tiWriteInfoSize :: u32
  tiBufferByteSize :: u64
  tiBitmapByteSize :: u64

datatype ClientState =
    ClientHashing
  | ClientWriting
  | ClientReplicating
  | ClientReconnecting

definition ClientState_String :: "ClientState \<Rightarrow> string" where
  "ClientState_String st = (case st of
     ClientHashing \<Rightarrow> ''Hashing''
   | ClientWriting \<Rightarrow> ''Writing''
   | ClientReplicating \<Rightarrow> ''Replicating''
   | ClientReconnecting \<Rightarrow> ''StateReconnecting'')"

text \<open>
  A connection: what has been sent on it, the results of the next receives and the error of
  every receive after them, the outcomes of the next sends and that of every send after them.
\<close>

record conn =
  conn_out :: "Packet list"
  conn_in :: "Packet result list"
  conn_end :: go_error
  conn_faults :: "go_error option list"
  conn_broken :: "go_error option"

definition conn_closed :: "conn \<Rightarrow> conn" where
  "conn_closed cn = cn\<lparr>conn_in := [], conn_end := ErrClosed, conn_faults := [], conn_broken := Some ErrClosed\<rparr>"

record Client =
  cTargetInfo :: TargetInfo
  cConn :: conn
  cDials :: "conn option list"
  cListener :: "(ClientState \<times> conn) option list"
  cUnderDev :: device
  cKernel :: bdr_context
  cIoctls :: "bool list"
  cPause :: stateChan
  TermIn :: "nat option"
  cStats :: BenchmarkStats
  cOpen :: bool
  cstate :: ClientState

definition Client_GetState :: "Client \<Rightarrow> ClientState" where
  "Client_GetState c = cstate c"

definition Client_SetState :: "ClientState \<Rightarrow> Client \<Rightarrow> Client" where
  "Client_SetState newState c = c\<lparr>cstate := newState\<rparr>"

definition Client_InitiateShutdown :: "Client \<Rightarrow> Client" where
  "Client_InitiateShutdown c = (if TermIn c = Some 0 then c else c\<lparr>TermIn := Some 0\<rparr>)"

definition BufferOverflownFlag :: u32 where
  "BufferOverflownFlag = Bit 0"

definition KernelLogicalSectorSize :: u64 where
  "KernelLogicalSectorSize = 512"

definition HashPacketQueueSize :: nat where
  "HashPacketQueueSize = 8"

definition CheckOverflow :: "BufferInfo \<Rightarrow> bool" where
  "CheckOverflow b \<longleftrightarrow> biFlags b AND BufferOverflownFlag \<noteq> 0"

definition HasNewWrites :: "BufferInfo \<Rightarrow> bool" where
  "HasNewWrites b \<longleftrightarrow> biLength b \<noteq> 0"

definition Client_CheckTermination :: "Client \<Rightarrow> bool \<times> Client" where
  "Client_CheckTermination c = (case TermIn c of
     None \<Rightarrow> (False, c)
   | Some 0 \<Rightarrow> (True, c)
   | Some (Suc n) \<Rightarrow> (False, c\<lparr>TermIn := Some n\<rparr>))"

subsection \<open>Sending\<close>

definition conn_encode :: "Packet \<Rightarrow> conn \<Rightarrow> go_error option \<times> conn" where
  "conn_encode packet cn = (case conn_faults cn of
     Some e # fs \<Rightarrow> (Some e, cn\<lparr>conn_faults := fs\<rparr>)
   | None # fs \<Rightarrow> (None, cn\<lparr>conn_faults := fs, conn_out := conn_out cn @ [packet]\<rparr>)
   | [] \<Rightarrow> (case conn_broken cn of
        Some e \<Rightarrow> (Some e, cn)
      | None \<Rightarrow> (None, cn\<lparr>conn_out := conn_out cn @ [packet]\<rparr>)))"

definition Client_Encode :: "Packet \<Rightarrow> Client \<Rightarrow> go_error option \<times> Client" where
  "Client_Encode packet c = (case conn_encode packet (cConn c) of (err, cn) \<Rightarrow> (err, c\<lparr>cConn := cn\<rparr>))"

text \<open>
  Between two attempts of a send the listener may have reconnected: a send takes \<^verbatim>\<open>c.Encoder\<close>
  anew for each attempt.
\<close>

definition listener_acts :: "Client \<Rightarrow> Client" where
  "listener_acts c = (case cListener c of
     [] \<Rightarrow> c
   | None # events \<Rightarrow> c\<lparr>cListener := events\<rparr>
   | Some (st, cn) # events \<Rightarrow> c\<lparr>cstate := st, cConn := cn, cListener := events\<rparr>)"

partial_function (option) Client_SendPacket :: "Packet \<Rightarrow> Client \<Rightarrow> Client option" where
  "Client_SendPacket packet c = (case Client_Encode packet c of
     (None, c1) \<Rightarrow> Some c1
   | (Some err, c1) \<Rightarrow> (case Client_CheckTermination (listener_acts c1) of (terminated, c2) \<Rightarrow>
        if terminated then Some c2 else Client_SendPacket packet c2))"

declare Client_SendPacket.simps [code]

definition init_packet :: "u64 \<Rightarrow> Client \<Rightarrow> Packet" where
  "init_packet deviceSize c = \<lparr>PacketTypeOf = PacketTypeInfoInit,
     PayloadOf = PInit \<lparr>iiDeviceSize = deviceSize, iiWriteInfoSize = tiWriteInfoSize (cTargetInfo c),
                        iiBufferByteSize = tiBufferByteSize (cTargetInfo c)\<rparr>\<rparr>"

definition SendInitPacket :: "Client \<Rightarrow> (unit result \<times> Client) option" where
  "SendInitPacket c = (case GetDeviceSize (cUnderDev c) of
     Inl e \<Rightarrow> Some (Inl e, c)
   | Inr deviceSize \<Rightarrow> map_option (Pair (Inr ())) (Client_SendPacket (init_packet deviceSize c) c))"

definition SendCorrectBlock :: "bytes \<Rightarrow> u64 \<Rightarrow> u32 \<Rightarrow> Client \<Rightarrow> Client option" where
  "SendCorrectBlock buf offset sz c = Client_SendPacket (correct_block_packet buf offset sz) c"

definition SendReplicationBlock :: "bytes \<Rightarrow> u64 \<Rightarrow> u32 \<Rightarrow> Client \<Rightarrow> Client option" where
  "SendReplicationBlock data offset sz c = Client_SendPacket
     \<lparr>PacketTypeOf = PacketTypePayloadReplicationBlock,
      PayloadOf = PReplication \<lparr>rbOffset = offset, rbSize = sz, rbData = data\<rparr>\<rparr> c"

subsection \<open>The control device\<close>

text \<open>
  \<^verbatim>\<open>executeIOCTL\<close>: the handler of the kernel module; the reply is what it stored through the
  pointer, on success.
\<close>

definition executeIOCTL :: "u64 \<Rightarrow> Client \<Rightarrow> (go_error + ioctl_reply) \<times> Client" where
  "executeIOCTL cmd c =
     (let (ok, rest) = (case cIoctls c of [] \<Rightarrow> (True, []) | b # bs \<Rightarrow> (b, bs));
          c1 = c\<lparr>cIoctls := rest\<rparr>
      in if \<not> ok then (Inl (ErrMsg (GetIOCTLCommandName cmd)), c1)
         else case bdr_chardev_ioctl cmd True 0 (cKernel c1) of
             Some (Inr r, bc) \<Rightarrow> (Inr r, c1\<lparr>cKernel := bc\<rparr>)
           | Some (Inl e, bc) \<Rightarrow> (Inl (ErrMsg (GetIOCTLCommandName cmd)), c1\<lparr>cKernel := bc\<rparr>)
           | None \<Rightarrow> (Inl (ErrMsg (GetIOCTLCommandName cmd)), c1))"

partial_function (option) ServeIOCTL :: "u64 \<Rightarrow> Client \<Rightarrow> (ioctl_reply option \<times> Client) option" where
  "ServeIOCTL cmd c = (case Client_CheckTermination c of (terminated, c1) \<Rightarrow>
     if terminated then Some (None, c1)
     else case executeIOCTL cmd c1 of
         (Inr r, c2) \<Rightarrow> Some (Some r, c2)
       | (Inl err, c2) \<Rightarrow> (case Client_CheckTermination c2 of (terminated, c3) \<Rightarrow>
            if terminated then Some (None, c3) else ServeIOCTL cmd c3))"

declare ServeIOCTL.simps [code]

definition ResetBufferIOCTL :: "Client \<Rightarrow> Client option" where
  "ResetBufferIOCTL c = map_option snd (ServeIOCTL BDR_CMD_RESET_BUFFER c)"

text \<open>The structure a reply of the kernel module fills, and the zero value it has before.\<close>

definition go_buffer_info :: "ioctl_reply option \<Rightarrow> BufferInfo" where
  "go_buffer_info r = (case r of
     Some (ReplyBufferInfo bi) \<Rightarrow> \<lparr>biOffset = bi_offset bi, biLength = bi_length bi, biLast = bi_last bi,
                                   biFlags = bi_flags bi, biMaxWrites = bi_max_writes bi\<rparr>
   | _ \<Rightarrow> \<lparr>biOffset = 0, biLength = 0, biLast = 0, biFlags = 0, biMaxWrites = 0\<rparr>)"

definition go_target_info :: "bdr_target_info \<Rightarrow> TargetInfo" where
  "go_target_info ti = \<lparr>tiPageSize = ti_page_size ti, tiWriteInfoSize = ti_write_info_size ti,
     tiBufferByteSize = ti_buffer_byte_size ti, tiBitmapByteSize = ti_bitmap_byte_size ti\<rparr>"

definition pause_monitor :: "Client \<Rightarrow> Client option" where
  "pause_monitor c = map_option (\<lambda>ch. c\<lparr>cPause := ch\<rparr>) (Pause (cPause c))"

definition resume_monitor :: "Client \<Rightarrow> Client option" where
  "resume_monitor c = map_option (\<lambda>ch. c\<lparr>cPause := ch\<rparr>) (Resume (cPause c))"

text \<open>What \<^verbatim>\<open>StartHashing\<close>, \<^verbatim>\<open>FullScan\<close> and \<^verbatim>\<open>FullReplicate\<close> share.\<close>

definition start_pass :: "ClientState \<Rightarrow> PacketType \<Rightarrow> Client \<Rightarrow> Client option" where
  "start_pass st t c =
     Option.bind (ResetBufferIOCTL c) (\<lambda>c1.
     Option.bind (pause_monitor c1) (\<lambda>c2.
     Client_SendPacket (CreateInfoPacket t) (Client_SetState st c2)))"

definition StartHashing :: "Client \<Rightarrow> Client option" where
  "StartHashing c = start_pass ClientHashing PacketTypeCmdStartHashing c"

definition FullScan :: "Client \<Rightarrow> Client option" where
  "FullScan c = start_pass ClientHashing PacketTypeCmdStartFullScan c"

definition FullReplicate :: "Client \<Rightarrow> Client option" where
  "FullReplicate c = start_pass ClientReplicating PacketTypeInfoStartReplication c"

subsection \<open>Receiving\<close>

text \<open>A dial takes the next outcome; when there is none the server cannot be reached.\<close>

definition DialTimeout :: "Client \<Rightarrow> conn option \<times> Client" where
  "DialTimeout c = (case cDials c of [] \<Rightarrow> (None, c) | d # ds \<Rightarrow> (d, c\<lparr>cDials := ds\<rparr>))"

partial_function (option) reconnect_loop :: "ClientState \<Rightarrow> Client \<Rightarrow> Client option" where
  "reconnect_loop pastState c = (case Client_CheckTermination c of (terminated, c1) \<Rightarrow>
     if terminated then Some c1
     else case DialTimeout c1 of
         (None, c2) \<Rightarrow> reconnect_loop pastState c2
       | (Some cn, c2) \<Rightarrow> (case GetDeviceSize (cUnderDev c2) of
            Inl e \<Rightarrow> reconnect_loop pastState c2
          | Inr deviceSize \<Rightarrow> (case conn_encode (init_packet deviceSize c2) cn of
               (Some e, cn1) \<Rightarrow> (case Client_CheckTermination c2 of (terminated, c3) \<Rightarrow>
                  if terminated then Some c3 else reconnect_loop pastState c3)
             | (None, cn1) \<Rightarrow>
                 (if pastState \<in> {ClientHashing, ClientReplicating, ClientWriting}
                  then StartHashing (c2\<lparr>cConn := cn1\<rparr>)
                  else Some (Client_SetState pastState (c2\<lparr>cConn := cn1\<rparr>))))))"

declare reconnect_loop.simps [code]

definition reconnectToServer :: "Client \<Rightarrow> Client option" where
  "reconnectToServer c =
     (let pastState = Client_GetState c; c1 = Client_SetState ClientReconnecting c
      in reconnect_loop pastState (c1\<lparr>cStats := RecordReconnection (cStats c1), cConn := conn_closed (cConn c1)\<rparr>))"

definition Client_Decode :: "Client \<Rightarrow> Packet result \<times> Client" where
  "Client_Decode c = (case conn_in (cConn c) of
     [] \<Rightarrow> (Inl (conn_end (cConn c)), c)
   | r # rs \<Rightarrow> (r, c\<lparr>cConn := (cConn c)\<lparr>conn_in := rs\<rparr>\<rparr>))"

partial_function (option) ReceivePacket :: "Client \<Rightarrow> (Packet option \<times> Client) option" where
  "ReceivePacket c = (case Client_CheckTermination c of (terminated, c1) \<Rightarrow>
     if terminated then Some (None, c1)
     else case Client_Decode c1 of
         (Inr packet, c2) \<Rightarrow> Some (Some packet, c2)
       | (Inl err, c2) \<Rightarrow>
           (if err = ErrTimeout then ReceivePacket c2
            else case Client_CheckTermination c2 of (terminated, c3) \<Rightarrow>
              if terminated then Some (None, c3)
              else if err = ErrEOF then Option.bind (reconnectToServer c3) ReceivePacket
              else ReceivePacket c3))"

declare ReceivePacket.simps [code]

subsection \<open>Start and end\<close>

text \<open>
  \<^verbatim>\<open>NewClient\<close>: the control device is the kernel module's context if it can be opened, \<open>mmap\<close>
  is whether the buffer can be mapped, \<open>dialed\<close> the connection if the server accepts it.
\<close>

definition NewClient ::
    "bool \<Rightarrow> bdr_context option \<Rightarrow> bool \<Rightarrow> bool list \<Rightarrow> bool \<Rightarrow> conn option \<Rightarrow> conn option list \<Rightarrow>
     (ClientState \<times> conn) option list \<Rightarrow> nat option \<Rightarrow> device \<Rightarrow> Client result" where
  "NewClient bench chardev copied ioctls mmap dialed dials events termIn ud = (case chardev of
     None \<Rightarrow> Inl (ErrMsg ''falied to open charecter device'')
   | Some bc \<Rightarrow> (case bdr_chardev_ioctl BDR_CMD_GET_TARGET_INFO copied 0 bc of
        Some (Inr (ReplyTargetInfo ti), bc1) \<Rightarrow>
          if \<not> mmap then Inl (ErrMsg ''mmap failed'')
          else (case dialed of
             None \<Rightarrow> Inl (ErrMsg ''failed to connect to receiver'')
           | Some cn \<Rightarrow> (case OpenFile ud of
                Inl e \<Rightarrow> Inl (ErrMsg ''failed to open target device'')
              | Inr u \<Rightarrow> Inr \<lparr>cTargetInfo = go_target_info ti, cConn = cn, cDials = dials, cListener = events, cUnderDev = ud, cKernel = bc1,
                   cIoctls = ioctls, cPause = NewPauseController, TermIn = termIn, cStats = NewBenchmarkStats bench,
                   cOpen = True, cstate = ClientWriting\<rparr>))
      | _ \<Rightarrow> Inl (ErrMsg ''ioctl get info from target failed'')))"

definition Client_CloseClientConn :: "Client \<Rightarrow> Client" where
  "Client_CloseClientConn c = c\<lparr>cConn := conn_closed (cConn c)\<rparr>"

definition CloseResources :: "Client \<Rightarrow> Client" where
  "CloseResources c = c\<lparr>cOpen := False\<rparr>"

subsection \<open>Captured writes\<close>

text \<open>The shared buffer, mapped with the size the kernel module reported.\<close>

definition cBuf :: "Client \<Rightarrow> bytes" where
  "cBuf c = take (unat (tiBufferByteSize (cTargetInfo c))) (rb_buffer (ring_buf (cKernel c)))"

definition GetBufferInfoByteOffset :: "Client \<Rightarrow> BufferInfo \<Rightarrow> u64 \<Rightarrow> u64" where
  "GetBufferInfoByteOffset c bufferInfo off =
     ((biOffset bufferInfo + off) mod biMaxWrites bufferInfo) * ucast (tiWriteInfoSize (cTargetInfo c))"

text \<open>Reading one entry: a field that the entry is too short for is an error.\<close>

definition read_slot :: "u64 \<Rightarrow> bytes \<Rightarrow> WriteInfo result" where
  "read_slot pageSize data =
     (if length data < 4 then Inl ErrEOF
      else let sector = (get_le (bslice 0 4 data) :: u32) in
        if length data < 8 then Inl ErrEOF
        else if length data < 8 + unat pageSize then Inl ErrEOF
        else Inr \<lparr>wiOffset = KernelLogicalSectorSize * ucast sector, wiSize = get_le (bslice 4 4 data),
                  wiData = bslice 8 (unat pageSize) data\<rparr>)"

text \<open>A division by zero and a slice outside the buffer panic.\<close>

definition buffer_entry :: "BufferInfo \<Rightarrow> u64 \<Rightarrow> Client \<Rightarrow> WriteInfo result" where
  "buffer_entry bufferInfo i c =
     (if biMaxWrites bufferInfo = 0 then Inl Panic
      else let bufBegin = GetBufferInfoByteOffset c bufferInfo i;
               bufEnd = bufBegin + ucast (tiWriteInfoSize (cTargetInfo c))
           in if unat bufEnd > length (cBuf c) \<or> bufBegin > bufEnd then Inl Panic
              else read_slot (tiPageSize (cTargetInfo c)) (bslice (unat bufBegin) (unat (bufEnd - bufBegin)) (cBuf c)))"

text \<open>\<^verbatim>\<open>Inr None\<close> is a return because of the termination.\<close>

partial_function (option) read_entry :: "BufferInfo \<Rightarrow> u64 \<Rightarrow> Client \<Rightarrow> (WriteInfo option result \<times> Client) option" where
  "read_entry bufferInfo i c = (case buffer_entry bufferInfo i c of
     Inr w \<Rightarrow> Some (Inr (Some w), c)
   | Inl err \<Rightarrow>
       if err = Panic then Some (Inl Panic, c)
       else case Client_CheckTermination c of (terminated, c1) \<Rightarrow>
         if terminated then Some (Inr None, c1) else read_entry bufferInfo i c1)"

declare read_entry.simps [code]

text \<open>The inner loop that sends one write; the flag says whether it was sent.\<close>

partial_function (option) send_write :: "Packet \<Rightarrow> Client \<Rightarrow> (bool \<times> Client) option" where
  "send_write packet c = (case Client_Encode packet c of
     (None, c1) \<Rightarrow> Some (True, c1)
   | (Some err, c1) \<Rightarrow>
       if Client_GetState (listener_acts c1) = ClientReconnecting then Some (False, listener_acts c1)
       else case Client_CheckTermination (listener_acts c1) of (terminated, c2) \<Rightarrow>
         if terminated then Some (False, c2) else send_write packet (listener_acts c2))"

declare send_write.simps [code]

definition buffer_write_packet :: "WriteInfo \<Rightarrow> Packet" where
  "buffer_write_packet w = \<lparr>PacketTypeOf = PacketTypePayloadBufferWrite, PayloadOf = PWrite w\<rparr>"

fun process_writes :: "nat \<Rightarrow> u64 \<Rightarrow> BufferInfo \<Rightarrow> bool \<Rightarrow> Client \<Rightarrow> (unit result \<times> Client) option" where
  "process_writes 0 i bufferInfo mainLoop c = Some (Inr (), c)"
| "process_writes (Suc n) i bufferInfo mainLoop c =
     Option.bind (IsPaused (cPause c)) (\<lambda>(paused, ch). let c0 = c\<lparr>cPause := ch\<rparr> in
       if paused \<and> mainLoop then Some (Inr (), c0)
       else Option.bind (read_entry bufferInfo i c0) (\<lambda>rc. case rc of
           (Inl e, c1) \<Rightarrow> Some (Inl e, c1)
         | (Inr None, c1) \<Rightarrow> Some (Inr (), c1)
         | (Inr (Some w), c1) \<Rightarrow> Option.bind (send_write (buffer_write_packet w) c1) (\<lambda>(ok, c2).
              if ok then process_writes n (i + 1) bufferInfo mainLoop c2 else Some (Inr (), c2))))"

definition ProcessBufferInfo :: "BufferInfo \<Rightarrow> bool \<Rightarrow> Client \<Rightarrow> (unit result \<times> Client) option" where
  "ProcessBufferInfo bufferInfo mainLoop c = process_writes (unat (biLength bufferInfo)) 0 bufferInfo mainLoop c"

text \<open>
  An iteration of \<^verbatim>\<open>MonitorChanges\<close>; \<open>pick\<close> and \<open>es\<close> are what the wait in the pause controller
  chooses and meets, the flag says whether the loop has returned.
\<close>

definition monitor_step :: "bool \<Rightarrow> WaitEvent list \<Rightarrow> Client \<Rightarrow> (bool result \<times> Client) option" where
  "monitor_step pick es c = (case Client_CheckTermination c of (closed_term, c0) \<Rightarrow>
     (case WaitIfPaused closed_term pick (cPause c0) es of
        (None, ch) \<Rightarrow> None
      | (Some terminated, ch) \<Rightarrow> (let c1 = c0\<lparr>cPause := ch\<rparr> in
          if terminated then Some (Inr True, c1)
          else Option.bind (ServeIOCTL BDR_CMD_READ_BUFFER_INFO c1) (\<lambda>(r, c2).
            let bufferInfo = go_buffer_info r in
            if \<not> HasNewWrites bufferInfo then Some (Inr False, c2)
            else if CheckOverflow bufferInfo
            then map_option (Pair (Inr False)) (StartHashing (c2\<lparr>cStats := RecordBufferOverflow (cStats c2)\<rparr>))
            else map_option (\<lambda>(r, c3). (case r of Inl e \<Rightarrow> Inl e | Inr u \<Rightarrow> Inr False, c3)) (ProcessBufferInfo bufferInfo True c2)))))"

fun MonitorChanges :: "(bool \<times> WaitEvent list) list \<Rightarrow> Client \<Rightarrow> (bool result \<times> Client) option" where
  "MonitorChanges [] c = Some (Inr False, c)"
| "MonitorChanges ((pick, es) # rounds) c = Option.bind (monitor_step pick es c) (\<lambda>(r, c1).
     if r = Inr False then MonitorChanges rounds c1 else Some (r, c1))"

definition SendBuffer :: "Client \<Rightarrow> (bool result \<times> Client) option" where
  "SendBuffer c = Option.bind (ServeIOCTL BDR_CMD_READ_BUFFER_INFO c) (\<lambda>(r, c1).
     let bufferInfo = go_buffer_info r in
     if \<not> HasNewWrites bufferInfo then Some (Inr True, c1)
     else if CheckOverflow bufferInfo then Some (Inr False, c1)
     else map_option (\<lambda>(r, c2). (case r of Inl e \<Rightarrow> Inl e | Inr u \<Rightarrow> Inr True, c2)) (ProcessBufferInfo bufferInfo False c1))"

definition ProcessBuffer :: "Client \<Rightarrow> (unit result \<times> Client) option" where
  "ProcessBuffer c = Option.bind (SendBuffer c) (\<lambda>rc. case rc of
     (Inl e, c1) \<Rightarrow> Some (Inl e, c1)
   | (Inr False, c1) \<Rightarrow> map_option (Pair (Inr ())) (StartHashing c1)
   | (Inr True, c1) \<Rightarrow>
       Option.bind (resume_monitor (Client_SetState ClientWriting c1)) (\<lambda>c2.
         map_option (Pair (Inr ())) (Client_SendPacket (CreateInfoPacket PacketTypeInfoHashingCompleted) c2)))"

subsection \<open>The passes\<close>

text \<open>
  \<^verbatim>\<open>InitHashing\<close> after its pipeline, whose results are the list of items in the order the
  workers finish them: a comparison sends the block when the hashes differ, and a packet the
  readers could not use has started a new scan.
\<close>

fun scan_result :: "ScanItem \<Rightarrow> Client \<Rightarrow> Client option" where
  "scan_result (CompItem hashInfo buffer h) c =
     (if h \<noteq> hiHash hashInfo then SendCorrectBlock buffer (hiOffset hashInfo) (hiSize hashInfo) c else Some c)"
| "scan_result (HashPacket packet) c = StartHashing c"
| "scan_result (ScanWork hashInfo buffer) c = Some c"

fun scan_results :: "ScanItem list \<Rightarrow> Client \<Rightarrow> Client option" where
  "scan_results [] c = Some c"
| "scan_results (it # items) c = Option.bind (scan_result it c) (scan_results items)"

definition hashed_bytes :: "ScanItem list \<Rightarrow> u64" where
  "hashed_bytes items = (\<Sum>it\<leftarrow>items. case it of CompItem hashInfo buffer h \<Rightarrow> ucast (hiSize hashInfo) | _ \<Rightarrow> 0)"

definition InitHashing :: "ScanItem list \<Rightarrow> u64 \<Rightarrow> Client \<Rightarrow> Client option" where
  "InitHashing items elapsed c = map_option
     (\<lambda>c1. c1\<lparr>cStats := RecordHashing elapsed (hashed_bytes items) (cStats c1)\<rparr>) (scan_results items c)"

text \<open>The senders of \<^verbatim>\<open>InitReplication\<close>, of which \<open>n\<close> are left, and the end of it.\<close>

fun send_blocks :: "nat \<Rightarrow> ReplicationItem list \<Rightarrow> Client \<Rightarrow> Client option" where
  "send_blocks 0 items c = Some c"
| "send_blocks (Suc n) [] c = Some c"
| "send_blocks (Suc n) (ReadItem offset sz # items) c = send_blocks (Suc n) items c"
| "send_blocks (Suc n) (SendItem buffer offset sz # items) c = (case Client_CheckTermination c of (terminated, c1) \<Rightarrow>
     if terminated then send_blocks n items c1
     else Option.bind (SendReplicationBlock buffer offset sz c1) (send_blocks (Suc n) items))"

definition InitReplication :: "nat \<Rightarrow> ReplicationItem list \<Rightarrow> Client \<Rightarrow> Client option" where
  "InitReplication numWorkers items c =
     Option.bind (send_blocks numWorkers items c) (\<lambda>c1.
     Option.bind (Client_SendPacket (CreateInfoPacket PacketTypeInfoReplicationCompleted) c1) (\<lambda>c2.
     resume_monitor (Client_SetState ClientWriting c2)))"

subsection \<open>The packets of the server\<close>

text \<open>
  The listener has a queue of hash packets and, between the start and the end of a scan, the
  goroutine of \<^verbatim>\<open>InitHashing\<close> that takes them; without it a full queue blocks the listener.
  The effects of the scan are those of the results \<open>items\<close> when the listener waits for it.
  They are an argument: which results the stages of \<^verbatim>\<open>InitHashing\<close> can give for the packets
  queued is the subject of \<open>scan_stage\<close> and the pipeline.
\<close>

record listener =
  lk_queue :: "Packet list"
  lk_hashing :: bool

definition new_listener :: "bool \<Rightarrow> listener" where
  "new_listener hashing = \<lparr>lk_queue = [], lk_hashing = hashing\<rparr>"

definition wait_hashing :: "ScanItem list \<Rightarrow> u64 \<Rightarrow> listener \<Rightarrow> Client \<Rightarrow> Client option" where
  "wait_hashing items elapsed l c = (if lk_hashing l then InitHashing items elapsed c else Some c)"

definition listen_packet ::
    "ScanItem list \<Rightarrow> u64 \<Rightarrow> Packet \<Rightarrow> listener \<Rightarrow> Client \<Rightarrow> (bool result \<times> listener \<times> Client) option" where
  "listen_packet items elapsed packet l c = (case PacketTypeOf packet of
     PacketTypeInfoStartHashing \<Rightarrow>
       map_option (\<lambda>c1. (Inr False, new_listener True, c1)) (wait_hashing items elapsed l c)
   | PacketTypePayloadHash \<Rightarrow>
       if lk_hashing l \<or> length (lk_queue l) < HashPacketQueueSize
       then Some (Inr False, l\<lparr>lk_queue := lk_queue l @ [packet]\<rparr>, c) else None
   | PacketTypeInfoHashingCompleted \<Rightarrow>
       Option.bind (wait_hashing items elapsed l c) (\<lambda>c1.
       Option.bind (ProcessBuffer c1) (\<lambda>(r, c2).
         Some (case r of Inl e \<Rightarrow> Inl e | Inr u \<Rightarrow> Inr False, new_listener False, c2)))
   | PacketTypeErrJournalOverflow \<Rightarrow>
       map_option (\<lambda>c1. (Inr True, new_listener False, Client_InitiateShutdown c1)) (wait_hashing items elapsed l c)
   | PacketTypeErrInit \<Rightarrow> Some (Inr False, l, Client_InitiateShutdown c)
   | PacketTypeErrInvalidSizes \<Rightarrow> Some (Inr False, l, Client_InitiateShutdown c)
   | PacketTypeErrJournalCreate \<Rightarrow> Some (Inr False, l, Client_InitiateShutdown c)
   | _ \<Rightarrow> Some (Inr False, l, c))"

text \<open>An iteration of \<^verbatim>\<open>ListenPackets\<close>, and the loop with what the scans give in each.\<close>

definition listen_step :: "ScanItem list \<Rightarrow> u64 \<Rightarrow> listener \<Rightarrow> Client \<Rightarrow> (bool result \<times> listener \<times> Client) option" where
  "listen_step items elapsed l c = Option.bind (ReceivePacket c) (\<lambda>(received, c1).
     case Client_CheckTermination c1 of (terminated, c2) \<Rightarrow>
       if terminated
       then map_option (\<lambda>c3. (Inr True, new_listener False, c3)) (wait_hashing items elapsed l c2)
       else case received of
           None \<Rightarrow> Some (Inr False, l, c2)
         | Some packet \<Rightarrow> listen_packet items elapsed packet l c2)"

fun ListenPackets :: "(ScanItem list \<times> u64) list \<Rightarrow> listener \<Rightarrow> Client \<Rightarrow> (bool result \<times> listener \<times> Client) option" where
  "ListenPackets [] l c = Some (Inr False, l, c)"
| "ListenPackets ((items, elapsed) # rounds) l c = Option.bind (listen_step items elapsed l c) (\<lambda>(r, l1, c1).
     if r = Inr False then ListenPackets rounds l1 c1 else Some (r, l1, c1))"

subsection \<open>The program\<close>

text \<open>
  \<^verbatim>\<open>Run\<close> up to the start of the goroutines, and from the signal or the termination to the
  end; in between the goroutines \<open>MonitorChanges\<close>, \<open>ListenPackets\<close> and \<open>InitReplication\<close> work
  on the client in some interleaving, which is the argument \<open>goroutines\<close>.
\<close>

definition Run_start :: "ClientConfig \<Rightarrow> Client \<Rightarrow> Client option" where
  "Run_start cfg c =
     (if ccFullScan cfg then FullScan c
      else if ccFullReplicate cfg then FullReplicate c
      else if ccInitialReplication cfg then StartHashing c
      else Some c)"

definition Run_end :: "Client \<Rightarrow> Client" where
  "Run_end c = CloseResources (Client_CloseClientConn (Client_InitiateShutdown c))"

definition Client_Run :: "ClientConfig \<Rightarrow> (Client \<Rightarrow> Client option) \<Rightarrow> Client \<Rightarrow> Client option" where
  "Client_Run cfg goroutines c = Option.bind (Run_start cfg c) (\<lambda>c1. map_option Run_end (goroutines c1))"

definition Client_main :: "Flags \<Rightarrow> (ClientConfig \<Rightarrow> Client result) \<Rightarrow> (Client \<Rightarrow> Client option) \<Rightarrow> (Client result) option" where
  "Client_main args new_client goroutines =
     (let cfg = Client_NewConfig args in
      case Client_ValidateArgs (Some (ccCharDevicePath cfg)) (Some (ccUnderDevicePath cfg)) (Some (ccIpAddress cfg)) (Some (ccPort cfg)) of
        Inl e \<Rightarrow> Some (Inl e)
      | Inr u \<Rightarrow> (case new_client cfg of
           Inl e \<Rightarrow> Some (Inl (ErrMsg ''Failed to initiate sender''))
         | Inr client \<Rightarrow> Option.bind (SendInitPacket client) (\<lambda>rc. case rc of
              (Inl e, c1) \<Rightarrow> Some (Inl (ErrMsg ''failed to sent init packet''))
            | (Inr u, c1) \<Rightarrow> map_option Inr (Client_Run cfg goroutines c1))))"

end
