(* ===== verification/Scan_Correct.thy ===== *)
theory Scan_Correct
  imports Scan
begin

text \<open>
  Correctness of a disk pass.  A complete pass of \<^verbatim>\<open>HashDisk\<close> announces every block of
  the target once (\<open>hash_pass\<close>); a complete pass of \<^verbatim>\<open>InitHashing\<close> over these packets
  sends correct blocks that make the target a blend of the images of the source
  (\<open>scan_pass\<close>); replaying the writes that happened meanwhile turns any such blend into the
  last image of the source (\<open>blend_redo\<close>).
\<close>


text \<open>Block \<open>k\<close> of an image, and what the pass computes for it.\<close>

definition blk :: "nat \<Rightarrow> nat \<Rightarrow> bytes \<Rightarrow> bytes" where
  "blk R k b = bslice (k * R) R b"

definition blk_off :: "nat \<Rightarrow> nat \<Rightarrow> u64" where
  "blk_off R k = of_nat (k * R)"

definition block_hash :: "(bytes \<Rightarrow> u64) \<Rightarrow> nat \<Rightarrow> bytes \<Rightarrow> nat \<Rightarrow> HashInfo" where
  "block_hash hash R T k =
     \<lparr>hiOffset = blk_off R k, hiSize = of_nat (length (blk R k T)), hiHash = hash (blk R k T)\<rparr>"

definition hash_packet :: "HashInfo \<Rightarrow> Packet" where
  "hash_packet hi = \<lparr>PacketTypeOf = PacketTypePayloadHash, PayloadOf = PHash hi\<rparr>"

text \<open>The sizes the passes work with: a device of less than \<open>2 ^ 63\<close> bytes, blocks of less than \<open>2 ^ 32\<close>.\<close>

definition pass_sizes :: "u64 \<Rightarrow> nat \<Rightarrow> bool" where
  "pass_sizes readSize L \<longleftrightarrow> 0 < unat readSize \<and> unat readSize < 2 ^ 32 \<and> L < 2 ^ 63"

lemma length_blk: "length (blk R k T) = min R (length T - k * R)"
  by (simp add: blk_def)

lemma pass_sizes_index:
  assumes "pass_sizes readSize L" and "k < block_count (unat readSize) L"
  shows "k * unat readSize < L" and "unat (blk_off (unat readSize) k) = k * unat readSize"
    and "length T = L \<Longrightarrow> unat (of_nat (length (blk (unat readSize) k T)) :: u32) = min (unat readSize) (L - k * unat readSize)"
    and "length T = L \<Longrightarrow> blk (unat readSize) k T \<noteq> []"
proof -
  have R: "0 < unat readSize" "unat readSize < 2 ^ 32" "L < 2 ^ 63" using assms(1) by (auto simp: pass_sizes_def)
  show lt: "k * unat readSize < L" using less_block_count [OF R(1)] assms(2) by blast
  then have "k * unat readSize < 2 ^ 64" using R(3) by simp
  then show "unat (blk_off (unat readSize) k) = k * unat readSize"
    by (simp add: blk_off_def unat_of_nat del: of_nat_mult)
  show "length T = L \<Longrightarrow> unat (of_nat (length (blk (unat readSize) k T)) :: u32) = min (unat readSize) (L - k * unat readSize)"
    using R(2) by (simp add: unat_of_nat length_blk min_def)
  show "length T = L \<Longrightarrow> blk (unat readSize) k T \<noteq> []"
    using lt R(1) by (auto simp: length_blk simp flip: length_0_conv)
qed

lemma pass_offsets:
  assumes "pass_sizes readSize L"
  shows "block_offsets readSize (of_nat L) 0 =
    Some (map (blk_off (unat readSize)) [0..<block_count (unat readSize) L])"
proof -
  have R: "0 < unat readSize" "unat readSize < 2 ^ 32" "L < 2 ^ 63" using assms by (auto simp: pass_sizes_def)
  have "unat (of_nat L :: u64) = L" using R(3) by (simp add: unat_of_nat)
  then show ?thesis
    using block_offsets_from [of readSize "of_nat L" 0] R
    by (simp add: blk_off_def word_gt_0 unat_gt_0 del: of_nat_mult)
qed

subsection \<open>A complete pass of HashDisk\<close>

lemma hash_read_block:
  assumes "pass_sizes readSize (length (dev_bytes td))" and "healthy td"
    and "k < block_count (unat readSize) (length (dev_bytes td))"
  shows "hash_read readSize (blk_off (unat readSize) k) td =
     Pass (WorkItem (blk_off (unat readSize) k) (blk (unat readSize) k (dev_bytes td)))"
proof -
  note ix = pass_sizes_index [OF assms(1,3)]
  have "\<not> sint (blk_off (unat readSize) k) < 0"
    using ix(1) assms(1) by (intro sint_u64_nonneg) (simp add: ix(2) pass_sizes_def)
  moreover have "0 < unat readSize" using assms(1) by (simp add: pass_sizes_def)
  ultimately show ?thesis using ix(2) ix(4) [OF refl] assms(2)
    by (auto simp: hash_read_def ReadAt_def blk_def)
qed

lemma hash_flows:
  assumes "pass_sizes readSize (length (dev_bytes td))" and "healthy td"
    and "k < block_count (unat readSize) (length (dev_bytes td))"
    and "x = ReadTask (blk_off (unat readSize) k)"
  shows "flows (hash_work_ok hash readSize td) (Suc 0) x y \<longleftrightarrow>
      y = WorkItem (blk_off (unat readSize) k) (blk (unat readSize) k (dev_bytes td))"
    and "flows (hash_work_ok hash readSize td) (Suc (Suc 0)) x y \<longleftrightarrow>
      y = (case block_hash hash (unat readSize) (dev_bytes td) k of hi \<Rightarrow> ResultItem (hiOffset hi) (hiSize hi) (hiHash hi) None)"
    and "flows (hash_work_ok hash readSize td) (Suc (Suc (Suc 0))) x y \<longleftrightarrow>
      y = (case block_hash hash (unat readSize) (dev_bytes td) k of hi \<Rightarrow> ResultItem (hiOffset hi) (hiSize hi) (hiHash hi) None)"
  using assms(4) hash_read_block [OF assms(1-3)] by (auto simp: hash_work_ok_def block_hash_def)


lemma less_3_cases: "k < 3 \<Longrightarrow> k = 0 \<or> k = Suc 0 \<or> k = Suc (Suc 0)"
  by auto

lemma hash_smooth:
  assumes "pass_sizes readSize (length (dev_bytes td))" and "healthy td"
  shows "smooth 3 (hash_work_ok hash readSize td)
     (map (\<lambda>k. ReadTask (blk_off (unat readSize) k)) [0..<block_count (unat readSize) (length (dev_bytes td))])"
  unfolding smooth_def
proof (intro ballI allI impI, elim conjE)
  fix x m y v
  assume "x \<in> set (map (\<lambda>k. ReadTask (blk_off (unat readSize) k)) [0..<block_count (unat readSize) (length (dev_bytes td))])"
  then obtain k where k: "k < block_count (unat readSize) (length (dev_bytes td))" and x: "x = ReadTask (blk_off (unat readSize) k)"
    by auto
  assume "m < 3" and fl: "flows (hash_work_ok hash readSize td) m x y" and v: "hash_work_ok hash readSize td m y v"
  then consider "m = 0" | "m = Suc 0" | "m = Suc (Suc 0)" using less_3_cases by blast
  then show "\<exists>z. v = Pass z"
    using fl v hash_flows [OF assms k x] hash_read_block [OF assms k] x
    by cases (auto simp: hash_work_ok_def block_hash_def)
qed

lemma mset_concat_cong: "mset xss = mset yss \<Longrightarrow> mset (concat xss) = mset (concat yss)"
  by (simp add: mset_concat flip: sum_mset_sum_list)

text \<open>
  Whatever the interleaving of its workers, a complete pass of \<^verbatim>\<open>HashDisk\<close> over a target
  that does not fail yields exactly one result per block.
\<close>

lemma hash_pass:
  assumes sz: "pass_sizes readSize (length (dev_bytes td))" and "healthy td" and "0 < w"
    and offs: "block_offsets readSize (of_nat (length (dev_bytes td))) 0 = Some offs"
    and run: "pipe_runs 3 cap (hash_work_ok hash readSize td) w (map ReadTask offs) q"
  shows "mset (concat (map result_packets (out q))) =
     mset (map (\<lambda>k. hash_packet (block_hash hash (unat readSize) (dev_bytes td) k))
            [0..<block_count (unat readSize) (length (dev_bytes td))])"
proof -
  let ?n = "block_count (unat readSize) (length (dev_bytes td))"
  let ?f = "\<lambda>k. hash_packet (block_hash hash (unat readSize) (dev_bytes td) k)"
  have src: "map ReadTask offs = map (\<lambda>k. ReadTask (blk_off (unat readSize) k)) [0..<?n]"
    using offs pass_offsets [OF sz] by (auto simp: comp_def)
  let ?src = "map (\<lambda>k. ReadTask (blk_off (unat readSize) k)) [0..<?n]"
  have rel: "rel_mset (flows (hash_work_ok hash readSize td) 3) (mset ?src) (mset (out q))"
    using pipe_complete [OF run] hash_smooth [OF sz assms(2)] assms(3) by (simp add: src)
  have key: "unat (blk_off (unat readSize) k) div unat readSize = k" if "k < ?n" for k
    using pass_sizes_index(2) [OF sz that] sz by (simp add: pass_sizes_def)
  have "image_mset result_packets (mset (out q)) =
      image_mset (\<lambda>t. case t of ReadTask offset \<Rightarrow> [?f (unat offset div unat readSize)] | _ \<Rightarrow> []) (mset ?src)"
    by (rule rel_mset_image [OF rel])
      (auto simp: numeral_3_eq_3 hash_flows [OF sz assms(2) _ refl] key block_hash_def hash_packet_def simp del: flows.simps)
  also have "\<dots> = image_mset (\<lambda>k. [?f k]) (mset [0..<?n])"
    unfolding mset_map [symmetric] map_map by (rule arg_cong [of _ _ mset]) (auto simp: key)
  finally have "mset (map result_packets (out q)) = mset (map (\<lambda>k. [?f k]) [0..<?n])" by simp
  from mset_concat_cong [OF this] show ?thesis by (simp only: concat_map_singleton)
qed


subsection \<open>A complete pass of InitHashing\<close>

text \<open>The correct blocks the client sends for the items that came out, as writes to the target.\<close>

fun packet_block :: "Packet \<Rightarrow> disk_write list" where
  "packet_block p = (case PayloadOf p of PCorrect c \<Rightarrow> [block_op c] | _ \<Rightarrow> [])"

definition scan_ops :: "ScanItem list \<Rightarrow> disk_write list" where
  "scan_ops items = concat (map packet_block (concat (map comp_packets items)))"

lemma scan_ops_simps [simp]:
  "scan_ops [] = []"
  "scan_ops (CompItem hi buf h # items) = (if h \<noteq> hiHash hi then [(unat (hiOffset hi), buf)] else []) @ scan_ops items"
  "scan_ops (HashPacket p # items) = scan_ops items"
  "scan_ops (ScanWork hi buf # items) = scan_ops items"
  by (simp_all add: scan_ops_def correct_block_packet_def block_op_def)

lemma blend_length: "blend hist b \<Longrightarrow> hist \<noteq> [] \<Longrightarrow> (\<And>img. img \<in> set hist \<Longrightarrow> length img = L) \<Longrightarrow> length b = L"
  by (auto simp: blend_def neq_Nil_conv)

lemma scan_read_block:
  assumes "pass_sizes readSize (length T)" and "k < block_count (unat readSize) (length T)"
    and "healthy ud" and "length (dev_bytes ud) = length T"
  shows "scan_read (hash_packet (block_hash hash (unat readSize) T k)) ud =
     Pass (ScanWork (block_hash hash (unat readSize) T k) (blk (unat readSize) k (dev_bytes ud)))"
proof -
  note ix = pass_sizes_index [OF assms(1,2)]
  let ?m = "min (unat readSize) (length T - k * unat readSize)"
  have rd: "ReadAt ?m (blk_off (unat readSize) k) ud = ((bslice (k * unat readSize) ?m (dev_bytes ud), None), ud)"
    using ReadAt_ok [OF assms(3), of "blk_off (unat readSize) k" ?m] ix(1,2) assms(1,4) by (simp add: pass_sizes_def)
  have "bslice (k * unat readSize) ?m (dev_bytes ud) = blk (unat readSize) k (dev_bytes ud)"
    using assms(4) by (auto simp: blk_def bslice_def min_def)
  then show ?thesis using rd ix(3) [OF refl] assms(4)
    by (simp add: scan_read_def hash_packet_def block_hash_def length_blk)
qed

definition scan_item :: "(bytes \<Rightarrow> u64) \<Rightarrow> nat \<Rightarrow> bytes \<Rightarrow> nat \<Rightarrow> bytes \<Rightarrow> ScanItem" where
  "scan_item hash R T k b = CompItem (block_hash hash R T k) (blk R k b) (hash (blk R k b))"

lemma scan_flows:
  assumes sz: "pass_sizes readSize (length T)" and k: "k < block_count (unat readSize) (length T)"
    and hist: "hist \<noteq> []" "\<And>img. img \<in> set hist \<Longrightarrow> length img = length T"
    and x: "x = HashPacket (hash_packet (block_hash hash (unat readSize) T k))"
  shows "flows (scan_work_ok hash hist) (Suc 0) x y \<Longrightarrow>
      \<exists>b. blend hist b \<and> y = ScanWork (block_hash hash (unat readSize) T k) (blk (unat readSize) k b)"
    and "flows (scan_work_ok hash hist) (Suc (Suc 0)) x y \<Longrightarrow> \<exists>b. blend hist b \<and> y = scan_item hash (unat readSize) T k b"
    and "flows (scan_work_ok hash hist) (Suc (Suc (Suc 0))) x y \<Longrightarrow> \<exists>b. blend hist b \<and> y = scan_item hash (unat readSize) T k b"
proof -
  have 1: "\<exists>b. blend hist b \<and> y = ScanWork (block_hash hash (unat readSize) T k) (blk (unat readSize) k b)"
    if "flows (scan_work_ok hash hist) (Suc 0) x y" for y
    using that scan_read_block [OF sz k] blend_length [OF _ hist] x by (auto simp: scan_work_ok_def)
  then show "flows (scan_work_ok hash hist) (Suc 0) x y \<Longrightarrow>
      \<exists>b. blend hist b \<and> y = ScanWork (block_hash hash (unat readSize) T k) (blk (unat readSize) k b)" .
  have 2: "\<exists>b. blend hist b \<and> y = scan_item hash (unat readSize) T k b"
    if f: "flows (scan_work_ok hash hist) (Suc (Suc 0)) x y" for y
  proof -
    obtain y' where y': "flows (scan_work_ok hash hist) (Suc 0) x y'" "scan_work_ok hash hist (Suc 0) y' (Pass y)"
      using f by (subst (asm) flows.simps(2)) blast
    from 1 [OF y'(1)] y'(2) show ?thesis by (auto simp: scan_work_ok_def scan_item_def)
  qed
  then show "flows (scan_work_ok hash hist) (Suc (Suc 0)) x y \<Longrightarrow> \<exists>b. blend hist b \<and> y = scan_item hash (unat readSize) T k b" .
  show "\<exists>b. blend hist b \<and> y = scan_item hash (unat readSize) T k b"
    if f: "flows (scan_work_ok hash hist) (Suc (Suc (Suc 0))) x y"
  proof -
    obtain y' where y': "flows (scan_work_ok hash hist) (Suc (Suc 0)) x y'" "scan_work_ok hash hist (Suc (Suc 0)) y' (Pass y)"
      using f by (subst (asm) flows.simps(2)) blast
    from 2 [OF y'(1)] y'(2) show ?thesis by (auto simp: scan_work_ok_def scan_item_def)
  qed
qed

lemma scan_smooth:
  assumes sz: "pass_sizes readSize (length T)"
    and hist: "hist \<noteq> []" "\<And>img. img \<in> set hist \<Longrightarrow> length img = length T"
    and src: "set ps \<subseteq> (\<lambda>k. hash_packet (block_hash hash (unat readSize) T k)) ` {..<block_count (unat readSize) (length T)}"
  shows "smooth 3 (scan_work_ok hash hist) (map HashPacket ps)"
  unfolding smooth_def
proof (intro ballI allI impI, elim conjE)
  fix x m y v
  assume "x \<in> set (map HashPacket ps)"
  then obtain k where k: "k < block_count (unat readSize) (length T)"
      and x: "x = HashPacket (hash_packet (block_hash hash (unat readSize) T k))" using src by auto
  assume "m < 3" and fl: "flows (scan_work_ok hash hist) m x y" and v: "scan_work_ok hash hist m y v"
  then consider "m = 0" | "m = Suc 0" | "m = Suc (Suc 0)" using less_3_cases by blast
  then show "\<exists>z. v = Pass z"
  proof cases
    case 1
    then show ?thesis using fl v x scan_read_block [OF sz k] blend_length [OF _ hist] by (auto simp: scan_work_ok_def)
  next
    case 2
    from scan_flows(1) [OF sz k hist x fl [unfolded 2]] v 2 show ?thesis by (auto simp: scan_work_ok_def)
  next
    case 3
    from scan_flows(2) [OF sz k hist x fl [unfolded 3]] v 3 show ?thesis by (auto simp: scan_work_ok_def scan_item_def)
  qed
qed


subsection \<open>The target after the pass\<close>

lemma replay_unique:
  assumes "(o', d) \<in> set ops" and "i < length T" and "o' \<le> i" and "i < o' + length d"
    and "\<And>op. op \<in> set ops \<Longrightarrow> i \<in> footprint op \<Longrightarrow> op = (o', d)"
  shows "replay ops T ! i = d ! (i - o')"
  using assms
proof (induction ops arbitrary: T rule: rev_induct)
  case (snoc op ops)
  show ?case
  proof (cases "i \<in> footprint op")
    case True
    then have "op = (o', d)" by (intro snoc.prems(5)) simp_all
    then show ?thesis using snoc.prems(2-4) by (simp add: nth_overwrite)
  next
    case False
    then have ne: "op \<noteq> (o', d)" using snoc.prems(3,4) by (auto simp: footprint_def)
    have "replay ops T ! i = d ! (i - o')"
    proof (rule snoc.IH)
      show "(o', d) \<in> set ops" using snoc.prems(1) ne by simp
      show "\<And>op. op \<in> set ops \<Longrightarrow> i \<in> footprint op \<Longrightarrow> op = (o', d)" by (rule snoc.prems(5)) simp_all
    qed (use snoc.prems(2-4) in simp_all)
    then show ?thesis using False snoc.prems(2) by (auto simp: nth_overwrite footprint_def)
  qed
qed simp

lemma replay_untouched: "i < length T \<Longrightarrow> i \<notin> footprints ops \<Longrightarrow> replay ops T ! i = T ! i"
  using replay_within [of ops T] by (auto simp: agree_off_def)

lemma scan_ops_iff:
  "(p, d) \<in> set (scan_ops items) \<longleftrightarrow>
     (\<exists>hi h. CompItem hi d h \<in> set items \<and> h \<noteq> hiHash hi \<and> p = unat (hiOffset hi))"
proof (induction items)
  case (Cons it items)
  then show ?case by (cases it) auto
qed simp

text \<open>
  Two buffers of the same block with the same hash are the same: what the comparison of
  hashes relies on.
\<close>

definition collision_free :: "(bytes \<Rightarrow> u64) \<Rightarrow> nat \<Rightarrow> bytes list \<Rightarrow> bytes \<Rightarrow> bool" where
  "collision_free hash R hist T \<longleftrightarrow>
     (\<forall>k < block_count R (length T). \<forall>b. blend hist b \<longrightarrow>
        hash (blk R k b) = hash (blk R k T) \<longrightarrow> blk R k b = blk R k T)"

lemma blk_index:
  assumes "0 < R" and "i < length c"
  shows "i div R * R \<le> i" and "i < i div R * R + R" and "blk R (i div R) c ! (i - i div R * R) = c ! i"
    and "i div R < block_count R (length c)"
proof -
  show le: "i div R * R \<le> i" and lt: "i < i div R * R + R"
    using assms(1) dividend_less_div_times [OF assms(1), of i] by (simp_all add: add.commute)
  have "i - i div R * R < R" "i div R * R + (i - i div R * R) = i" using le lt by linarith+
  then show "blk R (i div R) c ! (i - i div R * R) = c ! i" using assms(2) by (simp add: blk_def nth_bslice)
  show "i div R < block_count R (length c)" using less_block_count [OF assms(1)] le assms(2) by (meson le_less_trans)
qed

lemma blk_cover: "0 < R \<Longrightarrow> i \<in> footprint (l * R, blk R l c) \<Longrightarrow> l = i div R"
proof -
  assume "0 < R" and "i \<in> footprint (l * R, blk R l c)"
  then have "l * R \<le> i" "i < l * R + R" by (auto simp: footprint_def length_blk)
  then show "l = i div R" by (intro sym [OF div_nat_eqI]) (simp_all add: ac_simps)
qed

lemma scan_items_ops:
  assumes off: "\<And>k. k < n \<Longrightarrow> unat (blk_off R k) = k * R"
    and items: "set items = (\<lambda>k. scan_item hash R T k (b k)) ` {..<n}"
  shows "op \<in> set (scan_ops items) \<longleftrightarrow>
     (\<exists>k < n. op = (k * R, blk R k (b k)) \<and> hash (blk R k (b k)) \<noteq> hash (blk R k T))"
proof
  assume "op \<in> set (scan_ops items)"
  then obtain hi h where c: "CompItem hi (snd op) h \<in> set items" "h \<noteq> hiHash hi" "fst op = unat (hiOffset hi)"
    using scan_ops_iff [of "fst op" "snd op" items] by auto
  from c(1) obtain k where "k < n" "CompItem hi (snd op) h = scan_item hash R T k (b k)" unfolding items by auto
  then show "\<exists>k < n. op = (k * R, blk R k (b k)) \<and> hash (blk R k (b k)) \<noteq> hash (blk R k T)"
    using c(2,3) off by (auto simp: scan_item_def block_hash_def prod_eq_iff)
next
  assume "\<exists>k < n. op = (k * R, blk R k (b k)) \<and> hash (blk R k (b k)) \<noteq> hash (blk R k T)"
  then obtain k where k: "k < n" "op = (k * R, blk R k (b k))" "hash (blk R k (b k)) \<noteq> hash (blk R k T)" by blast
  have "CompItem (block_hash hash R T k) (blk R k (b k)) (hash (blk R k (b k))) \<in> set items"
    using k(1) unfolding items scan_item_def by auto
  moreover have "hiHash (block_hash hash R T k) = hash (blk R k T)" "unat (hiOffset (block_hash hash R T k)) = k * R"
    using off [OF k(1)] by (simp_all add: block_hash_def)
  ultimately show "op \<in> set (scan_ops items)" unfolding k(2) scan_ops_iff using k(3) by metis
qed

lemma scan_items_blend:
  assumes R: "0 < R" and off: "\<And>k. k < block_count R (length T) \<Longrightarrow> unat (blk_off R k) = k * R"
    and items: "set items = (\<lambda>k. scan_item hash R T k (b k)) ` {..<block_count R (length T)}"
    and b: "\<And>k. k < block_count R (length T) \<Longrightarrow> blend hist (b k) \<and> length (b k) = length T"
    and nc: "collision_free hash R hist T" and i: "i < length T"
  shows "replay (scan_ops items) T ! i = b (i div R) ! i"
proof -
  let ?k = "i div R"
  note ix = blk_index [OF R i] and ops = scan_items_ops [OF off items]
  have ixb: "blk R ?k (b ?k) ! (i - ?k * R) = b ?k ! i" using blk_index(3) [OF R, of i "b ?k"] b [OF ix(4)] i by simp
  show ?thesis
  proof (cases "hash (blk R ?k (b ?k)) = hash (blk R ?k T)")
    case True
    then have eq: "blk R ?k (b ?k) = blk R ?k T" using nc ix(4) b by (auto simp: collision_free_def)
    have "i \<notin> footprints (scan_ops items)"
    proof
      assume "i \<in> footprints (scan_ops items)"
      then obtain op where op: "op \<in> set (scan_ops items)" "i \<in> footprint op" unfolding footprints_def by blast
      then obtain l where "op = (l * R, blk R l (b l))" "hash (blk R l (b l)) \<noteq> hash (blk R l T)" using ops by blast
      then show False using True blk_cover [OF R] op(2) by metis
    qed
    then show ?thesis using replay_untouched [OF i] ix(3) ixb eq by simp
  next
    case False
    have mem: "(?k * R, blk R ?k (b ?k)) \<in> set (scan_ops items)" using False ix(4) by (auto simp: ops)
    have "op = (?k * R, blk R ?k (b ?k))" if "op \<in> set (scan_ops items)" "i \<in> footprint op" for op
      using that blk_cover [OF R] ops by metis
    moreover have "i < ?k * R + length (blk R ?k (b ?k))" using ix(2) b [OF ix(4)] i by (simp add: length_blk)
    ultimately show ?thesis using replay_unique [OF mem i ix(1)] ixb by simp
  qed
qed


fun item_key :: "nat \<Rightarrow> ScanItem \<Rightarrow> nat" where
  "item_key R (CompItem hi buf h) = unat (hiOffset hi) div R"
| "item_key R (HashPacket p) = (case PayloadOf p of PHash hi \<Rightarrow> unat (hiOffset hi) div R | _ \<Rightarrow> 0)"
| "item_key R (ScanWork hi buf) = unat (hiOffset hi) div R"

lemma scan_items:
  assumes sz: "pass_sizes readSize (length T)"
    and hist: "hist \<noteq> []" "\<And>img. img \<in> set hist \<Longrightarrow> length img = length T"
    and ps: "mset ps = mset (map (\<lambda>k. hash_packet (block_hash hash (unat readSize) T k)) [0..<block_count (unat readSize) (length T)])"
    and run: "pipe_runs 3 cap (scan_work_ok hash hist) w (map HashPacket ps) q" and "0 < w"
  obtains b where "set (out q) = (\<lambda>k. scan_item hash (unat readSize) T k (b k)) ` {..<block_count (unat readSize) (length T)}"
    and "\<And>k. k < block_count (unat readSize) (length T) \<Longrightarrow> blend hist (b k)"
proof -
  let ?R = "unat readSize" and ?n = "block_count (unat readSize) (length T)" and ?fl = "flows (scan_work_ok hash hist) 3"
  let ?p = "\<lambda>k. HashPacket (hash_packet (block_hash hash ?R T k))"
  have src: "mset (map HashPacket ps) = mset (map ?p [0..<?n])" using ps by (simp add: image_mset.compositionality comp_def)
  have set: "set ps \<subseteq> (\<lambda>k. hash_packet (block_hash hash ?R T k)) ` {..<?n}" using mset_eq_setD [OF ps] by auto
  have rel: "rel_mset ?fl (mset (map ?p [0..<?n])) (mset (out q))"
    using pipe_complete [OF run scan_smooth [OF sz hist set] assms(6)] src by simp
  have key: "item_key ?R (?p k) = k" "item_key ?R (scan_item hash ?R T k b) = k" if "k < ?n" for k b
    using pass_sizes_index(2) [OF sz that] sz by (simp_all add: hash_packet_def block_hash_def scan_item_def pass_sizes_def)
  have fl: "\<exists>b. blend hist b \<and> y = scan_item hash ?R T k b" if "?fl (?p k) y" "k < ?n" for k y
    using scan_flows(3) [OF sz that(2) hist refl] that(1) by (simp add: numeral_3_eq_3)
  show ?thesis
    by (rule keyed_outputs [OF rel, where B = "blend hist" and it = "scan_item hash ?R T" and skey = "item_key ?R" and key = "item_key ?R"])
      (use fl key that in \<open>auto simp del: item_key.simps\<close>)
qed

text \<open>
  Whatever the interleaving of the workers, the correct blocks of a complete pass turn the
  target into a blend of the images the source went through during the pass.
\<close>

lemma scan_pass:
  assumes sz: "pass_sizes readSize (length T)"
    and hist: "hist \<noteq> []" "\<And>img. img \<in> set hist \<Longrightarrow> length img = length T"
    and ps: "mset ps = mset (map (\<lambda>k. hash_packet (block_hash hash (unat readSize) T k)) [0..<block_count (unat readSize) (length T)])"
    and run: "pipe_runs 3 cap (scan_work_ok hash hist) w (map HashPacket ps) q" and "0 < w"
    and nc: "collision_free hash (unat readSize) hist T"
  shows "blend hist (replay (scan_ops (out q)) T)"
proof -
  from scan_items [OF sz hist ps run assms(6)] obtain b where
    items: "set (out q) = (\<lambda>k. scan_item hash (unat readSize) T k (b k)) ` {..<block_count (unat readSize) (length T)}"
    and b: "\<And>k. k < block_count (unat readSize) (length T) \<Longrightarrow> blend hist (b k)" by blast
  have R: "0 < unat readSize" using sz by (simp add: pass_sizes_def)
  have b': "blend hist (b k) \<and> length (b k) = length T" if "k < block_count (unat readSize) (length T)" for k
    using b [OF that] blend_length [OF _ hist] by blast
  have "\<exists>img \<in> set hist. replay (scan_ops (out q)) T ! i = img ! i" if i: "i < length T" for i
    using scan_items_blend [OF R pass_sizes_index(2) [OF sz] items b' nc i] b' [OF blk_index(4) [OF R i]] i
    by (auto simp: blend_def)
  then show ?thesis using hist(2) by (simp add: blend_def)
qed

text \<open>
  Redo.  The history of a device under a list of writes, and the effect of replaying
  those writes on a blend of it: the image after the last write.
\<close>

definition images :: "disk_write list \<Rightarrow> bytes \<Rightarrow> bytes list" where
  "images ws img = map (\<lambda>n. replay (take n ws) img) [0..<Suc (length ws)]"

lemma images_props:
  shows "images ws img \<noteq> []" and "i \<in> set (images ws img) \<Longrightarrow> length i = length img"
  by (auto simp: images_def)

lemma blend_redo:
  assumes "blend (images ws img) b"
  shows "replay ws b = replay ws img"
proof (rule replay_absorbs [OF _ order_refl])
  have len: "length b = length img" using blend_length [OF assms images_props(1)] images_props(2) by blast
  have "b ! i = img ! i" if i: "i < length b" and untouched: "i \<notin> footprints ws" for i
  proof -
    obtain c where "c \<in> set (images ws img)" "b ! i = c ! i" using assms i unfolding blend_def by blast
    then obtain n where "b ! i = replay (take n ws) img ! i" by (auto simp: images_def simp del: upt_Suc)
    moreover have "i \<notin> footprints (take n ws)" using untouched footprints_mono [of "take n ws" ws] by (auto dest: in_set_takeD)
    ultimately show ?thesis using replay_untouched i len by simp
  qed
  then show "agree_off (footprints ws) b img" using len by (simp add: agree_off_def)
qed

end
