(* ===== verification/Server_Handlers.thy ===== *)
theory Server_Handlers
  imports Scan_Correct Utils Config
begin

text \<open>
  \<^verbatim>\<open>user/server/server.go\<close>, what the goroutines of a client session do with one packet and
  the calls that start and end a session, the server and the program.  A loop that may run
  forever returns an option, \<open>None\<close> being that it does not return; the time an operation
  took is an argument.
\<close>

definition ServerState_String :: "ServerState \<Rightarrow> string" where
  "ServerState_String st = (case st of
     StateHashing \<Rightarrow> ''Hashing''
   | StateWriting \<Rightarrow> ''Writing''
   | StateDisconnected \<Rightarrow> ''Disconnected''
   | StateDestroyingReplica \<Rightarrow> ''DestroyingReplica''
   | StateJournalOverflow \<Rightarrow> ''JournalOverflow''
   | StateReplicating \<Rightarrow> ''Replicating'')"

text \<open>\<^verbatim>\<open>WritePacketQueueSize\<close> and its siblings.\<close>

definition PacketQueueSize :: nat where
  "PacketQueueSize = 8"

definition InitiateShutdown :: "Server \<Rightarrow> Server" where
  "InitiateShutdown s = (if SrvTerm s then s else s\<lparr>SrvTerm := True\<rparr>)"

definition CheckTermination :: "Server \<Rightarrow> bool" where
  "CheckTermination s = SrvTerm s"

definition Close :: "Server \<Rightarrow> Server" where
  "Close s = s\<lparr>SrvConn := False, SrvListener := False, TargetOpen := False\<rparr>"

definition CloseClientConn :: "Server \<Rightarrow> Server" where
  "CloseClientConn s = s\<lparr>SrvConnected := False, SrvConn := False\<rparr>"

subsection \<open>The start of a session\<close>

text \<open>\<open>received\<close> is what \<^verbatim>\<open>Decode\<close> gives.\<close>

definition WaitForInitInfo :: "Packet result \<Rightarrow> Server \<Rightarrow> unit result \<times> Server" where
  "WaitForInitInfo received s = (case received of
     Inl e \<Rightarrow> (Inl (ErrMsg (if e = ErrEOF then ''connection closed by the client''
                            else ''failed to decode packet: '' @ Error e)), s)
   | Inr packet \<Rightarrow>
       if PacketTypeOf packet \<noteq> PacketTypeInfoInit then (Inl (ErrMsg ''expected init packet''), s)
       else (case PayloadOf packet of
               PInit initInfo \<Rightarrow> (Inr (), s\<lparr>ClientInfo := Some initInfo\<rparr>)
             | _ \<Rightarrow> (Inl (ErrMsg ''invalid payload type for init packet''), s)))"

definition CheckValidSizes :: "Server \<Rightarrow> unit result" where
  "CheckValidSizes s = (case ClientInfo s of
     None \<Rightarrow> Inl Panic
   | Some ci \<Rightarrow> (if GetDeviceSize (TargetDevFd s) \<noteq> Inr (iiDeviceSize ci)
                 then Inl (ErrMsg ''Source disk size'') else Inr ()))"

definition CreateJournal :: "Server \<Rightarrow> unit result \<times> Server" where
  "CreateJournal s = (case ClientInfo s of
     None \<Rightarrow> (Inl Panic, s)
   | Some ci \<Rightarrow> (case NewJournal (JournalDev s) (iiBufferByteSize ci) WriteInfoSize CorrectBlockByteSize of
        Inl e \<Rightarrow> (Inl e, s)
      | Inr jrn \<Rightarrow> (case InitWithoutClearing jrn (JournalDev s) of
           (Inl e, jrn1, jd) \<Rightarrow> (Inl e, s\<lparr>JournalDev := jd\<rparr>)
         | (Inr u, jrn1, jd) \<Rightarrow> (Inr (), s\<lparr>JournalDev := jd, SrvJournal := Some jrn1\<rparr>))))"

text \<open>
  \<^verbatim>\<open>HandleClient\<close> up to its loop: the three checks, each with the packet that reports its
  failure; the flag says whether the loop is entered.
\<close>

definition send_info :: "PacketType \<Rightarrow> Server \<Rightarrow> Server" where
  "send_info t s = snd (SendPacket (CreateInfoPacket t) s)"

definition open_session :: "Packet result \<Rightarrow> Server \<Rightarrow> bool result \<times> Server" where
  "open_session received s0 =
     (case WaitForInitInfo received (SetState StateWriting s0) of
        (Inl e, s) \<Rightarrow> (Inr False, send_info PacketTypeErrInit s)
      | (Inr u, s) \<Rightarrow>
          (case CheckValidSizes s of
             Inl e \<Rightarrow> (if e = Panic then Inl Panic else Inr False, send_info PacketTypeErrInvalidSizes s)
           | Inr u \<Rightarrow>
               (case CreateJournal s of
                  (Inl e, s1) \<Rightarrow> (if e = Panic then Inl Panic else Inr False, send_info PacketTypeErrJournalCreate s1)
                | (Inr u, s1) \<Rightarrow> (Inr True, s1))))"

text \<open>The deferred calls at the end of \<^verbatim>\<open>HandleClient\<close>, after the goroutines have been joined.\<close>

definition close_session :: "Server \<Rightarrow> Server" where
  "close_session s = CloseClientConn (SetState StateDisconnected s)"

subsection \<open>The goroutines\<close>

text \<open>A failed type assertion leaves the zero value: offset 0, size 0, no data.\<close>

definition asserted_block :: "Packet \<Rightarrow> CorrectBlockInfo" where
  "asserted_block packet = (case PayloadOf packet of PCorrect c \<Rightarrow> c | _ \<Rightarrow> \<lparr>cbOffset = 0, cbSize = 0, cbData = []\<rparr>)"

definition asserted_write :: "Packet \<Rightarrow> WriteInfo" where
  "asserted_write packet = (case PayloadOf packet of PWrite w \<Rightarrow> w | _ \<Rightarrow> \<lparr>wiOffset = 0, wiSize = 0, wiData = []\<rparr>)"

definition HandleCorrectPacket :: "Packet \<Rightarrow> Server \<Rightarrow> Server" where
  "HandleCorrectPacket packet s =
     s\<lparr>TargetDevFd := snd (WriteCorrectBlockToReplica (asserted_block packet) (TargetDevFd s))\<rparr>"

definition HandleCorrectPackets :: "Packet list \<Rightarrow> Server \<Rightarrow> Server" where
  "HandleCorrectPackets correctQueue s = fold HandleCorrectPacket correctQueue s"

text \<open>The inner loop of \<^verbatim>\<open>HandleWritePackets\<close>: repeat the write until it succeeds.\<close>

partial_function (option) write_retry :: "bytes \<Rightarrow> u64 \<Rightarrow> device \<Rightarrow> device option" where
  "write_retry dataToWrite offset td = (case WriteAt dataToWrite offset td of
     (Inl e, td1) \<Rightarrow> write_retry dataToWrite offset td1
   | (Inr u, td1) \<Rightarrow> Some td1)"

declare write_retry.simps [code]

definition perform_write :: "u64 \<Rightarrow> Packet \<Rightarrow> Server \<Rightarrow> (unit result \<times> Server) option" where
  "perform_write elapsed packet s =
     (let writeInfo = asserted_write packet in
      case data_prefix writeInfo of
        Inl e \<Rightarrow> Some (Inl e, s)
      | Inr dataToWrite \<Rightarrow>
          Option.bind (write_retry dataToWrite (wiOffset writeInfo) (TargetDevFd s)) (\<lambda>td1.
            Some (Inr (), s\<lparr>TargetDevFd := snd (Sync td1),
                            SrvStats := RecordWrite elapsed (ucast (wiSize writeInfo)) (SrvStats s)\<rparr>)))"

definition HandleWritePacket :: "u64 \<Rightarrow> Packet \<Rightarrow> Server \<Rightarrow> (unit result \<times> Server) option" where
  "HandleWritePacket elapsed packet s =
     (if GetState s \<noteq> StateWriting then Some (Inr (), s) else perform_write elapsed packet s)"

fun HandleWritePackets :: "(u64 \<times> Packet) list \<Rightarrow> Server \<Rightarrow> (unit result \<times> Server) option" where
  "HandleWritePackets [] s = Some (Inr (), s)"
| "HandleWritePackets ((elapsed, packet) # writeQueue) s =
     Option.bind (HandleWritePacket elapsed packet s) (\<lambda>rs. case rs of
       (Inl e, s1) \<Rightarrow> Some (Inl e, s1)
     | (Inr u, s1) \<Rightarrow> HandleWritePackets writeQueue s1)"

text \<open>
  The workers of \<^verbatim>\<open>HandleReplicationPackets\<close> take the packets in some order, which is the
  order of the list; the device is synced once all of them have ended.
\<close>

definition HandleReplicationPacket :: "Packet \<Rightarrow> Server \<Rightarrow> Server" where
  "HandleReplicationPacket packet s = (case PayloadOf packet of
     PReplication replicationInfo \<Rightarrow>
       s\<lparr>TargetDevFd := snd (WriteAt (rbData replicationInfo) (rbOffset replicationInfo) (TargetDevFd s))\<rparr>
   | _ \<Rightarrow> s)"

definition HandleReplicationPackets :: "Packet list \<Rightarrow> Server \<Rightarrow> Server" where
  "HandleReplicationPackets replicationChan s =
     (let s1 = fold HandleReplicationPacket replicationChan s
      in s1\<lparr>TargetDevFd := snd (Sync (TargetDevFd s1))\<rparr>)"

text \<open>
  \<^verbatim>\<open>HashDisk\<close> before its pipeline: the journal is reset, the result ignored, and the client
  is told; the flag says whether the pass is started.
\<close>

definition HashDisk_start :: "Server \<Rightarrow> bool result \<times> Server" where
  "HashDisk_start s =
     (let (r, s1) =
        (if GetState s \<noteq> StateDestroyingReplica
         then (case SrvJournal s of
                 None \<Rightarrow> (Inl Panic, s)
               | Some j \<Rightarrow> (case ResetTo j (WriteOffset j) (CorrectOffset j) (JournalDev s) of
                    (r, j1, jd) \<Rightarrow> (Inr (), s\<lparr>SrvJournal := Some j1, JournalDev := jd\<rparr>)))
         else (Inr (), s))
      in case r of
           Inl e \<Rightarrow> (Inl e, s1)
         | Inr u \<Rightarrow> (case SendPacket (CreateInfoPacket PacketTypeInfoStartHashing) s1 of
              (Inl e, s2) \<Rightarrow> (Inr (\<not> IsConnectionClosed (Some e)), s2)
            | (Inr u, s2) \<Rightarrow> (Inr True, s2)))"

text \<open>
  A sender of the last stage handles one result; the flag says whether the sender goes on.
  The hash packet goes directly to the encoder, whose error is not wrapped.
\<close>

definition Encode :: "Packet \<Rightarrow> Server \<Rightarrow> unit result \<times> Server" where
  "Encode packet s = (case sendFaults s of
     [] \<Rightarrow> (Inr (), s\<lparr>sent := sent s @ [packet]\<rparr>)
   | None # fs \<Rightarrow> (Inr (), s\<lparr>sent := sent s @ [packet], sendFaults := fs\<rparr>)
   | Some e # fs \<Rightarrow> (Inl e, s\<lparr>sendFaults := fs\<rparr>))"

fun send_result :: "HashItem \<Rightarrow> u64 \<times> Server \<Rightarrow> bool \<times> u64 \<times> Server" where
  "send_result (ResultItem offset sz h err) (tot, s) =
     (let s1 = (if err \<noteq> None then send_info PacketTypeErrHash s else s) in
      case Encode \<lparr>PacketTypeOf = PacketTypePayloadHash,
                   PayloadOf = PHash \<lparr>hiOffset = offset, hiSize = sz, hiHash = h\<rparr>\<rparr> s1 of
        (Inl e, s2) \<Rightarrow>
          if IsConnectionClosed (Some e) then (False, tot, s2)
          else (True, tot + ucast sz, send_info PacketTypeErrHash s2)
      | (Inr u, s2) \<Rightarrow> (True, tot + ucast sz, s2))"
| "send_result item (tot, s) = (True, tot, s)"

text \<open>
  The senders: \<open>n\<close> of them are left, and the results are taken in the order of the list;
  the flag of a result says whether \<^verbatim>\<open>termChan\<close> is found closed, and then the sender returns.
\<close>

fun send_results :: "nat \<Rightarrow> (bool \<times> HashItem) list \<Rightarrow> u64 \<times> Server \<Rightarrow> u64 \<times> Server" where
  "send_results 0 results ts = ts"
| "send_results (Suc n) [] ts = ts"
| "send_results (Suc n) ((terminated, r) # results) ts =
     (if terminated then send_results n results ts
      else case send_result r ts of (go_on, ts1) \<Rightarrow> send_results (if go_on then Suc n else n) results ts1)"

definition HashDisk_end :: "u64 \<Rightarrow> u64 \<times> Server \<Rightarrow> Server" where
  "HashDisk_end elapsed ts = (case ts of (totalBytesHashed, s) \<Rightarrow>
     send_info PacketTypeInfoHashingCompleted (s\<lparr>SrvStats := RecordHashing elapsed totalBytesHashed (SrvStats s)\<rparr>))"

definition HashDisk :: "nat \<Rightarrow> (bool \<times> HashItem) list \<Rightarrow> u64 \<Rightarrow> Server \<Rightarrow> unit result \<times> Server" where
  "HashDisk numWorkers results elapsed s = (case HashDisk_start s of
     (Inl e, s1) \<Rightarrow> (Inl e, s1)
   | (Inr False, s1) \<Rightarrow> (Inr (), s1)
   | (Inr True, s1) \<Rightarrow> (Inr (), HashDisk_end elapsed (send_results numWorkers results (0, s1))))"

subsection \<open>The program\<close>

text \<open>
  What happens to the accept loop: \<^verbatim>\<open>Accept\<close> fails, with \<^verbatim>\<open>net.ErrClosed\<close> or not; it gives
  a connection, with the outcomes its sends will have and the session that follows, as its
  effect on the server; or \<^verbatim>\<open>Run\<close> is woken by a signal.  The check of \<^verbatim>\<open>TermChan\<close> and the
  \<^verbatim>\<open>Accept\<close> after it are one step.  The flag says whether the loop has returned.
\<close>

datatype AcceptEvent =
    AcceptError bool
  | Accepted "go_error option list" "Server \<Rightarrow> Server"
  | Signalled

fun HandleConnections :: "AcceptEvent list \<Rightarrow> Server \<Rightarrow> bool \<times> Server" where
  "HandleConnections [] s = (False, s)"
| "HandleConnections (AcceptError errClosed # es) s =
     (if CheckTermination s then (True, s)
      else if errClosed then (True, s)
      else HandleConnections es s)"
| "HandleConnections (Accepted faults handle_client # es) s =
     (if CheckTermination s then (True, s)
      else if SrvConnected s then HandleConnections es s
      else HandleConnections es
             (handle_client (s\<lparr>SrvConn := True, SrvConnected := True, sent := [], sendFaults := faults\<rparr>)))"
| "HandleConnections (Signalled # es) s = HandleConnections es (Close (InitiateShutdown s))"

text \<open>\<^verbatim>\<open>Run\<close> returns once it has been signalled and the accept loop has returned; until then \<open>None\<close>.\<close>

definition Run :: "AcceptEvent list \<Rightarrow> Server \<Rightarrow> Server option" where
  "Run events s = (case CheckJournal s of
     (Inl e, s1) \<Rightarrow> Some s1
   | (Inr u, s1) \<Rightarrow> (case HandleConnections events s1 of
        (returned, s2) \<Rightarrow> if returned \<and> SrvTerm s2 then Some s2 else None))"

definition Server_main :: "Flags \<Rightarrow> (string \<Rightarrow> device) \<Rightarrow> bool \<Rightarrow> AcceptEvent list \<Rightarrow> Server result option" where
  "Server_main args path listens events =
     (let cfg = Server_NewConfig args in
      case Server_ValidateArgs (Some (scTargetDevPath cfg)) (Some (scPort cfg)) (Some (scIpAddress cfg)) (Some (scJournalPath cfg)) of
        Inl e \<Rightarrow> Some (Inl e)
      | Inr u \<Rightarrow>
        (case IsDevice (path (scTargetDevPath cfg)) of
           Inl e \<Rightarrow> Some (Inl (ErrMsg ''Failed to check if there is device on target path''))
         | Inr False \<Rightarrow> Some (Inl (ErrMsg ''Target has to be a device (e.g. /dev/loop0)''))
         | Inr True \<Rightarrow>
           (case IsDevice (path (scJournalPath cfg)) of
              Inl e \<Rightarrow> Some (Inl (ErrMsg ''Failed to check if there is device on journal path''))
            | Inr False \<Rightarrow> Some (Inl (ErrMsg ''Journal has to be a device (e.g. /dev/loop0)''))
            | Inr True \<Rightarrow>
              (case NewServer listens (scBenchmark cfg) (path (scTargetDevPath cfg)) (path (scJournalPath cfg)) of
                 Inl e \<Rightarrow> Some (Inl (ErrMsg ''Failed to initialize server''))
               | Inr server \<Rightarrow> map_option (\<lambda>s. Inr (Close s)) (Run events server)))))"

subsection \<open>Retrying a write\<close>

text \<open>A write that the device can take, and what one attempt does to it.\<close>

definition write_possible :: "bytes \<Rightarrow> u64 \<Rightarrow> device \<Rightarrow> bool" where
  "write_possible b off d \<longleftrightarrow> \<not> sint off < 0 \<and> (b = [] \<or> unat off + length b \<le> length (dev_bytes d))"

lemma WriteAt_length: "WriteAt b off d = (r, d1) \<Longrightarrow> length (dev_bytes d1) = length (dev_bytes d)"
  by (erule WriteAt_torn) simp

lemma WriteAt_impossible:
  assumes "\<not> write_possible b off d"
  obtains e d1 where "WriteAt b off d = (Inl e, d1)" and "\<not> write_possible b off d1"
proof -
  obtain r d1 where w: "WriteAt b off d = (r, d1)" by fastforce
  have "r \<noteq> Inr ()"
    using assms w by (auto simp: write_possible_def WriteAt_def split: if_splits prod.splits option.splits)
  then obtain e where "r = Inl e" by (cases r) auto
  moreover have "\<not> write_possible b off d1" using assms WriteAt_length [OF w] by (simp add: write_possible_def)
  ultimately show ?thesis using that w by blast
qed

lemma write_retry_impossible:
  assumes "write_retry b off d = Some d'"
  shows "write_possible b off d"
proof (rule write_retry.raw_induct [where P = "\<lambda>b off d d'. write_possible b off d", OF _ assms])
  fix f b off d d'
  assume IH: "\<And>b off d d'. f b off d = Some d' \<Longrightarrow> write_possible b off d"
    and eq: "(case WriteAt b off d of (Inl e, d1) \<Rightarrow> f b off d1 | (Inr u, d1) \<Rightarrow> Some d1) = Some d'"
  show "write_possible b off d"
  proof (rule ccontr)
    assume "\<not> write_possible b off d"
    then obtain e d1 where "WriteAt b off d = (Inl e, d1)" "\<not> write_possible b off d1" by (rule WriteAt_impossible)
    then show False using IH eq by auto
  qed
qed

text \<open>
  Every failed attempt uses up one fault of the schedule, which is finite: the loop ends, and
  the attempt that succeeds overwrites what the torn ones left.
\<close>

lemma write_retry_possible:
  assumes "write_possible b off d"
  shows "\<exists>d'. write_retry b off d = Some d' \<and> dev_bytes d' = overwrite (unat off) b (dev_bytes d)"
  using assms
proof (induction "length (dev_faults d)" arbitrary: d)
  case 0
  then have "healthy d" by (simp add: healthy_def)
  then show ?case using 0 by (subst write_retry.simps) (auto simp: write_possible_def WriteAt_def)
next
  case (Suc n)
  then obtain f fs where fs: "dev_faults d = f # fs" "length fs = n" by (cases "dev_faults d") auto
  show ?case
  proof (cases "b = [] \<or> f = None")
    case True
    then show ?thesis using Suc.prems fs(1)
      by (subst write_retry.simps) (auto simp: write_possible_def WriteAt_def next_fault_def)
  next
    case False
    then obtain k where k: "f = Some k" and b: "b \<noteq> []" by auto
    let ?d1 = "put_bytes (unat off) (take k b) (d\<lparr>dev_faults := fs\<rparr>)"
    have w: "WriteAt b off d = (Inl ErrEIO, ?d1)"
      using Suc.prems fs(1) b by (auto simp: write_possible_def WriteAt_def next_fault_def k)
    have "write_possible b off ?d1" using Suc.prems by (simp add: write_possible_def)
    moreover have "n = length (dev_faults ?d1)" using fs by simp
    ultimately obtain d' where "write_retry b off ?d1 = Some d'"
        "dev_bytes d' = overwrite (unat off) b (dev_bytes ?d1)" using Suc.hyps(1) by blast
    moreover have "overwrite (unat off) b (overwrite (unat off) (take k b) (dev_bytes d)) = overwrite (unat off) b (dev_bytes d)"
      by (rule nth_equalityI) (auto simp: nth_overwrite)
    ultimately show ?thesis using w by (subst write_retry.simps) simp
  qed
qed

subsection \<open>Applying the writes of a client\<close>

definition write_packet :: "WriteInfo \<Rightarrow> Packet" where
  "write_packet w = \<lparr>PacketTypeOf = PacketTypePayloadBufferWrite, PayloadOf = PWrite w\<rparr>"

text \<open>A write whose data are complete and that lies on a device of \<open>L\<close> bytes.\<close>

definition write_on :: "nat \<Rightarrow> WriteInfo \<Rightarrow> bool" where
  "write_on L w \<longleftrightarrow> unat (wiSize w) \<le> length (wiData w) \<and> unat (wiOffset w) + unat (wiSize w) \<le> L \<and> L < 2 ^ 63"

lemma HandleWritePacket_applies:
  assumes "GetState s = StateWriting" and "write_on (length (dev_bytes (TargetDevFd s))) w"
  obtains s' where "HandleWritePacket elapsed (write_packet w) s = Some (Inr (), s')"
    and "dev_bytes (TargetDevFd s') = overwrite (fst (write_op w)) (snd (write_op w)) (dev_bytes (TargetDevFd s))"
    and "GetState s' = StateWriting" and "SrvJournal s' = SrvJournal s" and "JournalDev s' = JournalDev s"
    and "sent s' = sent s"
proof -
  let ?b = "take (unat (wiSize w)) (wiData w)"
  have dp: "data_prefix w = Inr ?b" using assms(2) by (simp add: data_prefix_def write_on_def)
  have "\<not> sint (wiOffset w) < 0" using assms(2) by (intro sint_u64_nonneg) (simp add: write_on_def)
  then have "write_possible ?b (wiOffset w) (TargetDevFd s)" using assms(2) by (simp add: write_possible_def write_on_def)
  then obtain d' where d': "write_retry ?b (wiOffset w) (TargetDevFd s) = Some d'"
      "dev_bytes d' = overwrite (unat (wiOffset w)) ?b (dev_bytes (TargetDevFd s))" using write_retry_possible by blast
  show ?thesis
    by (rule that [of "s\<lparr>TargetDevFd := snd (Sync d'), SrvStats := RecordWrite elapsed (ucast (wiSize w)) (SrvStats s)\<rparr>"])
      (use assms(1) d' dp in \<open>simp_all add: HandleWritePacket_def perform_write_def write_packet_def asserted_write_def write_op_def GetState_def\<close>)
qed

lemma HandleWritePackets_applies:
  assumes "GetState s = StateWriting" and "\<forall>w \<in> set ws. write_on (length (dev_bytes (TargetDevFd s))) w"
    and "map snd q = map write_packet ws"
  shows "\<exists>s'. HandleWritePackets q s = Some (Inr (), s') \<and>
    dev_bytes (TargetDevFd s') = replay (map write_op ws) (dev_bytes (TargetDevFd s)) \<and>
    GetState s' = StateWriting \<and> SrvJournal s' = SrvJournal s \<and> JournalDev s' = JournalDev s \<and> sent s' = sent s"
  using assms
proof (induction ws arbitrary: s q)
  case Nil
  then show ?case by simp
next
  case (Cons w ws)
  from Cons.prems(3) obtain elapsed q' where q: "q = (elapsed, write_packet w) # q'" "map snd q' = map write_packet ws"
    by (cases q) auto
  obtain s1 where s1: "HandleWritePacket elapsed (write_packet w) s = Some (Inr (), s1)"
      "dev_bytes (TargetDevFd s1) = overwrite (fst (write_op w)) (snd (write_op w)) (dev_bytes (TargetDevFd s))"
      "GetState s1 = StateWriting" "SrvJournal s1 = SrvJournal s" "JournalDev s1 = JournalDev s" "sent s1 = sent s"
    using HandleWritePacket_applies [OF Cons.prems(1), of w elapsed] Cons.prems(2) by auto
  have "\<forall>w \<in> set ws. write_on (length (dev_bytes (TargetDevFd s1))) w" using Cons.prems(2) s1(2) by simp
  from Cons.IH [OF s1(3) this q(2)] show ?case using q(1) s1 by simp
qed

subsection \<open>Opening a session\<close>

lemma send_info_frame [simp]:
  "TargetDevFd (send_info t s) = TargetDevFd s" "JournalDev (send_info t s) = JournalDev s"
  "SrvJournal (send_info t s) = SrvJournal s" "sstate (send_info t s) = sstate s"
  "sendFaults s = [] \<Longrightarrow> sent (send_info t s) = sent s @ [CreateInfoPacket t]"
  by (simp_all add: send_info_def SendPacket_def split: list.splits option.splits)

text \<open>What the checks at the start of a session answer: the packet that refuses it, or nothing.\<close>

definition init_info :: "Packet result \<Rightarrow> InitInfo option" where
  "init_info received = (case received of
     Inr packet \<Rightarrow> (case PayloadOf packet of
        PInit ci \<Rightarrow> if PacketTypeOf packet = PacketTypeInfoInit then Some ci else None
      | _ \<Rightarrow> None)
   | _ \<Rightarrow> None)"

definition session_refusal :: "Packet result \<Rightarrow> Server \<Rightarrow> PacketType option" where
  "session_refusal received s = (case init_info received of
     None \<Rightarrow> Some PacketTypeErrInit
   | Some ci \<Rightarrow>
       if GetDeviceSize (TargetDevFd s) \<noteq> Inr (iiDeviceSize ci) then Some PacketTypeErrInvalidSizes
       else if iiBufferByteSize ci = 0 \<or> length (dev_bytes (JournalDev s)) < 64 + unat (iiBufferByteSize ci)
       then Some PacketTypeErrJournalCreate
       else None)"

definition block_device :: "device \<Rightarrow> bool" where
  "block_device d \<longleftrightarrow> healthy d \<and> dev_present d \<and> dev_block d \<and> 64 \<le> length (dev_bytes d) \<and> length (dev_bytes d) < 2 ^ 63"

lemma CreateJournal_outcome:
  assumes jd: "block_device (JournalDev s)" and ci: "ClientInfo s = Some ci"
  shows "if iiBufferByteSize ci = 0 \<or> length (dev_bytes (JournalDev s)) < 64 + unat (iiBufferByteSize ci)
    then CreateJournal s = (Inl ErrInvalidSize, s)
    else \<exists>j j1. NewJournal (JournalDev s) (iiBufferByteSize ci) WriteInfoSize CorrectBlockByteSize = Inr j \<and>
      j1 = j\<lparr>header := setInvalidFlag (header j)\<rparr> \<and>
      CreateJournal s = (Inr (), s\<lparr>JournalDev := put_bytes 0 (header_bytes (header j1)) (JournalDev s), SrvJournal := Some j1\<rparr>)"
proof -
  let ?d = "JournalDev s" and ?N = "NewJournal (JournalDev s) (iiBufferByteSize ci) WriteInfoSize CorrectBlockByteSize"
  note d = jd [unfolded block_device_def]
  have sizes: "WriteInfoSize \<noteq> 0" "CorrectBlockByteSize \<noteq> 0" "12 \<le> WriteInfoSize" "12 \<le> CorrectBlockByteSize"
    by (simp_all add: WriteInfoSize_def CorrectBlockByteSize_def HashedSpaceBase_def)
  have rej: "?N = Inl ErrInvalidSize \<longleftrightarrow> iiBufferByteSize ci = 0 \<or> length (dev_bytes ?d) < 64 + unat (iiBufferByteSize ci)"
    using NewJournal_rejects_iff [of ?d "iiBufferByteSize ci" WriteInfoSize CorrectBlockByteSize] d sizes by auto
  show ?thesis
  proof (cases "?N = Inl ErrInvalidSize")
    case True
    then show ?thesis using rej ci by (simp add: CreateJournal_def)
  next
    case False
    moreover have "?N = Inl e \<Longrightarrow> e = ErrInvalidSize" for e using d
      by (auto simp: NewJournal_def OpenFile_def GetDeviceSize_def Let_def split: if_splits)
    ultimately obtain j where j: "?N = Inr j" by (cases ?N) auto
    then have "journal_ready j ?d" using NewJournal_layout(1) [OF j] d sizes by (simp add: journal_ready_def)
    from Invalidate_healthy [OF this] show ?thesis using False rej j ci
      by (simp add: CreateJournal_def InitWithoutClearing_def)
  qed
qed

lemma WaitForInitInfo_init_info:
  "WaitForInitInfo received s = (case init_info received of
     None \<Rightarrow> (Inl (projl (fst (WaitForInitInfo received s))), s)
   | Some ci \<Rightarrow> (Inr (), s\<lparr>ClientInfo := Some ci\<rparr>))"
  by (auto simp: WaitForInitInfo_def init_info_def split: sum.splits Payload.splits)

text \<open>
  C14: A session is opened exactly when the client sent a well-formed init packet, the two
  devices have the same size and the journal device holds the header and a write section of
  the size of the client's buffer.  The journal is then on the device, not valid, with room
  for \<open>BufferByteSize div 4108\<close> writes and filled up in memory; otherwise the client gets
  the one packet that says which check failed.  The replica is not touched either way.
\<close>

theorem open_session_outcome:
  assumes jd: "block_device (JournalDev s0)" and quiet: "sendFaults s0 = []"
  shows "\<exists>s. open_session received s0 = (Inr (session_refusal received s0 = None), s) \<and>
    GetState s = StateWriting \<and> TargetDevFd s = TargetDevFd s0 \<and>
    (case session_refusal received s0 of
       Some t \<Rightarrow> sent s = sent s0 @ [CreateInfoPacket t] \<and> SrvJournal s = SrvJournal s0 \<and> JournalDev s = JournalDev s0
     | None \<Rightarrow> sent s = sent s0 \<and>
         (\<exists>ci j. init_info received = Some ci \<and> SrvJournal s = Some j \<and> \<not> Journal_IsValid j \<and>
            layout_ok (header j) (length (dev_bytes (JournalDev s))) \<and>
            bslice 0 64 (dev_bytes (JournalDev s)) = header_bytes (header j) \<and>
            unat (bufWritesCount (header j)) = unat (iiBufferByteSize ci) div 4108 \<and>
            WriteOffset j = bufWritesCount (header j) \<and> CorrectOffset j = corrBlocksCount (header j)))"
proof (cases "init_info received")
  case None
  then show ?thesis using quiet
    by (subst open_session_def, subst WaitForInitInfo_init_info) (simp add: session_refusal_def SetState_def GetState_def)
next
  case (Some ci)
  let ?s = "(SetState StateWriting s0)\<lparr>ClientInfo := Some ci\<rparr>"
  have open_eq: "open_session received s0 = (case CheckValidSizes ?s of
       Inl e \<Rightarrow> (if e = Panic then Inl Panic else Inr False, send_info PacketTypeErrInvalidSizes ?s)
     | Inr u \<Rightarrow> (case CreateJournal ?s of
          (Inl e, s1) \<Rightarrow> (if e = Panic then Inl Panic else Inr False, send_info PacketTypeErrJournalCreate s1)
        | (Inr u, s1) \<Rightarrow> (Inr True, s1)))"
    by (subst open_session_def, subst WaitForInitInfo_init_info) (simp add: Some)
  show ?thesis
  proof (cases "session_refusal received s0")
    case (Some t)
    then show ?thesis using quiet \<open>init_info received = Some ci\<close> CreateJournal_outcome [of ?s ci] jd
      by (auto simp: open_eq session_refusal_def CheckValidSizes_def SetState_def GetState_def split: if_splits)
  next
    case None
    then have sz: "CheckValidSizes ?s = Inr ()"
      and room: "\<not> (iiBufferByteSize ci = 0 \<or> length (dev_bytes (JournalDev s0)) < 64 + unat (iiBufferByteSize ci))"
      using Some by (auto simp: session_refusal_def CheckValidSizes_def SetState_def split: if_splits)
    obtain j j1 where j: "NewJournal (JournalDev s0) (iiBufferByteSize ci) WriteInfoSize CorrectBlockByteSize = Inr j"
      "j1 = j\<lparr>header := setInvalidFlag (header j)\<rparr>"
      "CreateJournal ?s = (Inr (), ?s\<lparr>JournalDev := put_bytes 0 (header_bytes (header j1)) (JournalDev s0), SrvJournal := Some j1\<rparr>)"
      using CreateJournal_outcome [of ?s ci] jd room by (auto simp: SetState_def)
    note lay = NewJournal_layout [OF j(1)]
    have cnt: "unat (bufWritesCount (header j)) = unat (iiBufferByteSize ci) div 4108"
      using j(1) by (auto simp: NewJournal_def WriteInfoSize_def unat_div Let_def split: sum.splits if_splits)
    have "12 \<le> WriteInfoSize" "12 \<le> CorrectBlockByteSize"
      by (simp_all add: WriteInfoSize_def CorrectBlockByteSize_def HashedSpaceBase_def)
    then have "layout_ok (header j1) (length (dev_bytes (JournalDev s0)))" "WriteOffset j1 = bufWritesCount (header j1)"
      "CorrectOffset j1 = corrBlocksCount (header j1)" using lay jd by (simp_all add: block_device_def j(2) flag_defs)
    moreover have "\<not> Journal_IsValid j1" by (simp add: j(2) Journal_IsValid_def)
    moreover have "unat (bufWritesCount (header j1)) = unat (iiBufferByteSize ci) div 4108" by (simp add: j(2) cnt)
    ultimately show ?thesis using None Some sz j(3) jd
      by (simp add: open_eq block_device_def SetState_def GetState_def bslice_header_put)
  qed
qed

definition demo_info :: InitInfo where
  "demo_info = \<lparr>iiDeviceSize = 8, iiWriteInfoSize = 4108, iiBufferByteSize = 8216\<rparr>"

definition demo_init :: Packet where
  "demo_init = \<lparr>PacketTypeOf = PacketTypeInfoInit, PayloadOf = PInit demo_info\<rparr>"

definition demo_fresh :: Server where
  "demo_fresh = demo_server\<lparr>SrvJournal := None, JournalDev := demo_blank\<lparr>dev_bytes := replicate 10000 0\<rparr>\<rparr>"

theorem open_session_outcome_witness:
  "(\<exists>s j. open_session (Inr demo_init) demo_fresh = (Inr True, s) \<and> SrvJournal s = Some j \<and>
      unat (bufWritesCount (header j)) = 2) \<and>
   (\<exists>s. open_session (Inl ErrEOF) demo_fresh = (Inr False, s) \<and> sent s = [CreateInfoPacket PacketTypeErrInit])"
proof -
  have d: "block_device (JournalDev demo_fresh)" "sendFaults demo_fresh = []" "sent demo_fresh = []"
    by (simp_all add: demo_fresh_def demo_blank_def block_device_def healthy_def demo_server_def)
  have i: "init_info (Inr demo_init) = Some demo_info" "init_info (Inl ErrEOF) = None"
    by (simp_all add: init_info_def demo_init_def)
  have r: "session_refusal (Inr demo_init) demo_fresh = None"
    by (simp add: session_refusal_def i demo_info_def demo_fresh_def demo_server_def demo_blank_def GetDeviceSize_def)
  have r': "session_refusal (Inl ErrEOF) demo_fresh = Some PacketTypeErrInit" by (simp add: session_refusal_def i)
  have "unat (iiBufferByteSize demo_info) div 4108 = 2" by (simp add: demo_info_def)
  then show ?thesis
    using open_session_outcome [OF d(1,2), of "Inr demo_init"] open_session_outcome [OF d(1,2), of "Inl ErrEOF"]
    by (auto simp: r r' i d(3))
qed

text \<open>
  C15: The loop around a buffered write returns exactly when the replica can take the write:
  the offset is not negative as an \<^verbatim>\<open>int64\<close> and the data end within the device.  It then
  leaves the data on the device, whatever torn attempts came before: the schedule of faults of
  a device is finite, so its faults are transient ones.  Otherwise the writer repeats the
  failing call forever.
\<close>

theorem write_retry_returns:
  "if \<not> sint off < 0 \<and> (b = [] \<or> unat off + length b \<le> length (dev_bytes td))
   then \<exists>td'. write_retry b off td = Some td' \<and> dev_bytes td' = overwrite (unat off) b (dev_bytes td)
   else write_retry b off td = None"
proof (cases "write_possible b off td")
  case True
  then show ?thesis using write_retry_possible [OF True] by (simp add: write_possible_def)
next
  case False
  then have "write_retry b off td = None" using write_retry_impossible by (cases "write_retry b off td") auto
  then show ?thesis using False by (auto simp: write_possible_def)
qed

text \<open>
  C13: Outside a scan the writes of the client reach the replica: a queue of complete writes
  that lie on the device is worked off, and the replica then holds the result of making them
  in the order they were queued, whatever transient faults the device has.
\<close>

theorem live_writes_applied:
  assumes "GetState s = StateWriting" and "\<forall>w \<in> set ws. write_on (length (dev_bytes (TargetDevFd s))) w"
    and "map snd q = map write_packet ws"
  shows "\<exists>s'. HandleWritePackets q s = Some (Inr (), s') \<and>
    dev_bytes (TargetDevFd s') = replay (map write_op ws) (dev_bytes (TargetDevFd s)) \<and>
    SrvJournal s' = SrvJournal s \<and> JournalDev s' = JournalDev s \<and> sent s' = sent s"
  using HandleWritePackets_applies [OF assms] by blast

theorem live_writes_applied_witness:
  "\<exists>s'. HandleWritePackets [(7, write_packet demo_write)] (demo_server\<lparr>sstate := StateWriting\<rparr>) = Some (Inr (), s') \<and>
     dev_bytes (TargetDevFd s') = [0, 7, 8, 0, 0, 0, 0, 0]"
proof -
  let ?s = "demo_server\<lparr>sstate := StateWriting\<rparr>"
  have "GetState ?s = StateWriting" by (simp add: GetState_def)
  moreover have "\<forall>w \<in> set [demo_write]. write_on (length (dev_bytes (TargetDevFd ?s))) w"
    by (simp add: demo_server_fields(3) write_on_def demo_write_def)
  ultimately show ?thesis using live_writes_applied [of ?s "[demo_write]" "[(7, write_packet demo_write)]"]
    by (auto simp: demo_server_fields(3) write_op_def demo_write_def overwrite_def)
qed

end
