(* ===== verification/Client_Correct.thy ===== *)
theory Client_Correct
  imports Client Server_Handlers
begin

text \<open>
  What the client does with the buffer of the kernel module and with its connection: the
  entries it reads are the writes that were captured, the loops that send and receive, the
  reconnection.
\<close>

subsection \<open>Reading the buffer\<close>

text \<open>The disk write that a captured segment stands for.\<close>

definition segment_op :: "segment \<Rightarrow> disk_write" where
  "segment_op w = (512 * unat (seg_sector w), segment_data w)"

definition decodes :: "segment \<Rightarrow> WriteInfo \<Rightarrow> bool" where
  "decodes w wi \<longleftrightarrow> write_op wi = segment_op w \<and> wiSize wi = seg_len w \<and> length (wiData wi) = PAGE_SIZE"

lemma length_segment_data: "segment_ok w \<Longrightarrow> length (segment_data w) = unat (seg_len w)"
  by (auto simp: segment_ok_def segment_data_def)

lemma read_slot_entry:
  assumes "segment_ok w" and "entry_of w e"
  shows "\<exists>wi. read_slot (of_nat PAGE_SIZE) e = Inr wi \<and> decodes w wi"
proof -
  have p: "unat (of_nat PAGE_SIZE :: u64) = 4096" "PAGE_SIZE = 4096" by (simp_all add: PAGE_SIZE_def)
  have e: "length e = 4104" "bslice 0 4 e = put_le 4 (seg_sector w)" "bslice 4 4 e = put_le 4 (seg_len w)"
    "bslice 8 (unat (seg_len w)) e = segment_data w" using assms(2) by (simp_all add: entry_of_def BDR_WRITE_INFO_SIZE_def p)
  have l: "unat (seg_len w) \<le> 4096" using assms(1) by (simp add: segment_ok_def p)
  have "unat (ucast (seg_sector w) :: u64) < 2 ^ 32" using unsigned_less [of "seg_sector w", where ?'a = nat] by simp
  then have "512 * unat (ucast (seg_sector w) :: u64) < 2 ^ 64" by simp
  then have off: "unat (512 * ucast (seg_sector w) :: u64) = 512 * unat (seg_sector w)"
    using unat_mult_lem [of "512 :: u64" "ucast (seg_sector w)"] by simp
  have d: "take (unat (seg_len w)) (bslice 8 4096 e) = segment_data w" using e(4) l by (simp add: bslice_def min_def)
  let ?wi = "\<lparr>wiOffset = 512 * ucast (seg_sector w), wiSize = seg_len w, wiData = bslice 8 4096 e\<rparr>"
  have "read_slot (of_nat PAGE_SIZE) e = Inr ?wi"
    using e by (simp add: read_slot_def p KernelLogicalSectorSize_def)
  moreover have "decodes w ?wi" using off d e(1) by (simp add: decodes_def write_op_def segment_op_def p)
  ultimately show ?thesis by blast
qed

text \<open>A client whose target information is that of its kernel buffer.\<close>

definition client_of_ring :: "Client \<Rightarrow> bool" where
  "client_of_ring c \<longleftrightarrow> (let M = unat (bi_max_writes (rb_info (ring_buf (cKernel c)))) in
     0 < M \<and> M < 2 ^ 32 \<and> M * BDR_WRITE_INFO_SIZE \<le> length (rb_buffer (ring_buf (cKernel c))) \<and>
     tiPageSize (cTargetInfo c) = of_nat PAGE_SIZE \<and> tiWriteInfoSize (cTargetInfo c) = of_nat BDR_WRITE_INFO_SIZE \<and>
     unat (tiBufferByteSize (cTargetInfo c)) = M * BDR_WRITE_INFO_SIZE)"

lemma buffer_entry_slot:
  assumes c: "client_of_ring c" and bi: "biMaxWrites bi = bi_max_writes (rb_info (ring_buf (cKernel c)))"
    and off: "unat (biOffset bi) < unat (biMaxWrites bi)" and i: "unat i < unat (biMaxWrites bi)"
  shows "buffer_entry bi i c = read_slot (of_nat PAGE_SIZE)
    (slot_bytes (ring_buf (cKernel c)) ((unat (biOffset bi) + unat i) mod unat (biMaxWrites bi)))"
proof -
  define M where "M = unat (biMaxWrites bi)"
  define k where "k = (unat (biOffset bi) + unat i) mod M"
  have M: "0 < M" "M < 2 ^ 32" "M * 4104 \<le> length (rb_buffer (ring_buf (cKernel c)))"
    "unat (tiBufferByteSize (cTargetInfo c)) = M * 4104"
    using c by (simp_all add: client_of_ring_def M_def bi Let_def BDR_WRITE_INFO_SIZE_def PAGE_SIZE_def)
  have ti: "tiPageSize (cTargetInfo c) = of_nat PAGE_SIZE" "tiWriteInfoSize (cTargetInfo c) = 4104"
    using c by (simp_all add: client_of_ring_def Let_def BDR_WRITE_INFO_SIZE_def PAGE_SIZE_def)
  have k: "k < M" using M(1) by (simp add: k_def)
  have s: "unat (biOffset bi + i) = unat (biOffset bi) + unat i"
    using off i M(2) unat_add_lem [of "biOffset bi" i] by (simp add: M_def)
  have m: "unat ((biOffset bi + i) mod biMaxWrites bi) = k" by (simp add: unat_mod s k_def M_def)
  have kb: "k * 4104 + 4104 \<le> M * 4104" using k by simp
  have b: "unat (GetBufferInfoByteOffset c bi i) = k * 4104"
    using unat_mult_lem [of "(biOffset bi + i) mod biMaxWrites bi" "4104 :: u64"] m kb M(2)
    by (simp add: GetBufferInfoByteOffset_def ti)
  let ?b = "GetBufferInfoByteOffset c bi i"
  have e: "unat (?b + 4104) = k * 4104 + 4104" using unat_add_lem [of ?b "4104 :: u64"] b kb M(2) by simp
  have len: "length (cBuf c) = M * 4104" using M(3,4) by (simp add: cBuf_def)
  have "\<not> ?b + 4104 < ?b" using b e by (simp add: word_less_nat_alt)
  moreover have "unat (?b + 4104 - ?b) = 4104" by simp
  moreover have "bslice (k * 4104) 4104 (cBuf c) = slot_bytes (ring_buf (cKernel c)) k"
    using kb M(4) by (simp add: cBuf_def slot_bytes_def bslice_def BDR_WRITE_INFO_SIZE_def PAGE_SIZE_def drop_take min_def)
  moreover have "biMaxWrites bi \<noteq> 0" using M(1) by (auto simp: M_def)
  ultimately show ?thesis using b e len kb
    by (simp add: buffer_entry_def Let_def ti k_def [symmetric] M_def [symmetric])
qed

subsection \<open>Sending what was captured\<close>

text \<open>A connection on which every send succeeds.\<close>

definition conn_ok :: "conn \<Rightarrow> bool" where
  "conn_ok cn \<longleftrightarrow> conn_faults cn = [] \<and> conn_broken cn = None"

lemma conn_encode_ok:
  "conn_ok cn \<Longrightarrow> conn_encode packet cn = (None, cn\<lparr>conn_out := conn_out cn @ [packet]\<rparr>)"
  "conn_ok cn \<Longrightarrow> conn_ok (cn\<lparr>conn_out := ps\<rparr>)"
  by (simp_all add: conn_encode_def conn_ok_def)

definition sent_on :: "Packet list \<Rightarrow> Client \<Rightarrow> Client" where
  "sent_on ps c = c\<lparr>cConn := (cConn c)\<lparr>conn_out := conn_out (cConn c) @ ps\<rparr>\<rparr>"

lemma sent_on_simps [simp]:
  "sent_on [] c = c" "sent_on ps (sent_on qs c) = sent_on (qs @ ps) c"
  "conn_out (cConn (sent_on ps c)) = conn_out (cConn c) @ ps"
  "cKernel (sent_on ps c) = cKernel c" "cPause (sent_on ps c) = cPause c" "cTargetInfo (sent_on ps c) = cTargetInfo c"
  "TermIn (sent_on ps c) = TermIn c" "cIoctls (sent_on ps c) = cIoctls c" "cstate (sent_on ps c) = cstate c"
  "conn_ok (cConn (sent_on ps c)) = conn_ok (cConn c)" "client_of_ring (sent_on ps c) = client_of_ring c"
  by (simp_all add: sent_on_def conn_ok_def client_of_ring_def)

lemma Encode_ok: "conn_ok (cConn c) \<Longrightarrow> Client_Encode packet c = (None, sent_on [packet] c)"
  by (simp add: Client_Encode_def conn_encode_ok sent_on_def)

lemma send_ok:
  assumes "conn_ok (cConn c)"
  shows "Client_SendPacket packet c = Some (sent_on [packet] c)" and "send_write packet c = Some (True, sent_on [packet] c)"
  using assms by (subst Client_SendPacket.simps, simp add: Encode_ok) (subst send_write.simps, simp add: Encode_ok assms)

text \<open>While the monitor is not paused the entries are sent one after the other.\<close>

lemma process_writes_sends:
  assumes "conn_ok (cConn c)" and "\<not> (mainLoop \<and> cPause c = Some Paused)"
    and "\<And>k c'. k < n \<Longrightarrow> cKernel c' = cKernel c \<Longrightarrow> cTargetInfo c' = cTargetInfo c \<Longrightarrow> buffer_entry bi (i + of_nat k) c' = Inr (wis ! k)"
    and "length wis = n"
  shows "process_writes n i bi mainLoop c = Some (Inr (), sent_on (map buffer_write_packet wis) c)"
  using assms
proof (induction n arbitrary: i c wis)
  case 0
  then show ?case by simp
next
  case (Suc n)
  from Suc.prems(4) obtain w ws where wis: "wis = w # ws" "length ws = n" by (cases wis) auto
  have p: "IsPaused (cPause c) = Some (cPause c = Some Paused, cPause c)"
    by (simp add: IsPaused_def send_state_def split: option.splits)
  have e: "buffer_entry bi i c = Inr w" using Suc.prems(3) [of 0 c] wis(1) by simp
  have r: "read_entry bi i c = Some (Inr (Some w), c)" by (subst read_entry.simps) (simp add: e)
  have "process_writes n (i + 1) bi mainLoop (sent_on [buffer_write_packet w] c)
      = Some (Inr (), sent_on (map buffer_write_packet ws) (sent_on [buffer_write_packet w] c))"
  proof (rule Suc.IH)
    show "buffer_entry bi (i + 1 + of_nat k) c' = Inr (ws ! k)"
      if "k < n" "cKernel c' = cKernel (sent_on [buffer_write_packet w] c)" "cTargetInfo c' = cTargetInfo (sent_on [buffer_write_packet w] c)" for k c'
      using Suc.prems(3) [of "Suc k" c'] that wis(1) by (simp add: add.assoc)
  qed (use Suc.prems wis in auto)
  then show ?case using Suc.prems(1,2) by (auto simp: p r send_ok(2) wis(1))
qed

text \<open>Reading the buffer information of the kernel module.\<close>

lemma serve_read:
  assumes "TermIn c = None" and "cIoctls c = []"
  shows "ServeIOCTL BDR_CMD_READ_BUFFER_INFO c = Some (Some (ReplyBufferInfo (rb_info (ring_buf (cKernel c)))),
    c\<lparr>cKernel := (cKernel c)\<lparr>ring_buf := snd (bdr_buffer_read_routine (ring_buf (cKernel c)))\<rparr>\<rparr>)"
proof -
  have ne: "BDR_CMD_READ_BUFFER_INFO \<noteq> BDR_CMD_GET_BUFFER_INFO" "BDR_CMD_READ_BUFFER_INFO \<noteq> BDR_CMD_GET_BUFFER_INFO_WAIT"
    "BDR_CMD_READ_BUFFER_INFO \<noteq> BDR_CMD_GET_TARGET_INFO" "BDR_CMD_READ_BUFFER_INFO \<noteq> BDR_CMD_GET_STATUS"
    by (simp_all add: command_defs)
  have "executeIOCTL BDR_CMD_READ_BUFFER_INFO c = (Inr (ReplyBufferInfo (rb_info (ring_buf (cKernel c)))),
      c\<lparr>cKernel := (cKernel c)\<lparr>ring_buf := snd (bdr_buffer_read_routine (ring_buf (cKernel c)))\<rparr>\<rparr>)"
    using assms(2) by (simp add: executeIOCTL_def bdr_chardev_ioctl_def ne bdr_buffer_read_routine_def Let_def)
  then show ?thesis using assms(1) by (subst ServeIOCTL.simps) (simp add: Client_CheckTermination_def)
qed

lemma go_buffer_info_reply [simp]:
  "biLength (go_buffer_info (Some (ReplyBufferInfo bi))) = bi_length bi"
  "biOffset (go_buffer_info (Some (ReplyBufferInfo bi))) = bi_offset bi"
  "biMaxWrites (go_buffer_info (Some (ReplyBufferInfo bi))) = bi_max_writes bi"
  "CheckOverflow (go_buffer_info (Some (ReplyBufferInfo bi))) = overflown bi"
  "HasNewWrites (go_buffer_info (Some (ReplyBufferInfo bi))) = (bi_length bi \<noteq> 0)"
  by (simp_all add: go_buffer_info_def CheckOverflow_def HasNewWrites_def BufferOverflownFlag_def Bit_def overflown_def
      BDR_OVERFLOWN_BUFFER_FLAG_def)

lemma read_routine_buffer [simp]:
  "rb_buffer (snd (bdr_buffer_read_routine rb)) = rb_buffer rb"
  "bi_max_writes (rb_info (snd (bdr_buffer_read_routine rb))) = bi_max_writes (rb_info rb)"
  "slot_bytes (snd (bdr_buffer_read_routine rb)) k = slot_bytes rb k"
  by (simp_all add: bdr_buffer_read_routine_def slot_bytes_def Let_def)

text \<open>A client that is connected, not being stopped, and whose control device answers.\<close>

definition client_up :: "Client \<Rightarrow> bool" where
  "client_up c \<longleftrightarrow> conn_ok (cConn c) \<and> TermIn c = None \<and> cIoctls c = [] \<and> client_of_ring c"

text \<open>The entries that are pending in the buffer are sent in order, each as the write it stands for.\<close>

lemma process_pending:
  assumes up: "client_up c" and inv: "ring_inv rb" and free: "\<not> overflown (rb_info rb)"
    and ring: "rb_buffer (ring_buf (cKernel c)) = rb_buffer rb"
      "bi_max_writes (rb_info (ring_buf (cKernel c))) = bi_max_writes (rb_info rb)"
    and pend: "list_all2 entry_of ws (pending rb)" and ok: "list_all segment_ok ws"
    and run: "\<not> (mainLoop \<and> cPause c = Some Paused)"
  shows "\<exists>wis. list_all2 decodes ws wis \<and>
    ProcessBufferInfo (go_buffer_info (Some (ReplyBufferInfo (rb_info rb)))) mainLoop c =
      Some (Inr (), sent_on (map buffer_write_packet wis) c)"
proof -
  let ?bi = "go_buffer_info (Some (ReplyBufferInfo (rb_info rb)))" and ?n = "unat (bi_length (rb_info rb))"
  define M where "M = unat (bi_max_writes (rb_info rb))"
  note r = ring_invD [OF inv]
  have M: "?n < M" "unat (bi_offset (rb_info rb)) < M" "M < 2 ^ 32" using r(2,3) r(6) [OF free] by (simp_all add: M_def)
  have len: "length ws = ?n" using list_all2_lengthD [OF pend] by simp
  have "\<exists>wi. read_slot (of_nat PAGE_SIZE) (pending rb ! k) = Inr wi \<and> decodes (ws ! k) wi" if "k < ?n" for k
    using read_slot_entry [of "ws ! k" "pending rb ! k"] ok pend that len by (auto simp: list_all_length list_all2_conv_all_nth)
  then obtain f where f: "\<And>k. k < ?n \<Longrightarrow> read_slot (of_nat PAGE_SIZE) (pending rb ! k) = Inr (f k) \<and> decodes (ws ! k) (f k)" by metis
  let ?wis = "map f [0..<?n]"
  have dec: "list_all2 decodes ws ?wis" using f len by (simp add: list_all2_conv_all_nth)
  have "buffer_entry ?bi (0 + of_nat k) c' = Inr (?wis ! k)"
    if "k < ?n" "cKernel c' = cKernel c" "cTargetInfo c' = cTargetInfo c" for k c'
  proof -
    have c': "client_of_ring c'" using up that(2,3) by (simp add: client_up_def client_of_ring_def)
    have k: "unat (of_nat k :: u64) = k" using that(1) M by (simp add: unat_of_nat)
    have "buffer_entry ?bi (of_nat k) c' = read_slot (of_nat PAGE_SIZE)
        (slot_bytes (ring_buf (cKernel c')) ((unat (bi_offset (rb_info rb)) + k) mod M))"
      using buffer_entry_slot [OF c', of ?bi "of_nat k"] M that k ring(2) by (simp add: M_def)
    moreover have "slot_bytes (ring_buf (cKernel c')) j = slot_bytes rb j" for j using ring(1) that(2) by (simp add: slot_bytes_def)
    moreover have "pending rb ! k = slot_bytes rb ((unat (bi_offset (rb_info rb)) + k) mod M)"
      using that(1) by (simp add: pending_def slots_from_def M_def)
    ultimately show ?thesis using f [OF that(1)] that(1) by simp
  qed
  then have "process_writes ?n 0 ?bi mainLoop c = Some (Inr (), sent_on (map buffer_write_packet ?wis) c)"
    using up run by (intro process_writes_sends) (simp_all add: client_up_def)
  then show ?thesis using dec by (auto simp: ProcessBufferInfo_def)
qed

text \<open>The client after it has read the buffer information, which hands the pending entries over.\<close>

definition drained :: "Client \<Rightarrow> Client" where
  "drained c = c\<lparr>cKernel := (cKernel c)\<lparr>ring_buf := snd (bdr_buffer_read_routine (ring_buf (cKernel c)))\<rparr>\<rparr>"

lemma drained_simps [simp]:
  "cConn (drained c) = cConn c" "TermIn (drained c) = TermIn c" "cIoctls (drained c) = cIoctls c" "cPause (drained c) = cPause c"
  "cTargetInfo (drained c) = cTargetInfo c" "client_of_ring (drained c) = client_of_ring c" "client_up (drained c) = client_up c"
  "ring_buf (cKernel (drained c)) = snd (bdr_buffer_read_routine (ring_buf (cKernel c)))"
  by (simp_all add: drained_def client_of_ring_def client_up_def)

lemma drained_overflown: "overflown (rb_info (ring_buf (cKernel c))) \<Longrightarrow> drained c = c"
  by (simp add: drained_def bdr_buffer_read_routine_def Let_def)

lemma buffer_packet: "buffer_write_packet = write_packet"
  by (simp add: fun_eq_iff buffer_write_packet_def write_packet_def)

text \<open>Both the end of a scan and an iteration of the monitor send all that is pending.\<close>

lemma monitor_reads:
  assumes "client_up c" and "cPause c = None"
  shows "monitor_step pick es c = (let bi = rb_info (ring_buf (cKernel c)) in
    if bi_length bi = 0 then Some (Inr False, drained c)
    else if overflown bi then map_option (Pair (Inr False)) (StartHashing (c\<lparr>cStats := RecordBufferOverflow (cStats c)\<rparr>))
    else map_option (\<lambda>(r, c3). (case r of Inl e \<Rightarrow> Inl e | Inr u \<Rightarrow> Inr False, c3))
           (ProcessBufferInfo (go_buffer_info (Some (ReplyBufferInfo bi))) True (drained c)))"
proof -
  have c: "Client_CheckTermination c = (False, c)" "WaitIfPaused False pick None es = (Some False, None)" "c\<lparr>cPause := None\<rparr> = c"
    using assms by (simp_all add: client_up_def Client_CheckTermination_def WaitIfPaused_def)
  have srv: "ServeIOCTL BDR_CMD_READ_BUFFER_INFO c = Some (Some (ReplyBufferInfo (rb_info (ring_buf (cKernel c)))), drained c)"
    using serve_read [of c] assms(1) by (simp add: client_up_def drained_def)
  show ?thesis using drained_overflown [of c] by (simp add: monitor_step_def c assms(2) srv Let_def)
qed

lemma SendBuffer_reads:
  assumes "client_up c"
  shows "SendBuffer c = (let bi = rb_info (ring_buf (cKernel c)) in
    if bi_length bi = 0 then Some (Inr True, drained c)
    else if overflown bi then Some (Inr False, c)
    else map_option (\<lambda>(r, c3). (case r of Inl e \<Rightarrow> Inl e | Inr u \<Rightarrow> Inr True, c3))
           (ProcessBufferInfo (go_buffer_info (Some (ReplyBufferInfo bi))) False (drained c)))"
proof -
  have srv: "ServeIOCTL BDR_CMD_READ_BUFFER_INFO c = Some (Some (ReplyBufferInfo (rb_info (ring_buf (cKernel c)))), drained c)"
    using serve_read [of c] assms(1) by (simp add: client_up_def drained_def)
  then show ?thesis using drained_overflown [of c] by (simp add: SendBuffer_def Let_def)
qed

lemma client_sends:
  assumes up: "client_up c" and inv: "ring_inv (ring_buf (cKernel c))" and free: "\<not> overflown (rb_info (ring_buf (cKernel c)))"
    and pend: "list_all2 entry_of ws (pending (ring_buf (cKernel c)))" and ok: "list_all segment_ok ws"
  shows "\<exists>wis. list_all2 decodes ws wis \<and> SendBuffer c = Some (Inr True, sent_on (map write_packet wis) (drained c))"
    and "cPause c = None \<Longrightarrow>
      \<exists>wis. list_all2 decodes ws wis \<and> monitor_step pick es c = Some (Inr False, sent_on (map write_packet wis) (drained c))"
proof -
  let ?bi = "rb_info (ring_buf (cKernel c))"
  have none: "ws = []" if "bi_length ?bi = 0" using list_all2_lengthD [OF pend] that by simp
  have run: "\<exists>wis. list_all2 decodes ws wis \<and>
      ProcessBufferInfo (go_buffer_info (Some (ReplyBufferInfo ?bi))) m (drained c) = Some (Inr (), sent_on (map write_packet wis) (drained c))"
    if "\<not> (m \<and> cPause c = Some Paused)" for m
    using that process_pending [OF _ inv free _ _ pend ok, of "drained c" m] up by (simp add: buffer_packet)
  show "\<exists>wis. list_all2 decodes ws wis \<and> SendBuffer c = Some (Inr True, sent_on (map write_packet wis) (drained c))"
    using run [of False] free none by (cases "bi_length ?bi = 0") (auto simp: SendBuffer_reads [OF up] Let_def)
  show "\<exists>wis. list_all2 decodes ws wis \<and> monitor_step pick es c = Some (Inr False, sent_on (map write_packet wis) (drained c))"
    if p: "cPause c = None"
    using run [of True] free none p by (cases "bi_length ?bi = 0") (auto simp: monitor_reads [OF up p] Let_def)
qed

text \<open>An example: a client of a buffer of four slots.\<close>

definition demo_context :: bdr_context where
  "demo_context = \<lparr>ring_buf = demo_ring, overflow_bm = \<lparr>bm_bits = None, bm_max_bits = 0\<rparr>, status = ACTIVE\<rparr>"

definition demo_client :: "bdr_context \<Rightarrow> Client" where
  "demo_client bc = \<lparr>cTargetInfo = go_target_info (bdr_get_target_info demo_ring (overflow_bm demo_context)),
     cConn = \<lparr>conn_out = [], conn_in = [], conn_end = ErrTimeout, conn_faults = [], conn_broken = None\<rparr>, cDials = [], cListener = [],
     cUnderDev = demo_blank\<lparr>dev_bytes := [4, 5, 6]\<rparr>, cKernel = bc, cIoctls = [], cPause = None, TermIn = None,
     cStats = NewBenchmarkStats False, cOpen = True, cstate = ClientWriting\<rparr>"

end
