(* ===== verification/Client_Recovery.thy ===== *)
theory Client_Recovery
  imports Client_Correct
begin

text \<open>
  The loops of the client under failures: when a send returns if the listener may replace the
  connection meanwhile, that the listener cannot replace a connection it sends on itself, what
  an overflow of the buffer and the end of a connection do, and the client's side of a scan.
\<close>

subsection \<open>Sending\<close>

text \<open>A send can be delivered: one of the scheduled sends succeeds, or those after them do.\<close>

definition deliverable :: "conn \<Rightarrow> bool" where
  "deliverable cn \<longleftrightarrow> None \<in> set (conn_faults cn) \<or> conn_broken cn = None"

lemma encode_cases:
  obtains (sent) cn where "conn_encode packet cn0 = (None, cn)" and "conn_out cn = conn_out cn0 @ [packet]" and "deliverable cn0"
  | (failed) e cn where "conn_encode packet cn0 = (Some e, cn)" and "conn_out cn = conn_out cn0"
      and "deliverable cn = deliverable cn0" and "deliverable cn0 \<Longrightarrow> length (conn_faults cn) < length (conn_faults cn0)"
proof (cases "conn_faults cn0")
  case Nil
  show thesis
  proof (cases "conn_broken cn0")
    case None
    show thesis by (rule sent, simp add: conn_encode_def Nil None, simp_all add: deliverable_def Nil None)
  next
    case (Some e)
    show thesis by (rule failed, simp add: conn_encode_def Nil Some, simp_all add: deliverable_def Nil Some)
  qed
next
  case (Cons f fs)
  show thesis
  proof (cases f)
    case None
    show thesis by (rule sent, simp add: conn_encode_def Cons None, simp_all add: deliverable_def Cons None)
  next
    case (Some e)
    show thesis by (rule failed, simp add: conn_encode_def Cons Some, simp_all add: deliverable_def Cons Some)
  qed
qed

text \<open>The connections a send may be attempted on: the first one and those the listener puts in its place.\<close>

fun installed :: "(ClientState \<times> conn) option list \<Rightarrow> conn list" where
  "installed [] = []"
| "installed (None # events) = installed events"
| "installed (Some (st, cn) # events) = cn # installed events"

definition encoders :: "Client \<Rightarrow> conn list" where
  "encoders c = cConn c # installed (cListener c)"

text \<open>After a failed attempt: the same connection with one attempt less ahead, or the next one.\<close>

lemma listener_acts_simps [simp]:
  "TermIn (listener_acts c) = TermIn c" "cListener c = [] \<Longrightarrow> listener_acts c = c"
  "cListener (listener_acts c) = tl (cListener c)" "listener_acts (c\<lparr>TermIn := t\<rparr>) = (listener_acts c)\<lparr>TermIn := t\<rparr>"
  by (auto simp: listener_acts_def split: list.splits option.splits)

lemma encoders_acts:
  "set (encoders (listener_acts c)) \<subseteq> set (encoders c)" "last (encoders (listener_acts c)) = last (encoders c)"
  by (auto simp: encoders_def listener_acts_def split: list.splits option.splits)

lemma send_again:
  assumes "conn_encode packet (cConn c) = (Some e, cn)"
  shows "Client_SendPacket packet c = (let c1 = listener_acts (c\<lparr>cConn := cn\<rparr>) in case TermIn c of
      None \<Rightarrow> Client_SendPacket packet c1
    | Some 0 \<Rightarrow> Some c1
    | Some (Suc n) \<Rightarrow> Client_SendPacket packet (c1\<lparr>TermIn := Some n\<rparr>))"
  using assms by (subst Client_SendPacket.simps)
    (auto simp: Client_Encode_def Client_CheckTermination_def Let_def split: option.splits nat.splits)

text \<open>What a failed attempt leaves of the connections.\<close>

lemma failed_encoders:
  assumes "conn_out cn = conn_out (cConn c)" and "deliverable cn = deliverable (cConn c)"
  defines "c1 \<equiv> listener_acts (c\<lparr>cConn := cn\<rparr>)"
  shows "deliverable (last (encoders c1)) = deliverable (last (encoders c))"
    and "conn_out ` set (encoders c1) \<subseteq> conn_out ` set (encoders c)"
    and "\<forall>k \<in> set (encoders c). \<not> deliverable k \<Longrightarrow> \<forall>k \<in> set (encoders c1). \<not> deliverable k"
proof -
  have l: "last (encoders (c\<lparr>cConn := cn\<rparr>)) = (if installed (cListener c) = [] then cn else last (encoders c))"
    by (simp add: encoders_def)
  show "deliverable (last (encoders c1)) = deliverable (last (encoders c))"
    unfolding c1_def encoders_acts(2) l using assms(2) by (simp add: encoders_def)
  show "conn_out ` set (encoders c1) \<subseteq> conn_out ` set (encoders c)"
    using encoders_acts(1) [of "c\<lparr>cConn := cn\<rparr>"] assms(1) unfolding c1_def by (auto simp: encoders_def)
  show "\<forall>k \<in> set (encoders c1). \<not> deliverable k" if "\<forall>k \<in> set (encoders c). \<not> deliverable k"
    using encoders_acts(1) [of "c\<lparr>cConn := cn\<rparr>"] assms(2) that unfolding c1_def by (auto simp: encoders_def)
qed

text \<open>What holds of a client on which the send has returned.\<close>

definition send_done :: "Packet \<Rightarrow> Client \<Rightarrow> Client \<Rightarrow> bool" where
  "send_done packet c c' \<longleftrightarrow> (\<exists>cn \<in> set (encoders c).
     conn_out (cConn c') = conn_out cn @ [packet] \<or> conn_out (cConn c') = conn_out cn \<and> TermIn c' = Some 0)"

lemma send_done_mono:
  assumes "send_done packet c1 c'" and "conn_out ` set (encoders c1) \<subseteq> conn_out ` set (encoders c)"
  shows "send_done packet c c'"
proof -
  from assms(1) obtain k where k: "k \<in> set (encoders c1)"
    "conn_out (cConn c') = conn_out k @ [packet] \<or> conn_out (cConn c') = conn_out k \<and> TermIn c' = Some 0"
    by (auto simp: send_done_def)
  from k(1) assms(2) obtain cn where cn: "cn \<in> set (encoders c)" "conn_out k = conn_out cn" by blast
  show ?thesis unfolding send_done_def by (rule bexI [OF _ cn(1)]) (use k(2) cn(2) in simp)
qed

lemma encoders_TermIn [simp]: "encoders (c\<lparr>TermIn := t\<rparr>) = encoders c"
  by (simp add: encoders_def)

lemma send_returned:
  assumes "Client_SendPacket packet c = Some c'"
  shows "send_done packet c c' \<and> ((\<exists>cn \<in> set (encoders c). deliverable cn) \<or> TermIn c \<noteq> None)"
proof (rule Client_SendPacket.raw_induct [where P = "\<lambda>packet c c'. send_done packet c c' \<and> ((\<exists>cn \<in> set (encoders c). deliverable cn) \<or> TermIn c \<noteq> None)", OF _ assms])
  fix send :: "Packet \<Rightarrow> Client \<Rightarrow> Client option" and packet c c'
  assume ih: "\<And>packet c c'. send packet c = Some c' \<Longrightarrow> send_done packet c c' \<and> ((\<exists>cn \<in> set (encoders c). deliverable cn) \<or> TermIn c \<noteq> None)"
    and r: "(case Client_Encode packet c of (None, c1) \<Rightarrow> Some c1
      | (Some err, c1) \<Rightarrow> (case Client_CheckTermination (listener_acts c1) of (terminated, c2) \<Rightarrow>
           if terminated then Some c2 else send packet c2)) = Some c'"
  show "send_done packet c c' \<and> ((\<exists>cn \<in> set (encoders c). deliverable cn) \<or> TermIn c \<noteq> None)"
  proof (cases packet "cConn c" rule: encode_cases)
    case (sent cn)
    then show ?thesis using r by (auto simp: Client_Encode_def send_done_def encoders_def)
  next
    case (failed e cn)
    let ?c1 = "listener_acts (c\<lparr>cConn := cn\<rparr>)"
    note f = failed_encoders [OF failed(2,3)]
    have r': "(case Client_CheckTermination ?c1 of (terminated, c2) \<Rightarrow> if terminated then Some c2 else send packet c2) = Some c'"
      using r failed(1) by (simp add: Client_Encode_def)
    have "send_done packet ?c1 c' \<and> ((\<exists>cn \<in> set (encoders ?c1). deliverable cn) \<or> TermIn c \<noteq> None)"
      using r' ih [of packet ?c1 c'] ih [of packet "?c1\<lparr>TermIn := Some n\<rparr>" c' for n]
      by (auto simp: Client_CheckTermination_def send_done_def split: option.splits nat.splits) (auto simp: encoders_def)
    then show ?thesis using send_done_mono [OF _ f(2)] f(3) by blast
  qed
qed

lemma sent_returns: "conn_encode packet (cConn c) = (None, cn) \<Longrightarrow> Client_SendPacket packet c \<noteq> None"
  by (subst Client_SendPacket.simps) (simp add: Client_Encode_def)

lemma deliverable_sends:
  assumes "deliverable (last (encoders c))" and "TermIn c = None"
  shows "Client_SendPacket packet c \<noteq> None"
  using assms
proof (induction "(length (cListener c), length (conn_faults (cConn c)))" arbitrary: c rule: wf_induct_rule [OF wf_lex_prod [OF wf_less_than wf_less_than]])
  case (1 c)
  show ?case
  proof (cases packet "cConn c" rule: encode_cases)
    case (sent cn)
    show ?thesis by (rule sent_returns [OF sent(1)])
  next
    case (failed e cn)
    let ?c1 = "listener_acts (c\<lparr>cConn := cn\<rparr>)"
    note f = failed_encoders [OF failed(2,3)]
    have "cConn ?c1 = cn \<and> length (conn_faults cn) < length (conn_faults (cConn c))" if "cListener c = []"
      using failed(4) "1.prems"(1) that by (simp add: encoders_def)
    then have "((length (cListener ?c1), length (conn_faults (cConn ?c1))), (length (cListener c), length (conn_faults (cConn c))))
        \<in> less_than <*lex*> less_than" by (cases "cListener c") auto
    then have "Client_SendPacket packet ?c1 \<noteq> None" using "1.hyps" [of ?c1] f(1) "1.prems" by auto
    then show ?thesis using send_again [OF failed(1)] "1.prems"(2) by simp
  qed
qed

text \<open>A client that will be told to stop returns from the send after at most that many polls.\<close>

lemma stopping_sends:
  assumes "TermIn c = Some n"
  shows "Client_SendPacket packet c \<noteq> None"
  using assms
proof (induction n arbitrary: c)
  case 0
  show ?case by (cases packet "cConn c" rule: encode_cases) (use 0 sent_returns send_again in \<open>fastforce simp: Let_def\<close>)+
next
  case (Suc n)
  show ?case
  proof (cases packet "cConn c" rule: encode_cases)
    case (sent cn)
    show ?thesis by (rule sent_returns [OF sent(1)])
  next
    case (failed e cn)
    then show ?thesis using Suc.IH [of "(listener_acts (c\<lparr>cConn := cn\<rparr>))\<lparr>TermIn := Some n\<rparr>"] send_again [OF failed(1)] Suc.prems by simp
  qed
qed

text \<open>
  C27: When \<^verbatim>\<open>SendPacket\<close> returns.  It attempts the send on the connection that the client has at
  the moment, which the listener may replace between the attempts.  It returns if the client
  is told to stop or if the last connection it gets to use accepts a send in the end.  It
  does not return if no connection it gets to use ever does and the client is not told to
  stop: in particular, if the listener does not replace a broken connection, the send is
  repeated forever.  When it returns the packet has been sent once, on one of these
  connections, or not at all and the client is stopping.
\<close>

theorem send_packet_returns:
  "(deliverable (last (encoders c)) \<or> (\<exists>n. TermIn c = Some n) \<longrightarrow> Client_SendPacket packet c \<noteq> None) \<and>
   ((\<forall>cn \<in> set (encoders c). \<not> deliverable cn) \<and> TermIn c = None \<longrightarrow> Client_SendPacket packet c = None) \<and>
   (\<forall>c'. Client_SendPacket packet c = Some c' \<longrightarrow> send_done packet c c')"
proof -
  have "Client_SendPacket packet c \<noteq> None" if "deliverable (last (encoders c)) \<or> (\<exists>n. TermIn c = Some n)"
    using that deliverable_sends [of c packet] stopping_sends [of c _ packet] by (cases "TermIn c") auto
  moreover have "Client_SendPacket packet c = None" if "\<forall>cn \<in> set (encoders c). \<not> deliverable cn" "TermIn c = None"
    using send_returned [of packet c] that by (cases "Client_SendPacket packet c") auto
  ultimately show ?thesis using send_returned [of packet c] by blast
qed

text \<open>A client whose connection is broken, and which the listener does or does not give a new one.\<close>

definition demo_broken :: conn where
  "demo_broken = (cConn (demo_client demo_context))\<lparr>conn_in := [Inr (CreateInfoPacket PacketTypeInfoHashingCompleted)],
     conn_broken := Some ErrBrokenPipe\<rparr>"

definition demo_cut_client :: Client where
  "demo_cut_client = (demo_client demo_context)\<lparr>cConn := demo_broken, cDials := [Some (cConn (demo_client demo_context))]\<rparr>"

definition demo_resent_client :: Client where
  "demo_resent_client = demo_cut_client\<lparr>cListener := [None, Some (ClientWriting, cConn (demo_client demo_context))]\<rparr>"

theorem send_packet_returns_witness:
  "Client_SendPacket (CreateInfoPacket PacketTypeCmdStartHashing) demo_resent_client \<noteq> None \<and>
   Client_SendPacket (CreateInfoPacket PacketTypeCmdStartHashing) demo_cut_client = None"
  using send_packet_returns [of demo_resent_client "CreateInfoPacket PacketTypeCmdStartHashing"]
    send_packet_returns [of demo_cut_client "CreateInfoPacket PacketTypeCmdStartHashing"]
  by (simp add: demo_resent_client_def demo_cut_client_def demo_broken_def encoders_def deliverable_def demo_client_def)

subsection \<open>Requesting a scan\<close>

text \<open>The client after it has reset the buffer and paused the monitor for a scan.\<close>

definition scanning :: "Client \<Rightarrow> Client" where
  "scanning c = c\<lparr>cKernel := (cKernel c)\<lparr>ring_buf := bdr_ring_buffer_reset (ring_buf (cKernel c))\<rparr>,
     cPause := Some Paused, cstate := ClientHashing\<rparr>"

lemma scanning_simps [simp]:
  "cConn (scanning c) = cConn c" "TermIn (scanning c) = TermIn c" "cIoctls (scanning c) = cIoctls c"
  "Client_GetState (scanning c) = ClientHashing" "cPause (scanning c) = Some Paused"
  "ring_buf (cKernel (scanning c)) = bdr_ring_buffer_reset (ring_buf (cKernel c))" "cUnderDev (scanning c) = cUnderDev c"
  by (simp_all add: scanning_def Client_GetState_def)

lemma ring_reset:
  "pending (bdr_ring_buffer_reset rb) = []" "\<not> overflown (rb_info (bdr_ring_buffer_reset rb))"
  "ring_inv rb \<Longrightarrow> ring_inv (bdr_ring_buffer_reset rb)"
  by (auto simp: bdr_ring_buffer_reset_def pending_def slots_from_def overflown_def ring_inv_def handed_count_def word_less_nat_alt)

lemma reset_buffer:
  assumes "TermIn c = None" and "cIoctls c = []"
  shows "ResetBufferIOCTL c = Some (c\<lparr>cKernel := (cKernel c)\<lparr>ring_buf := bdr_ring_buffer_reset (ring_buf (cKernel c))\<rparr>\<rparr>)"
proof -
  have ne: "BDR_CMD_RESET_BUFFER \<noteq> BDR_CMD_GET_BUFFER_INFO" "BDR_CMD_RESET_BUFFER \<noteq> BDR_CMD_GET_BUFFER_INFO_WAIT"
    "BDR_CMD_RESET_BUFFER \<noteq> BDR_CMD_GET_TARGET_INFO" "BDR_CMD_RESET_BUFFER \<noteq> BDR_CMD_GET_STATUS"
    "BDR_CMD_RESET_BUFFER \<noteq> BDR_CMD_READ_BUFFER_INFO" "BDR_CMD_RESET_BUFFER \<noteq> BDR_CMD_READ_BUFFER_INFO_WAIT"
    by (simp_all add: command_defs)
  have "executeIOCTL BDR_CMD_RESET_BUFFER c =
      (Inr NoReply, c\<lparr>cKernel := (cKernel c)\<lparr>ring_buf := bdr_ring_buffer_reset (ring_buf (cKernel c))\<rparr>\<rparr>)"
    using assms(2) by (simp add: executeIOCTL_def bdr_chardev_ioctl_def ne Let_def)
  then show ?thesis using assms(1)
    by (subst ResetBufferIOCTL_def, subst ServeIOCTL.simps) (simp add: Client_CheckTermination_def)
qed

lemma StartHashing_ok:
  assumes "TermIn c = None" and "cIoctls c = []" and "conn_ok (cConn c)"
  shows "StartHashing c = Some (sent_on [CreateInfoPacket PacketTypeCmdStartHashing] (scanning c))"
  using assms by (simp add: StartHashing_def start_pass_def reset_buffer pause_monitor_def Pause_def send_state_def
      drainChannel_def Client_SetState_def send_ok scanning_def)

subsection \<open>A lost connection\<close>

text \<open>
  The listener with a connection that refuses every send.  While it sends itself, nobody
  replaces the connection.
\<close>

definition cut_off :: "Client \<Rightarrow> bool" where
  "cut_off c \<longleftrightarrow> cListener c = [] \<and> \<not> deliverable (cConn c) \<and> TermIn c = None"

lemma cut_off_send: "cut_off c \<Longrightarrow> Client_SendPacket packet c = None"
  using send_returned [of packet c] by (cases "Client_SendPacket packet c") (auto simp: cut_off_def encoders_def)

lemma cut_off_write:
  assumes "cut_off c" and "Client_GetState c \<noteq> ClientReconnecting"
  shows "send_write packet c = None"
proof -
  let ?P = "\<lambda>packet c r. \<not> (cut_off c \<and> Client_GetState c \<noteq> ClientReconnecting)"
  have "?P packet c r" if "send_write packet c = Some r" for r
  proof (rule send_write.raw_induct [where P = ?P, OF _ that])
    fix send :: "Packet \<Rightarrow> Client \<Rightarrow> (bool \<times> Client) option" and packet c r
    assume ih: "\<And>packet c r. send packet c = Some r \<Longrightarrow> ?P packet c r"
      and r: "(case Client_Encode packet c of (None, c1) \<Rightarrow> Some (True, c1)
        | (Some err, c1) \<Rightarrow> if Client_GetState (listener_acts c1) = ClientReconnecting then Some (False, listener_acts c1)
            else case Client_CheckTermination (listener_acts c1) of (terminated, c2) \<Rightarrow>
              if terminated then Some (False, c2) else send packet (listener_acts c2)) = Some r"
    show "?P packet c r"
    proof (cases packet "cConn c" rule: encode_cases)
      case sent
      then show ?thesis by (simp add: cut_off_def)
    next
      case (failed e cn)
      have "send packet (c\<lparr>cConn := cn\<rparr>) = Some r" if "\<not> ?P packet c r"
        using r failed(1) that by (simp add: Client_Encode_def cut_off_def Client_GetState_def Client_CheckTermination_def)
      then show ?thesis using ih [of packet "c\<lparr>cConn := cn\<rparr>" r] failed(3) by (cases "TermIn c") (auto simp: cut_off_def Client_GetState_def)
    qed
  qed
  then show ?thesis using assms by (cases "send_write packet c") auto
qed

lemma cut_off_scan:
  assumes "cut_off c" and "cIoctls c = []"
  shows "StartHashing c = None"
  using assms by (simp add: StartHashing_def start_pass_def reset_buffer cut_off_def pause_monitor_def Pause_def send_state_def
      drainChannel_def Client_SetState_def cut_off_send)

lemma cut_off_results:
  assumes "cut_off c" and "cIoctls c = []"
  shows "scan_results items c = None \<or> scan_results items c = Some c"
proof (induction items)
  case Nil
  then show ?case by simp
next
  case (Cons it items)
  have "scan_result it c = None \<or> scan_result it c = Some c"
    using assms by (cases it) (simp_all add: SendCorrectBlock_def cut_off_send cut_off_scan)
  then show ?case using Cons by auto
qed

lemma read_slot_full: "length e = BDR_WRITE_INFO_SIZE \<Longrightarrow> \<exists>w. read_slot (of_nat PAGE_SIZE) e = Inr w"
  by (simp add: read_slot_def BDR_WRITE_INFO_SIZE_def PAGE_SIZE_def Let_def)

lemma slot_length:
  assumes "ring_inv rb" and "k < unat (bi_max_writes (rb_info rb))"
  shows "length (slot_bytes rb k) = BDR_WRITE_INFO_SIZE"
proof -
  have "Suc k * BDR_WRITE_INFO_SIZE \<le> length (rb_buffer rb)"
    using ring_invD(5) [OF assms(1)] mult_le_mono1 [OF Suc_leI [OF assms(2)], of BDR_WRITE_INFO_SIZE] by linarith
  then show ?thesis by (simp add: slot_bytes_def)
qed

lemma cut_off_buffer:
  assumes c: "cut_off c" "cIoctls c = []" "client_of_ring c" "Client_GetState c \<noteq> ClientReconnecting"
    and inv: "ring_inv (ring_buf (cKernel c))"
  shows "ProcessBuffer c = None"
proof -
  let ?rb = "ring_buf (cKernel c)" and ?bi = "go_buffer_info (Some (ReplyBufferInfo (rb_info (ring_buf (cKernel c)))))"
  have d: "cut_off (drained c)" "Client_GetState (drained c) \<noteq> ClientReconnecting"
    using c by (simp_all add: cut_off_def drained_def Client_GetState_def)
  have srv: "ServeIOCTL BDR_CMD_READ_BUFFER_INFO c = Some (Some (ReplyBufferInfo (rb_info ?rb)), drained c)"
    using serve_read [of c] c by (simp add: cut_off_def drained_def)
  have "ProcessBufferInfo ?bi False (drained c) = None" if "bi_length (rb_info ?rb) \<noteq> 0"
  proof -
    note r = ring_invD [OF inv]
    from that have "unat (bi_length (rb_info ?rb)) \<noteq> 0" by (simp add: unat_eq_zero)
    then obtain n where n: "unat (bi_length (rb_info ?rb)) = Suc n" using not0_implies_Suc by blast
    have M: "unat (bi_offset (rb_info ?rb)) < unat (bi_max_writes (rb_info ?rb))" "0 < unat (bi_max_writes (rb_info ?rb))"
      using r(1,3) by simp_all
    have "buffer_entry ?bi 0 (drained c) = read_slot (of_nat PAGE_SIZE)
        (slot_bytes (ring_buf (cKernel (drained c))) ((unat (bi_offset (rb_info ?rb)) + unat (0 :: u64)) mod unat (bi_max_writes (rb_info ?rb))))"
      using buffer_entry_slot [of "drained c" ?bi 0] c(3) M by simp
    moreover have "length (slot_bytes ?rb ((unat (bi_offset (rb_info ?rb)) + unat (0 :: u64)) mod unat (bi_max_writes (rb_info ?rb)))) = BDR_WRITE_INFO_SIZE"
      using slot_length [OF inv] M(2) by simp
    ultimately obtain w where "buffer_entry ?bi 0 (drained c) = Inr w" using read_slot_full by fastforce
    then have e: "read_entry ?bi 0 (drained c) = Some (Inr (Some w), drained c)" by (subst read_entry.simps) simp
    have p: "IsPaused (cPause c) = Some (cPause c = Some Paused, cPause c)" "(drained c)\<lparr>cPause := cPause c\<rparr> = drained c"
      by (simp_all add: IsPaused_def send_state_def drained_def split: option.splits)
    show ?thesis by (simp add: ProcessBufferInfo_def n e p cut_off_write [OF d])
  qed
  then show ?thesis using drained_overflown [of c] cut_off_scan [OF c(1,2)] cut_off_send d(1)
    by (auto simp: ProcessBuffer_def SendBuffer_def srv Let_def resume_monitor_def Resume_def send_state_def drainChannel_def
        Client_SetState_def cut_off_def)
qed

text \<open>An iteration of the listener on a packet that has arrived.\<close>

lemma listen_next:
  assumes "TermIn c = None" and "conn_in (cConn c) = Inr packet # rs"
  shows "listen_step items elapsed l c = listen_packet items elapsed packet l (c\<lparr>cConn := (cConn c)\<lparr>conn_in := rs\<rparr>\<rparr>)"
proof -
  have "ReceivePacket c = Some (Some packet, c\<lparr>cConn := (cConn c)\<lparr>conn_in := rs\<rparr>\<rparr>)"
    using assms by (subst ReceivePacket.simps) (simp add: Client_CheckTermination_def Client_Decode_def)
  then show ?thesis using assms(1) by (simp add: listen_step_def Client_CheckTermination_def)
qed

lemma demo_client_up: "client_up (demo_client demo_context)"
  by (simp add: client_up_def conn_ok_def client_of_ring_def demo_client_def demo_context_def demo_ring_def go_target_info_def
      bdr_get_target_info_def bdr_ring_buffer_get_byte_size_def BDR_WRITES_TO_BYTES_def BDR_WRITE_INFO_SIZE_def PAGE_SIZE_def)

text \<open>
  C28: A connection that breaks before the end of a scan is not replaced.  Only the listener
  reconnects, when a receive meets the end of file; but after the completion of the hashing
  has arrived it sends itself, the blocks that differ, the captured writes and the completion,
  or the request for another scan.  If the connection refuses every send by then, the listener
  never gets back to receiving and dials no server, whatever the comparisons gave and however
  many dials would succeed, until the client is told to stop.
\<close>

theorem listener_send_stuck:
  assumes broken: "\<not> deliverable (cConn c)" and listener: "cListener c = []"
    and c: "TermIn c = None" "cIoctls c = []" "client_of_ring c" "ring_inv (ring_buf (cKernel c))" "Client_GetState c \<noteq> ClientReconnecting"
    and arrive: "conn_in (cConn c) = Inr (CreateInfoPacket PacketTypeInfoHashingCompleted) # rs"
  shows "listen_step items elapsed l c = None"
proof -
  let ?c = "c\<lparr>cConn := (cConn c)\<lparr>conn_in := rs\<rparr>\<rparr>"
  have off: "cut_off ?c" using broken listener c(1) by (simp add: cut_off_def deliverable_def)
  let ?stats = "\<lambda>k. k\<lparr>cStats := RecordHashing elapsed (hashed_bytes items) (cStats k)\<rparr>"
  have "ProcessBuffer ?c = None" "ProcessBuffer (?stats ?c) = None"
    using off c by (auto intro!: cut_off_buffer simp: cut_off_def client_of_ring_def Client_GetState_def)
  then have "Option.bind (wait_hashing items elapsed l ?c) (\<lambda>c1. Option.bind (ProcessBuffer c1) f) = None" for f
    using cut_off_results [OF off, of items] c(2) by (auto simp: wait_hashing_def InitHashing_def)
  then show ?thesis using listen_next [OF c(1) arrive] by (simp add: listen_packet_def CreateInfoPacket_def)
qed

theorem listener_send_stuck_witness: "listen_step [] 0 (new_listener False) demo_cut_client = None"
  using listener_send_stuck [of demo_cut_client "[]" "[]" 0 "new_listener False"] demo_client_up demo_ring_facts
  by (simp add: demo_cut_client_def demo_broken_def deliverable_def client_up_def client_of_ring_def demo_client_def demo_context_def Client_GetState_def)

text \<open>After an end of file the client dials until the server answers, and asks for a scan.\<close>

lemma reconnects:
  assumes "cDials c = replicate k None @ Some cn # ds" and "TermIn c = None" and "cIoctls c = []" and "conn_ok cn"
    and "GetDeviceSize (cUnderDev c) = Inr sz" and "past \<noteq> ClientReconnecting"
  shows "reconnect_loop past c = Some (sent_on [init_packet sz c, CreateInfoPacket PacketTypeCmdStartHashing]
    (scanning (c\<lparr>cDials := ds, cConn := cn\<rparr>)))"
  using assms(1,2,3,5)
proof (induction k arbitrary: c)
  case 0
  have past: "past \<in> {ClientHashing, ClientReplicating, ClientWriting}" using assms(6) by (cases past) auto
  let ?c = "c\<lparr>cDials := ds, cConn := cn\<lparr>conn_out := conn_out cn @ [init_packet sz c]\<rparr>\<rparr>"
  have i: "init_packet sz (c\<lparr>cDials := ds\<rparr>) = init_packet sz c" by (simp add: init_packet_def)
  have "StartHashing ?c = Some (sent_on [CreateInfoPacket PacketTypeCmdStartHashing] (scanning ?c))"
    by (rule StartHashing_ok) (use 0 assms(4) in \<open>simp_all add: conn_encode_ok(2)\<close>)
  then show ?case using 0 past assms(4)
    by (subst reconnect_loop.simps)
      (auto simp: Client_CheckTermination_def DialTimeout_def conn_encode_ok i sent_on_def scanning_def)
next
  case (Suc k)
  let ?c = "c\<lparr>cDials := replicate k None @ Some cn # ds\<rparr>"
  have i: "init_packet sz ?c = init_packet sz c" by (simp add: init_packet_def)
  have "reconnect_loop past c = reconnect_loop past ?c"
    using Suc.prems by (subst reconnect_loop.simps) (simp add: Client_CheckTermination_def DialTimeout_def)
  then show ?case using Suc.IH [of ?c] Suc.prems by (simp add: i)
qed

text \<open>
  C5: When the server closes the connection, the client dials it until it answers, however
  many dials fail, introduces itself again and asks for a scan, and only then returns the
  next packet that arrives.  By then the buffer of the kernel module is empty and accepts
  writes again, and the monitor is paused: every write after that is kept for the end of the
  scan.
\<close>

theorem reconnect_rescans:
  assumes c: "TermIn c = None" "cIoctls c = []" "Client_GetState c \<noteq> ClientReconnecting"
    and eof: "conn_in (cConn c) = []" "conn_end (cConn c) = ErrEOF"
    and dials: "cDials c = replicate k None @ Some cn # ds" "conn_ok cn" "conn_in cn = Inr packet # rs"
    and dev: "GetDeviceSize (cUnderDev c) = Inr sz"
  shows "\<exists>c'. ReceivePacket c = Some (Some packet, c') \<and> Client_GetState c' = ClientHashing \<and> cPause c' = Some Paused \<and>
    conn_out (cConn c') = conn_out cn @ [init_packet sz c, CreateInfoPacket PacketTypeCmdStartHashing] \<and>
    pending (ring_buf (cKernel c')) = [] \<and> \<not> overflown (rb_info (ring_buf (cKernel c'))) \<and> cDials c' = ds"
proof -
  let ?s = "CreateInfoPacket PacketTypeCmdStartHashing"
  let ?c = "(Client_SetState ClientReconnecting c)\<lparr>cStats := RecordReconnection (cStats c), cConn := conn_closed (cConn c)\<rparr>"
  define c1 where "c1 = sent_on [init_packet sz c, ?s] (scanning (?c\<lparr>cDials := ds, cConn := cn\<rparr>))"
  have i: "init_packet sz ?c = init_packet sz c" by (simp add: init_packet_def Client_SetState_def)
  have "reconnect_loop (Client_GetState c) ?c = Some c1"
    using reconnects [of ?c k cn ds sz "Client_GetState c"] c dials dev by (simp add: i [unfolded Client_SetState_def] c1_def Client_SetState_def)
  then have r: "reconnectToServer c = Some c1" by (simp add: reconnectToServer_def Let_def Client_SetState_def)
  have t: "TermIn c1 = None" "conn_in (cConn c1) = Inr packet # rs"
    using c(1) dials(3) by (simp_all add: c1_def sent_on_def Client_SetState_def)
  have "ReceivePacket c = ReceivePacket c1"
    using c eof r by (subst ReceivePacket.simps) (simp add: Client_CheckTermination_def Client_Decode_def)
  also have "\<dots> = Some (Some packet, c1\<lparr>cConn := (cConn c1)\<lparr>conn_in := rs\<rparr>\<rparr>)"
    using t by (subst ReceivePacket.simps) (simp add: Client_CheckTermination_def Client_Decode_def)
  finally show ?thesis by (simp add: c1_def ring_reset Client_GetState_def sent_on_def scanning_def)
qed

definition demo_eof_client :: Client where
  "demo_eof_client = (demo_client demo_context)\<lparr>cConn := \<lparr>conn_out = [], conn_in = [], conn_end = ErrEOF,
     conn_faults = [], conn_broken = Some ErrBrokenPipe\<rparr>,
     cDials := [None, None, Some \<lparr>conn_out = [], conn_in = [Inr (CreateInfoPacket PacketTypeInfoStartHashing)],
       conn_end = ErrTimeout, conn_faults = [], conn_broken = None\<rparr>]\<rparr>"

theorem reconnect_rescans_witness:
  "\<exists>c'. ReceivePacket demo_eof_client = Some (Some (CreateInfoPacket PacketTypeInfoStartHashing), c') \<and>
     Client_GetState c' = ClientHashing \<and>
     conn_out (cConn c') = [init_packet 3 demo_eof_client, CreateInfoPacket PacketTypeCmdStartHashing]"
  using reconnect_rescans [of demo_eof_client 2 _ "[]" "CreateInfoPacket PacketTypeInfoStartHashing" "[]" 3]
  by (fastforce simp: demo_eof_client_def demo_client_def Client_GetState_def conn_ok_def GetDeviceSize_def demo_blank_def numeral_2_eq_2)

subsection \<open>The client's side of a scan\<close>

text \<open>During a scan the hash packets are taken from the connection, one in each iteration.\<close>

lemma listen_hashes:
  assumes "TermIn c = None" and "conn_in (cConn c) = map Inr ps @ rs" and "\<forall>p \<in> set ps. PacketTypeOf p = PacketTypePayloadHash"
    and "lk_hashing l" and "length rounds = length ps"
  shows "ListenPackets (rounds @ rest) l c = ListenPackets rest (l\<lparr>lk_queue := lk_queue l @ ps\<rparr>) (c\<lparr>cConn := (cConn c)\<lparr>conn_in := rs\<rparr>\<rparr>)"
  using assms
proof (induction ps arbitrary: rounds l c)
  case Nil
  then have "c\<lparr>cConn := (cConn c)\<lparr>conn_in := rs\<rparr>\<rparr> = c" by (cases c) auto
  moreover have "rounds = []" using Nil by simp
  ultimately show ?case by (simp only: append_Nil append_Nil2) simp
next
  case (Cons p ps)
  then obtain items elapsed rounds' where r: "rounds = (items, elapsed) # rounds'" "length rounds' = length ps" by (cases rounds) auto
  let ?c = "c\<lparr>cConn := (cConn c)\<lparr>conn_in := map Inr ps @ rs\<rparr>\<rparr>" and ?l = "l\<lparr>lk_queue := lk_queue l @ [p]\<rparr>"
  have "listen_step items elapsed l c = Some (Inr False, ?l, ?c)"
    using Cons.prems by (simp add: listen_next listen_packet_def)
  then show ?case using Cons.IH [of ?c ?l rounds'] Cons.prems r by simp
qed

text \<open>The comparisons of a scan on a working connection send the blocks that differ.\<close>

lemma scan_results_sends:
  assumes "conn_ok (cConn c)" and "list_all (\<lambda>it. \<exists>hi buf h. it = CompItem hi buf h) items"
  shows "scan_results items c = Some (sent_on (concat (map comp_packets items)) c)"
  using assms
proof (induction items arbitrary: c)
  case Nil
  then show ?case by simp
next
  case (Cons it items)
  then obtain hi buf h where it: "it = CompItem hi buf h" by auto
  have "scan_result it c = Some (sent_on (comp_packets it) c)"
    using Cons.prems(1) by (simp add: it SendCorrectBlock_def send_ok)
  then show ?case using Cons.IH [of "sent_on (comp_packets it) c"] Cons.prems by simp
qed

text \<open>The end of a scan.\<close>

lemma sent_on_in [simp]: "conn_in (cConn (sent_on ps c)) = conn_in (cConn c)"
  by (simp add: sent_on_def)

lemma pending_read: "\<not> overflown (rb_info rb) \<Longrightarrow> pending (snd (bdr_buffer_read_routine rb)) = []"
  by (simp add: bdr_buffer_read_routine_def Let_def pending_def slots_from_def)

lemma ProcessBuffer_ends:
  assumes up: "client_up c" and inv: "ring_inv (ring_buf (cKernel c))" and ok: "list_all segment_ok ws"
    and free: "\<not> overflown (rb_info (ring_buf (cKernel c))) \<Longrightarrow> list_all2 entry_of ws (pending (ring_buf (cKernel c)))"
    and over: "overflown (rb_info (ring_buf (cKernel c))) \<Longrightarrow> bi_length (rb_info (ring_buf (cKernel c))) \<noteq> 0"
  shows "\<exists>c'. ProcessBuffer c = Some (Inr (), c') \<and> conn_in (cConn c') = conn_in (cConn c) \<and> pending (ring_buf (cKernel c')) = [] \<and>
    (if overflown (rb_info (ring_buf (cKernel c)))
     then Client_GetState c' = ClientHashing \<and> cPause c' = Some Paused \<and> \<not> overflown (rb_info (ring_buf (cKernel c'))) \<and>
       conn_out (cConn c') = conn_out (cConn c) @ [CreateInfoPacket PacketTypeCmdStartHashing]
     else Client_GetState c' = ClientWriting \<and> cPause c' = Some Running \<and>
       (\<exists>wis. list_all2 decodes ws wis \<and> conn_out (cConn c') = conn_out (cConn c) @
          map write_packet wis @ [CreateInfoPacket PacketTypeInfoHashingCompleted]))"
proof (cases "overflown (rb_info (ring_buf (cKernel c)))")
  case True
  then have "SendBuffer c = Some (Inr False, c)" using over by (simp add: SendBuffer_reads [OF up] Let_def)
  then show ?thesis using up True
    by (simp add: ProcessBuffer_def StartHashing_ok client_up_def ring_reset sent_on_def Client_GetState_def scanning_def)
next
  case False
  obtain wis where w: "list_all2 decodes ws wis" "SendBuffer c = Some (Inr True, sent_on (map write_packet wis) (drained c))"
    using client_sends(1) [OF up inv False free [OF False] ok] by blast
  then show ?thesis using False up pending_read [OF False]
    by (auto simp: ProcessBuffer_def resume_monitor_def Resume_def send_state_def drainChannel_def Client_SetState_def client_up_def
        send_ok Client_GetState_def intro: exI [of _ wis])
qed

text \<open>
  C3: The client's side of a scan.  The listener takes the announcement of the scan, any
  number of hash packets and the completion from its connection; the comparisons give
  \<open>items\<close>.  Then the blocks that differ have been sent.  If the buffer did not overflow, they
  are followed by the writes \<open>ws\<close> that the kernel module captured meanwhile, in order and
  decoded faithfully, and by the completion; the monitor runs again and the buffer has
  handed everything over.  If it did, the buffer is empty again, the monitor stays paused and
  another scan has been requested.  Either way the listener is ready for the next packet.
\<close>

theorem client_scan:
  assumes up: "client_up c" and inv: "ring_inv (ring_buf (cKernel c))"
    and arrive: "conn_in (cConn c) = Inr (CreateInfoPacket PacketTypeInfoStartHashing) # map Inr hs @
      Inr (CreateInfoPacket PacketTypeInfoHashingCompleted) # rs"
    and hs: "\<forall>p \<in> set hs. PacketTypeOf p = PacketTypePayloadHash"
    and idle: "\<not> lk_hashing l" and rounds: "length rounds = length hs"
    and items: "list_all (\<lambda>it. \<exists>hi buf h. it = CompItem hi buf h) items"
    and pend: "overflown (rb_info (ring_buf (cKernel c))) \<or> list_all2 entry_of ws (pending (ring_buf (cKernel c)))"
      "overflown (rb_info (ring_buf (cKernel c))) \<longrightarrow> bi_length (rb_info (ring_buf (cKernel c))) \<noteq> 0" "list_all segment_ok ws"
  shows "\<exists>c'. ListenPackets ((items0, elapsed0) # rounds @ [(items, elapsed)]) l c = Some (Inr False, new_listener False, c') \<and>
    conn_in (cConn c') = rs \<and> pending (ring_buf (cKernel c')) = [] \<and>
    (if overflown (rb_info (ring_buf (cKernel c)))
     then Client_GetState c' = ClientHashing \<and> cPause c' = Some Paused \<and> \<not> overflown (rb_info (ring_buf (cKernel c'))) \<and>
       conn_out (cConn c') = conn_out (cConn c) @ concat (map comp_packets items) @ [CreateInfoPacket PacketTypeCmdStartHashing]
     else Client_GetState c' = ClientWriting \<and> cPause c' = Some Running \<and>
       (\<exists>wis. list_all2 decodes ws wis \<and> conn_out (cConn c') = conn_out (cConn c) @ concat (map comp_packets items) @
          map write_packet wis @ [CreateInfoPacket PacketTypeInfoHashingCompleted]))"
proof -
  let ?C = "CreateInfoPacket PacketTypeInfoHashingCompleted"
  let ?in = "\<lambda>ps. c\<lparr>cConn := (cConn c)\<lparr>conn_in := ps\<rparr>\<rparr>" and ?B = "concat (map comp_packets items)"
  define c3 where "c3 = sent_on ?B (?in rs)"
  define c4 where "c4 = c3\<lparr>cStats := RecordHashing elapsed (hashed_bytes items) (cStats c3)\<rparr>"
  have t: "TermIn c = None" "conn_ok (cConn c)" using up by (simp_all add: client_up_def)
  have c4: "client_up c4" "cKernel c4 = cKernel c" "conn_in (cConn c4) = rs" "conn_out (cConn c4) = conn_out (cConn c) @ ?B"
    using up by (simp_all add: c4_def c3_def client_up_def conn_ok_def client_of_ring_def sent_on_def)
  have "listen_step items0 elapsed0 l c = Some (Inr False, new_listener True, ?in (map Inr hs @ Inr ?C # rs))"
    using listen_next [OF t(1) arrive] idle by (simp add: listen_packet_def wait_hashing_def CreateInfoPacket_def)
  then have "ListenPackets ((items0, elapsed0) # rounds @ [(items, elapsed)]) l c
      = ListenPackets [(items, elapsed)] (new_listener True\<lparr>lk_queue := hs\<rparr>) (?in (Inr ?C # rs))"
    using listen_hashes [of "?in (map Inr hs @ Inr ?C # rs)" hs "Inr ?C # rs" "new_listener True" rounds "[(items, elapsed)]"]
      t hs rounds by (simp add: new_listener_def)
  also have "\<dots> = Option.bind (ProcessBuffer c4) (\<lambda>(r, c2). if r = Inr () then Some (Inr False, new_listener False, c2)
       else Some (map_sum id (\<lambda>u. False) r, new_listener False, c2))"
  proof -
    have "InitHashing items elapsed (?in rs) = Some c4"
      using scan_results_sends [OF _ items, of "?in rs"] t(2) by (simp add: InitHashing_def c4_def c3_def conn_ok_def)
    then show ?thesis using t(1)
      by (auto simp: listen_next listen_packet_def CreateInfoPacket_def wait_hashing_def new_listener_def split: Option.bind_split sum.splits)
  qed
  finally show ?thesis using ProcessBuffer_ends [OF c4(1) _ pend(3)] inv pend(1,2) by (fastforce simp: c4(2-))
qed

definition demo_scan_client :: Client where
  "demo_scan_client = (demo_client demo_context)\<lparr>cConn := \<lparr>conn_out = [],
     conn_in = [Inr (CreateInfoPacket PacketTypeInfoStartHashing),
       Inr \<lparr>PacketTypeOf = PacketTypePayloadHash, PayloadOf = PHash \<lparr>hiOffset = 0, hiSize = 3, hiHash = 5\<rparr>\<rparr>,
       Inr (CreateInfoPacket PacketTypeInfoHashingCompleted)],
     conn_end = ErrTimeout, conn_faults = [], conn_broken = None\<rparr>\<rparr>"

theorem client_scan_witness:
  "\<exists>c'. ListenPackets [([], 0), ([], 0), ([CompItem \<lparr>hiOffset = 0, hiSize = 3, hiHash = 5\<rparr> [4, 5, 6] 7], 1)]
       (new_listener False) demo_scan_client = Some (Inr False, new_listener False, c') \<and>
     Client_GetState c' = ClientWriting \<and>
     conn_out (cConn c') = [correct_block_packet [4, 5, 6] 0 3, CreateInfoPacket PacketTypeInfoHashingCompleted]"
proof -
  have up: "client_up demo_scan_client" using demo_client_up by (simp add: client_up_def demo_scan_client_def conn_ok_def client_of_ring_def)
  have rb: "ring_buf (cKernel demo_scan_client) = demo_ring" by (simp add: demo_scan_client_def demo_client_def demo_context_def)
  have cn: "conn_out (cConn demo_scan_client) = []" "conn_in (cConn demo_scan_client) = [Inr (CreateInfoPacket PacketTypeInfoStartHashing),
      Inr \<lparr>PacketTypeOf = PacketTypePayloadHash, PayloadOf = PHash \<lparr>hiOffset = 0, hiSize = 3, hiHash = 5\<rparr>\<rparr>,
      Inr (CreateInfoPacket PacketTypeInfoHashingCompleted)]" and idle: "\<not> lk_hashing (new_listener False)"
    by (simp_all add: demo_scan_client_def new_listener_def)
  let ?h = "\<lparr>PacketTypeOf = PacketTypePayloadHash, PayloadOf = PHash \<lparr>hiOffset = 0, hiSize = 3, hiHash = 5\<rparr>\<rparr>"
  show ?thesis
    using client_scan [OF up, where hs = "[?h]" and rs = "[]" and l = "new_listener False" and rounds = "[([], 0)]" and ws = "[]"
        and items = "[CompItem \<lparr>hiOffset = 0, hiSize = 3, hiHash = 5\<rparr> [4, 5, 6] 7]" and ?items0.0 = "[]" and ?elapsed0.0 = 0
        and elapsed = 1] demo_ring_facts
    by (auto simp: rb cn idle simp del: ListenPackets.simps)
qed

end
