(* ===== verification/Scan_Converges.thy ===== *)
theory Scan_Converges
  imports Server_Handlers
begin

text \<open>
  A whole scan.  The server resets the journal and hashes the replica, the client compares
  the hashes with its device, which is in use, and sends the blocks that differ together
  with the writes it captured meanwhile, the server logs both in the journal and then
  applies it.  The parts are those of the theories \<open>Scan_Correct\<close>, \<open>Server\<close> and
  \<open>Server_Handlers\<close>; here they are put together.
\<close>

subsection \<open>Logging a scan\<close>

definition block_packet :: "CorrectBlockInfo \<Rightarrow> Packet" where
  "block_packet c = \<lparr>PacketTypeOf = PacketTypePayloadCorrectBlock, PayloadOf = PCorrect c\<rparr>"

definition packet_writes :: "Packet list \<Rightarrow> WriteInfo list" where
  "packet_writes ps = concat (map (\<lambda>p. case PayloadOf p of PWrite w \<Rightarrow> [w] | _ \<Rightarrow> []) ps)"

definition packet_blocks :: "Packet list \<Rightarrow> CorrectBlockInfo list" where
  "packet_blocks ps = concat (map (\<lambda>p. case PayloadOf p of PCorrect c \<Rightarrow> [c] | _ \<Rightarrow> []) ps)"

text \<open>The packets that a journal with the header \<open>h\<close> can take.\<close>

definition loggable :: "Header \<Rightarrow> Packet \<Rightarrow> bool" where
  "loggable h p \<longleftrightarrow> (\<exists>w. p = write_packet w \<and> write_fits h w \<and> WriteInfo_IsValid w) \<or>
     (\<exists>c. p = block_packet c \<and> block_fits h c \<and> CorrectBlockInfo_IsValid c)"

lemma packet_lists [simp]:
  "packet_writes [] = []" "packet_blocks [] = []"
  "packet_writes (write_packet w # ps) = w # packet_writes ps" "packet_blocks (write_packet w # ps) = packet_blocks ps"
  "packet_writes (block_packet c # ps) = packet_writes ps" "packet_blocks (block_packet c # ps) = c # packet_blocks ps"
  by (simp_all add: packet_writes_def packet_blocks_def write_packet_def block_packet_def)

text \<open>A server whose journal holds the entries \<open>ws\<close> and \<open>cs\<close>.\<close>

definition logged :: "Server \<Rightarrow> Header \<Rightarrow> WriteInfo list \<Rightarrow> CorrectBlockInfo list \<Rightarrow> bool" where
  "logged s h ws cs \<longleftrightarrow> (\<exists>j. SrvJournal s = Some j \<and> header j = h \<and> journal_inv j (JournalDev s) \<and>
     journal_writes j (JournalDev s) = map (Inr \<circ> stored_write) ws \<and>
     journal_blocks j (JournalDev s) = map (Inr \<circ> stored_block) cs)"

lemma logged_lengths:
  assumes "SrvJournal s = Some j" and "journal_writes j (JournalDev s) = map (Inr \<circ> stored_write) ws"
    and "journal_blocks j (JournalDev s) = map (Inr \<circ> stored_block) cs"
  shows "unat (WriteOffset j) = length ws" and "unat (CorrectOffset j) = length cs"
  using arg_cong [OF assms(2), of length] arg_cong [OF assms(3), of length]
  by (simp_all add: journal_writes_def journal_blocks_def)

lemma HandleJournalPacket_logs:
  assumes lg: "logged s h ws cs" and run: "GetState s \<noteq> StateJournalOverflow" and p: "loggable h p"
    and room: "length (ws @ packet_writes [p]) \<le> unat (bufWritesCount h)" "length (cs @ packet_blocks [p]) \<le> unat (corrBlocksCount h)"
  obtains s' where "HandleJournalPacket p s = (Inr (), s')" and "logged s' h (ws @ packet_writes [p]) (cs @ packet_blocks [p])"
    and "TargetDevFd s' = TargetDevFd s" and "sstate s' = sstate s" and "sent s' = sent s"
proof -
  from lg obtain j where j: "SrvJournal s = Some j" "header j = h" "journal_inv j (JournalDev s)"
      "journal_writes j (JournalDev s) = map (Inr \<circ> stored_write) ws"
      "journal_blocks j (JournalDev s) = map (Inr \<circ> stored_block) cs" by (auto simp: logged_def)
  note len = logged_lengths [OF j(1,4,5)]
  from p consider (w) w where "p = write_packet w" "write_fits h w" "WriteInfo_IsValid w"
    | (c) c where "p = block_packet c" "block_fits h c" "CorrectBlockInfo_IsValid c" by (auto simp: loggable_def)
  then show ?thesis
  proof cases
    case w
    have "WriteOffset j < bufWritesCount (header j)" using room(1) len(1) w(1) j(2) by (simp add: word_less_nat_alt)
    note app = journal_append_write [OF j(3) this, of w "fst (WriteBufferWrite j (WriteOffset j) w (JournalDev s))"
        "snd (WriteBufferWrite j (WriteOffset j) w (JournalDev s))"]
    obtain r d' where wr: "WriteBufferWrite j (WriteOffset j) w (JournalDev s) = (r, d')" by fastforce
    show ?thesis
      by (rule that [of "s\<lparr>JournalDev := d', SrvJournal := Some (j\<lparr>WriteOffset := WriteOffset j + 1\<rparr>)\<rparr>"])
        (use app w run j wr in \<open>auto simp: HandleJournalPacket_def HandleJournalBufferWrite_def write_packet_def
          WriteBufferWriteToJournal_def journal_overflow_def logged_def packet_writes_def packet_blocks_def\<close>)
  next
    case c
    have "CorrectOffset j < corrBlocksCount (header j)" using room(2) len(2) c(1) j(2) by (simp add: word_less_nat_alt)
    note app = journal_append_block [OF j(3) this, of c "fst (WriteCorrectBlock j (CorrectOffset j) c (JournalDev s))"
        "snd (WriteCorrectBlock j (CorrectOffset j) c (JournalDev s))"]
    obtain r d' where wr: "WriteCorrectBlock j (CorrectOffset j) c (JournalDev s) = (r, d')" by fastforce
    show ?thesis
      by (rule that [of "s\<lparr>JournalDev := d', SrvJournal := Some (j\<lparr>CorrectOffset := CorrectOffset j + 1\<rparr>)\<rparr>"])
        (use app c run j wr in \<open>auto simp: HandleJournalPacket_def HandleJournalCorrectBlock_def block_packet_def
          WriteCorrectBlockToJournal_def journal_overflow_def logged_def packet_writes_def packet_blocks_def\<close>)
  qed
qed

lemma packet_lists_Cons:
  "packet_writes (p # ps) = packet_writes [p] @ packet_writes ps" "packet_blocks (p # ps) = packet_blocks [p] @ packet_blocks ps"
  by (simp_all add: packet_writes_def packet_blocks_def)

lemma HandleJournalPackets_logs:
  assumes "logged s h ws cs" and "GetState s \<noteq> StateJournalOverflow" and "\<forall>p \<in> set ps. loggable h p"
    and "length (ws @ packet_writes ps) \<le> unat (bufWritesCount h)" "length (cs @ packet_blocks ps) \<le> unat (corrBlocksCount h)"
  shows "\<exists>s'. HandleJournalPackets ps s = (Inr (), s') \<and> logged s' h (ws @ packet_writes ps) (cs @ packet_blocks ps) \<and>
    TargetDevFd s' = TargetDevFd s \<and> sstate s' = sstate s \<and> sent s' = sent s"
  using assms
proof (induction ps arbitrary: s ws cs)
  case Nil
  then show ?case by simp
next
  case (Cons p ps)
  note sp = packet_lists_Cons [of p ps]
  obtain s1 where s1: "HandleJournalPacket p s = (Inr (), s1)" "logged s1 h (ws @ packet_writes [p]) (cs @ packet_blocks [p])"
      "TargetDevFd s1 = TargetDevFd s" "sstate s1 = sstate s" "sent s1 = sent s"
    using HandleJournalPacket_logs [OF Cons.prems(1,2), of p] Cons.prems(3-5) by (auto simp: sp)
  have "GetState s1 \<noteq> StateJournalOverflow" using Cons.prems(2) s1(4) by (simp add: GetState_def)
  from Cons.IH [OF s1(2) this] Cons.prems(3-5) show ?case using s1 by (auto simp: sp)
qed

subsection \<open>Applying the journal\<close>

lemma journal_ops_entries:
  "journal_ops j (dev_bytes d) =
     map (block_op \<circ> projr) (journal_blocks j d) @ map (write_op \<circ> projr) (journal_writes j d)"
  by (simp add: journal_ops_def journal_blocks_def journal_writes_def log_entries_def block_op_at_def write_op_at_def)

lemma write_op_stored [simp]: "write_op (stored_write w) = write_op w"
  by (simp add: write_op_def stored_write_def min_def)

text \<open>A disk write within a device of \<open>L\<close> bytes.\<close>

definition op_on :: "nat \<Rightarrow> disk_write \<Rightarrow> bool" where
  "op_on L op \<longleftrightarrow> fst op + length (snd op) \<le> L"

lemma WriteJournalToReplica_healthy:
  assumes j: "SrvJournal s = Some j" and inv: "journal_inv j (JournalDev s)" and td: "healthy (TargetDevFd s)"
    and len: "length (dev_bytes (TargetDevFd s)) < 2 ^ 63"
    and fits: "\<forall>op \<in> set (journal_ops j (dev_bytes (JournalDev s))). op_on (length (dev_bytes (TargetDevFd s))) op"
  obtains s' where "WriteJournalToReplica s = (Inr (), s')"
    and "dev_bytes (TargetDevFd s') = replay (journal_ops j (dev_bytes (JournalDev s))) (dev_bytes (TargetDevFd s))"
    and "sent s' = sent s" and "sstate s' = sstate s"
    and "\<exists>j'. SrvJournal s' = Some j' \<and> journal_inv j' (JournalDev s') \<and> header j' = setInvalidFlag (setValidFlag (header j))"
proof -
  let ?j = "j\<lparr>header := setValidFlag (header j)\<rparr>" and ?td = "TargetDevFd s"
  let ?jd = "put_bytes 0 (header_bytes (setValidFlag (header j))) (JournalDev s)"
  have v: "Validate j (JournalDev s) = (Inr (), ?j, ?jd)" using inv by (intro Validate_healthy) (simp add: journal_inv_def)
  have jv: "journal_inv ?j ?jd"
    and ops: "journal_ops ?j (dev_bytes ?jd) = journal_ops j (dev_bytes (JournalDev s))"
    using journal_inv_set_flag [OF inv, of "setValidFlag (header j)"] by simp_all
  let ?h = "header ?j" and ?b = "dev_bytes ?jd"
  have h: "healthy ?jd" using jv by (simp add: journal_inv_def journal_ready_def)
  have on: "k < unat (CorrectOffset ?j) \<Longrightarrow> fst (block_op_at ?h ?b k) + length (snd (block_op_at ?h ?b k)) \<le> length (dev_bytes ?td)"
    "k < unat (WriteOffset ?j) \<Longrightarrow> fst (write_op_at ?h ?b k) + length (snd (write_op_at ?h ?b k)) \<le> length (dev_bytes ?td)" for k
    using fits [folded ops] by (simp_all add: journal_ops_def op_on_def ball_Un)
  let ?td1 = "?td\<lparr>dev_bytes := replay (map (block_op_at ?h ?b) [0..<unat (CorrectOffset ?j)]) (dev_bytes ?td)\<rparr>"
  have l1: "for_slots (apply_block ?j) (unat (CorrectOffset ?j)) 0 ?jd ?td = (Inr (), ?jd, ?td1)"
    using apb.loop_fits [OF inv_slots_ok(1) [OF jv], of 0] h td len on(1) by simp
  have h1: "healthy ?td1" using td by (simp add: healthy_def)
  let ?td2 = "?td1\<lparr>dev_bytes := replay (map (write_op_at ?h ?b) [0..<unat (WriteOffset ?j)]) (dev_bytes ?td1)\<rparr>"
  have l2: "for_slots (apply_write ?j) (unat (WriteOffset ?j)) 0 ?jd ?td1 = (Inr (), ?jd, ?td2)"
    using apw.loop_fits [OF inv_slots_ok(2) [OF jv], of 0 _ ?td1] h h1 len on(2) by simp
  have i: "Invalidate ?j ?jd = (Inr (), ?j\<lparr>header := setInvalidFlag ?h\<rparr>, put_bytes 0 (header_bytes (setInvalidFlag ?h)) ?jd)"
    using jv by (intro Invalidate_healthy) (simp add: journal_inv_def)
  have e: "replay (journal_ops j (dev_bytes (JournalDev s))) (dev_bytes ?td) = dev_bytes ?td2"
    unfolding ops [symmetric] by (simp add: journal_ops_def replay_append)
  have w: "WriteJournalToReplica s = (Inr (), s\<lparr>SrvJournal := Some (?j\<lparr>header := setInvalidFlag ?h\<rparr>),
      JournalDev := put_bytes 0 (header_bytes (setInvalidFlag ?h)) ?jd, TargetDevFd := ?td2\<rparr>)"
    unfolding WriteJournalToReplica_def j option.case v prod.case Let_def l1 sum.case Sync_ok [OF h1] snd_conv l2 i ..
  show ?thesis
  proof (rule that [OF w])
    show "dev_bytes (TargetDevFd (s\<lparr>SrvJournal := Some (?j\<lparr>header := setInvalidFlag ?h\<rparr>),
      JournalDev := put_bytes 0 (header_bytes (setInvalidFlag ?h)) ?jd, TargetDevFd := ?td2\<rparr>)) =
      replay (journal_ops j (dev_bytes (JournalDev s))) (dev_bytes ?td)"
      by (rule trans [OF _ e [symmetric]]) simp
  qed (use journal_inv_set_flag(1) [OF jv, of "setInvalidFlag ?h"] in simp_all)
qed

subsection \<open>Hashing\<close>

text \<open>A server whose journal can be reset: as \<^verbatim>\<open>CreateJournal\<close> leaves it, or as a scan does.\<close>

definition scan_ready :: "Server \<Rightarrow> Header \<Rightarrow> bool" where
  "scan_ready s h \<longleftrightarrow> (\<exists>j. SrvJournal s = Some j \<and> header j = h \<and> journal_ready j (JournalDev s) \<and>
     dev_present (JournalDev s) \<and> dev_block (JournalDev s) \<and> magic h = BdrMagic \<and>
     diskSize j = of_nat (length (dev_bytes (JournalDev s))) \<and>
     WriteOffset j \<le> bufWritesCount h \<and> CorrectOffset j \<le> corrBlocksCount h \<and>
     free_after h (dev_bytes (JournalDev s)) (unat (WriteOffset j)) (unat (CorrectOffset j)))"

lemma HashDisk_start_resets:
  assumes "scan_ready s h" and "GetState s = StateHashing" and "sendFaults s = []"
  obtains s1 h1 where "HashDisk_start s = (Inr True, s1)" and "logged s1 h1 [] []" and "h1 = setInvalidFlag h"
    and "TargetDevFd s1 = TargetDevFd s" and "sent s1 = sent s @ [CreateInfoPacket PacketTypeInfoStartHashing]"
    and "GetState s1 = StateHashing" and "sendFaults s1 = []"
proof -
  from assms(1) obtain j where j: "SrvJournal s = Some j" "header j = h" "journal_ready j (JournalDev s)"
    "dev_present (JournalDev s)" "dev_block (JournalDev s)" "magic (header j) = BdrMagic"
    "diskSize j = of_nat (length (dev_bytes (JournalDev s)))"
    "WriteOffset j \<le> bufWritesCount (header j)" "CorrectOffset j \<le> corrBlocksCount (header j)"
    "free_after (header j) (dev_bytes (JournalDev s)) (unat (WriteOffset j)) (unat (CorrectOffset j))"
    by (auto simp: scan_ready_def)
  obtain b' where r: "ResetTo j (WriteOffset j) (CorrectOffset j) (JournalDev s) =
      (Inr (), j\<lparr>header := setInvalidFlag (header j), WriteOffset := 0, CorrectOffset := 0\<rparr>, (JournalDev s)\<lparr>dev_bytes := b'\<rparr>)"
    using ResetTo_healthy [OF j(3,8,9)] by blast
  note e = ResetTo_establishes [OF j(3-10) r]
  let ?s = "s\<lparr>SrvJournal := Some (j\<lparr>header := setInvalidFlag (header j), WriteOffset := 0, CorrectOffset := 0\<rparr>),
    JournalDev := (JournalDev s)\<lparr>dev_bytes := b'\<rparr>, sent := sent s @ [CreateInfoPacket PacketTypeInfoStartHashing]\<rparr>"
  have "HashDisk_start s = (Inr True, ?s)" using assms(2,3) j(1) r
    by (simp add: HashDisk_start_def SendPacket_def)
  then show ?thesis using that [of ?s "setInvalidFlag h"] e assms(2,3) j(2)
    by (simp add: logged_def journal_writes_def journal_blocks_def log_entries_def GetState_def)
qed

lemma send_result_packets:
  assumes "sendFaults s = []"
  obtains t' where "send_result r (t, s) = (True, t', s\<lparr>sent := sent s @ result_packets r\<rparr>)"
proof (cases r)
  case (ResultItem offset sz h err)
  then show ?thesis using assms that
    by (cases err) (simp_all add: Encode_def send_info_def SendPacket_def Let_def)
qed (use that in simp_all)

lemma send_results_packets:
  assumes "sendFaults s = []" and "0 < n"
  shows "\<exists>t'. send_results n (map (Pair False) rs) (t, s) = (t', s\<lparr>sent := sent s @ concat (map result_packets rs)\<rparr>)"
  using assms
proof (induction rs arbitrary: t s)
  case Nil
  then show ?case by (cases n) auto
next
  case (Cons r rs)
  let ?s = "s\<lparr>sent := sent s @ result_packets r\<rparr>"
  obtain m where m: "n = Suc m" using Cons.prems(2) by (cases n) auto
  obtain t1 where t1: "send_result r (t, s) = (True, t1, ?s)" using send_result_packets [OF Cons.prems(1)] by blast
  obtain t2 where t2: "send_results n (map (Pair False) rs) (t1, ?s) = (t2, ?s\<lparr>sent := sent ?s @ concat (map result_packets rs)\<rparr>)"
    using Cons.IH [of ?s t1] Cons.prems by auto
  have "send_results n (map (Pair False) (r # rs)) (t, s) = send_results n (map (Pair False) rs) (t1, ?s)"
    by (simp add: m t1)
  then show ?case unfolding t2 by simp
qed

lemma HashDisk_sends:
  assumes "HashDisk_start s = (Inr True, s1)" and "sendFaults s1 = []" and "0 < n"
  shows "\<exists>st. HashDisk n (map (Pair False) rs) elapsed s = (Inr (), s1\<lparr>SrvStats := st,
    sent := sent s1 @ concat (map result_packets rs) @ [CreateInfoPacket PacketTypeInfoHashingCompleted]\<rparr>)"
  using send_results_packets [OF assms(2,3), of rs 0] assms(1,2)
  by (auto simp: HashDisk_def HashDisk_end_def send_info_def SendPacket_def)

subsection \<open>The packets of a scan\<close>

text \<open>The slots \<^verbatim>\<open>CreateJournal\<close> gives a journal, and a captured write on a device of \<open>L\<close> bytes.\<close>

definition journal_slots :: "Header \<Rightarrow> bool" where
  "journal_slots h \<longleftrightarrow> bufWriteByteSize h = WriteInfoSize \<and> corrBlockByteSize h = CorrectBlockByteSize"

definition captured :: "nat \<Rightarrow> WriteInfo \<Rightarrow> bool" where
  "captured L w \<longleftrightarrow> 0 < unat (wiSize w) \<and> unat (wiSize w) \<le> 4096 \<and> unat (wiSize w) \<le> length (wiData w) \<and>
     length (wiData w) < 2 ^ 32 \<and> unat (wiOffset w) + unat (wiSize w) \<le> L"

lemma captured_logs:
  assumes "journal_slots h" and "captured L w"
  shows "loggable h (write_packet w)" and "op_on L (write_op w)"
proof -
  have "wiSize w \<noteq> 0" using assms(2) by (auto simp: captured_def)
  then show "loggable h (write_packet w)" using assms
    by (auto simp: loggable_def write_fits_def entry_fits_def journal_slots_def captured_def WriteInfo_IsValid_def
        WriteInfoSize_def word_gt_0)
  show "op_on L (write_op w)" using assms(2) by (auto simp: op_on_def write_op_def captured_def min_def)
qed

definition scan_block :: "nat \<Rightarrow> bytes \<Rightarrow> nat \<Rightarrow> bytes \<Rightarrow> CorrectBlockInfo" where
  "scan_block R T k b = \<lparr>cbOffset = blk_off R k, cbSize = of_nat (length (blk R k T)), cbData = blk R k b\<rparr>"

lemma comp_packets_item:
  "comp_packets (scan_item hash R T k b) = (if hash (blk R k b) \<noteq> hash (blk R k T) then [block_packet (scan_block R T k b)] else [])"
  by (simp add: scan_item_def block_hash_def scan_block_def block_packet_def correct_block_packet_def)

lemma scan_block_logs:
  assumes sz: "pass_sizes HashedSpaceBase (length T)" and k: "k < block_count (unat HashedSpaceBase) (length T)"
    and len: "length b = length T" and "journal_slots h" and c: "c = scan_block (unat HashedSpaceBase) T k b"
  shows "loggable h (block_packet c)" and "block_op (stored_block c) = block_op c" and "op_on (length T) (block_op c)"
proof -
  let ?R = "unat HashedSpaceBase"
  have R: "?R = 262144" "unat CorrectBlockByteSize = 262156" by (simp_all add: HashedSpaceBase_def CorrectBlockByteSize_def)
  note i = pass_sizes_index [OF sz k]
  have d: "length (blk ?R k T) = min ?R (length T - k * ?R)" "length (blk ?R k b) = min ?R (length T - k * ?R)"
    using len by (simp_all add: length_blk)
  have s: "unat (cbSize c) = length (cbData c)" "0 < unat (cbSize c)" "length (cbData c) \<le> 262144"
    "unat (cbOffset c) = k * ?R" using i(1,2) i(3) [of T] d R(1) by (simp_all add: c scan_block_def)
  then have "cbSize c \<noteq> 0" by auto
  then show "loggable h (block_packet c)" using s(1,3) assms(4)
    by (auto simp: loggable_def block_fits_def entry_fits_def journal_slots_def CorrectBlockInfo_IsValid_def R word_gt_0)
  show "block_op (stored_block c) = block_op c" using s(1) by (simp add: block_op_def stored_block_def)
  show "op_on (length T) (block_op c)" using s(4) i(1) d(2) by (simp add: op_on_def block_op_def c scan_block_def)
qed

lemma packet_lists_append [simp]:
  "packet_writes (ps @ qs) = packet_writes ps @ packet_writes qs"
  "packet_blocks (ps @ qs) = packet_blocks ps @ packet_blocks qs"
  by (simp_all add: packet_writes_def packet_blocks_def)

lemma packet_lists_map [simp]:
  "packet_writes (map write_packet ws) = ws" "packet_blocks (map write_packet ws) = []"
  by (induction ws) simp_all

lemma comp_packets_lists:
  "packet_writes (concat (map comp_packets items)) = []"
  "map block_op (packet_blocks (concat (map comp_packets items))) = scan_ops items"
proof -
  have "packet_writes (comp_packets i) = []" "map block_op (packet_blocks (comp_packets i)) = concat (map packet_block (comp_packets i))" for i
    by (cases i; simp add: correct_block_packet_def packet_writes_def packet_blocks_def)+
  then show "packet_writes (concat (map comp_packets items)) = []"
    "map block_op (packet_blocks (concat (map comp_packets items))) = scan_ops items"
    by (induction items) (simp_all add: scan_ops_def)
qed

lemma packet_writes_none: "packet_writes (p # ps) = [] \<longleftrightarrow> packet_writes [p] = [] \<and> packet_writes ps = []"
  by (simp add: packet_writes_def)

lemma packet_blocks_none: "packet_blocks (p # ps) = [] \<longleftrightarrow> packet_blocks [p] = [] \<and> packet_blocks ps = []"
  by (simp add: packet_blocks_def)

lemma packet_writes_shuffle:
  assumes "jp \<in> shuffles ps qs" and "packet_writes ps = []"
  shows "packet_writes jp = packet_writes qs"
  using assms
proof (induction ps qs arbitrary: jp rule: shuffles.induct)
  case (3 p ps q qs)
  from "3.prems"(1) consider (l) r where "jp = p # r" "r \<in> shuffles ps (q # qs)" | (r) r where "jp = q # r" "r \<in> shuffles (p # ps) qs"
    by auto
  then show ?case
  proof cases
    case l
    have "packet_writes [p] = []" "packet_writes ps = []" using "3.prems"(2) packet_writes_none by blast+
    then show ?thesis using "3.IH"(1) [OF l(2)] packet_lists_Cons(1) [of p r] l(1) by simp
  next
    case r
    then show ?thesis using "3.IH"(2) [OF r(2) "3.prems"(2)] packet_lists_Cons(1) [of q r] packet_lists_Cons(1) [of q qs] by metis
  qed
qed simp_all

lemma packet_blocks_shuffle:
  assumes "jp \<in> shuffles ps qs" and "packet_blocks qs = []"
  shows "packet_blocks jp = packet_blocks ps"
  using assms
proof (induction ps qs arbitrary: jp rule: shuffles.induct)
  case (3 p ps q qs)
  from "3.prems"(1) consider (l) r where "jp = p # r" "r \<in> shuffles ps (q # qs)" | (r) r where "jp = q # r" "r \<in> shuffles (p # ps) qs"
    by auto
  then show ?case
  proof cases
    case l
    then show ?thesis using "3.IH"(1) [OF l(2) "3.prems"(2)] packet_lists_Cons(2) [of p r] packet_lists_Cons(2) [of p ps] by metis
  next
    case r
    have "packet_blocks [q] = []" "packet_blocks qs = []" using "3.prems"(2) packet_blocks_none by blast+
    then show ?thesis using "3.IH"(2) [OF r(2)] packet_lists_Cons(2) [of q r] r(1) by simp
  qed
qed simp_all

lemma journal_inv_scan_ready:
  assumes "SrvJournal s = Some j" and "journal_inv j (JournalDev s)"
  shows "scan_ready s (header j)"
  using assms by (auto simp: scan_ready_def journal_inv_def log_shape_def free_after_def word_le_nat_alt)

lemma CreateJournal_scan_ready:
  assumes jd: "block_device (JournalDev s)" and ci: "ClientInfo s = Some ci" and run: "CreateJournal s = (Inr (), s1)"
  shows "\<exists>h. scan_ready s1 h \<and> journal_slots h \<and> bufWritesCount h = iiBufferByteSize ci div WriteInfoSize \<and>
    corrBlocksCount h = (of_nat (length (dev_bytes (JournalDev s))) - 64 - iiBufferByteSize ci) div CorrectBlockByteSize"
proof -
  obtain j j1 where j: "NewJournal (JournalDev s) (iiBufferByteSize ci) WriteInfoSize CorrectBlockByteSize = Inr j"
    "j1 = j\<lparr>header := setInvalidFlag (header j)\<rparr>"
    "s1 = s\<lparr>JournalDev := put_bytes 0 (header_bytes (header j1)) (JournalDev s), SrvJournal := Some j1\<rparr>"
    using CreateJournal_outcome [OF jd ci] run by (auto split: if_splits)
  have slots: "12 \<le> WriteInfoSize" "12 \<le> CorrectBlockByteSize"
    by (simp_all add: WriteInfoSize_def CorrectBlockByteSize_def HashedSpaceBase_def)
  note d = jd [unfolded block_device_def]
  have lay: "layout_ok (header j) (length (dev_bytes (JournalDev s)))" "magic (header j) = BdrMagic"
    "diskSize j = of_nat (length (dev_bytes (JournalDev s)))" "WriteOffset j = bufWritesCount (header j)"
    "CorrectOffset j = corrBlocksCount (header j)"
    using NewJournal_layout [OF j(1) _ _ slots] d by blast+
  have sl: "journal_slots (header j)" "bufWritesCount (header j) = iiBufferByteSize ci div WriteInfoSize"
    "corrBlocksCount (header j) = (of_nat (length (dev_bytes (JournalDev s))) - 64 - iiBufferByteSize ci) div CorrectBlockByteSize"
    using j(1) d by (auto simp: NewJournal_def GetDeviceSize_def GetHeaderByteSize_def journal_slots_def Let_def split: sum.splits if_splits)
  have "scan_ready s1 (header j1)" using lay d
    by (simp add: scan_ready_def j(2,3) journal_ready_def free_after_def flag_defs)
  moreover have "journal_slots (header j1)" using sl(1) by (simp add: j(2) journal_slots_def flag_defs)
  ultimately show ?thesis using sl(2,3) by (auto simp: j(2))
qed

subsection \<open>A whole scan\<close>

text \<open>The hash packets among those the server has sent since it had sent the list \<open>before\<close>.\<close>

definition hash_packets_since :: "Packet list \<Rightarrow> Server \<Rightarrow> Packet list" where
  "hash_packets_since before s =
     filter (\<lambda>p. PacketTypeOf p = PacketTypePayloadHash) (drop (length before) (sent s))"

lemma scan_hashes:
  assumes sz: "pass_sizes HashedSpaceBase (length (dev_bytes td))" and td: "healthy td" and w: "0 < w"
    and offs: "block_offsets HashedSpaceBase (of_nat (length (dev_bytes td))) 0 = Some offs"
    and run: "pipe_runs 3 cap (hash_work_ok hash HashedSpaceBase td) w (map ReadTask offs) q"
    and snt: "sent s1 = sent s @ [CreateInfoPacket t] @ concat (map result_packets (out q)) @ [CreateInfoPacket t']"
    and t: "t \<noteq> PacketTypePayloadHash" "t' \<noteq> PacketTypePayloadHash"
  shows "mset (hash_packets_since (sent s) s1) = mset (map (\<lambda>k. hash_packet (block_hash hash (unat HashedSpaceBase) (dev_bytes td) k))
       [0..<block_count (unat HashedSpaceBase) (length (dev_bytes td))])"
proof -
  let ?ps = "concat (map result_packets (out q))"
  note m = hash_pass [OF sz td w offs run]
  have "\<forall>p \<in> set ?ps. PacketTypeOf p = PacketTypePayloadHash"
    unfolding mset_eq_setD [OF m] by (simp add: hash_packet_def)
  then have "filter (\<lambda>p. PacketTypeOf p = PacketTypePayloadHash) ?ps = ?ps" by (rule filter_True)
  then have "hash_packets_since (sent s) s1 = ?ps" using t by (simp add: hash_packets_since_def snt CreateInfoPacket_def)
  then show ?thesis using m by simp
qed

text \<open>The blocks a comparison pass sends can all be logged, and replaying them is replaying \<open>scan_ops\<close>.\<close>

lemma scan_blocks:
  assumes sz: "pass_sizes HashedSpaceBase (length T)" and hist: "hist \<noteq> []" "\<And>img. img \<in> set hist \<Longrightarrow> length img = length T"
    and ps: "mset ps = mset (map (\<lambda>k. hash_packet (block_hash hash (unat HashedSpaceBase) T k)) [0..<block_count (unat HashedSpaceBase) (length T)])"
    and run: "pipe_runs 3 cap (scan_work_ok hash hist) w (map HashPacket ps) q" and w: "0 < w" and h: "journal_slots h"
    and p: "p \<in> set (concat (map comp_packets (out q)))"
  obtains c where "p = block_packet c" and "loggable h p" and "block_op (stored_block c) = block_op c" and "op_on (length T) (block_op c)"
proof -
  let ?R = "unat HashedSpaceBase"
  from scan_items [OF sz hist ps run w] obtain b where
    items: "set (out q) = (\<lambda>k. scan_item hash ?R T k (b k)) ` {..<block_count ?R (length T)}"
    and b: "\<And>k. k < block_count ?R (length T) \<Longrightarrow> blend hist (b k)" by blast
  from p items obtain k where k: "k < block_count ?R (length T)" "p \<in> set (comp_packets (scan_item hash ?R T k (b k)))" by auto
  then have pk: "p = block_packet (scan_block ?R T k (b k))" by (simp add: comp_packets_item split: if_splits)
  have "length (b k) = length T" using blend_length [OF b [OF k(1)] hist] by blast
  from scan_block_logs [OF sz k(1) this h refl] show ?thesis using that pk by blast
qed

lemma append_in_shuffles: "xs @ ys \<in> shuffles xs ys"
  by (induction xs) (auto intro: Cons_in_shuffles_leftI)

lemma set_shuffle: "jp \<in> shuffles ps qs \<Longrightarrow> set jp = set ps \<union> set qs"
  using set_shuffles by blast

lemma scan_journal:
  assumes sz: "pass_sizes HashedSpaceBase (length T)" and hist: "hist \<noteq> []" "\<And>img. img \<in> set hist \<Longrightarrow> length img = length T"
    and ps: "mset ps = mset (map (\<lambda>k. hash_packet (block_hash hash (unat HashedSpaceBase) T k)) [0..<block_count (unat HashedSpaceBase) (length T)])"
    and run: "pipe_runs 3 cap (scan_work_ok hash hist) w (map HashPacket ps) q" and w: "0 < w" and h: "journal_slots h"
    and ws: "\<forall>w \<in> set ws. captured (length T) w"
    and jp: "jp \<in> shuffles (concat (map comp_packets (out q))) (map write_packet ws)"
  shows "\<forall>p \<in> set jp. loggable h p" and "packet_writes jp = ws"
    and "map (block_op \<circ> stored_block) (packet_blocks jp) = scan_ops (out q)"
    and "\<forall>op \<in> set (scan_ops (out q) @ map write_op ws). op_on (length T) op"
proof -
  let ?cp = "concat (map comp_packets (out q))"
  have blocks: "\<exists>c. p = block_packet c \<and> loggable h p \<and> block_op (stored_block c) = block_op c \<and> op_on (length T) (block_op c)"
    if "p \<in> set ?cp" for p using scan_blocks [OF sz hist ps run w h that] by blast
  show "\<forall>p \<in> set jp. loggable h p"
    using blocks captured_logs(1) [OF h] ws by (auto simp: set_shuffle [OF jp])
  show "packet_writes jp = ws" using packet_writes_shuffle [OF jp] comp_packets_lists(1) by simp
  have pb: "packet_blocks jp = packet_blocks ?cp" using packet_blocks_shuffle [OF jp] by simp
  have c: "block_op (stored_block c) = block_op c \<and> op_on (length T) (block_op c)" if "c \<in> set (packet_blocks ?cp)" for c
  proof -
    from that obtain p where p: "p \<in> set ?cp" "c \<in> set (case PayloadOf p of PCorrect c \<Rightarrow> [c] | _ \<Rightarrow> [])"
      unfolding packet_blocks_def set_concat set_map by blast
    from blocks [OF p(1)] show ?thesis using p(2) by (auto simp: block_packet_def)
  qed
  then show "map (block_op \<circ> stored_block) (packet_blocks jp) = scan_ops (out q)"
    unfolding pb comp_packets_lists(2) [symmetric] by simp
  have "\<forall>op \<in> set (scan_ops (out q)). op_on (length T) op"
    unfolding comp_packets_lists(2) [symmetric] using c by simp
  then show "\<forall>op \<in> set (scan_ops (out q) @ map write_op ws). op_on (length T) op"
    using captured_logs(2) [OF h] ws by auto
qed

lemma HandleJournalWriting_replays:
  assumes lg: "logged s h ws cs" and td: "healthy (TargetDevFd s)" "length (dev_bytes (TargetDevFd s)) < 2 ^ 63"
    and st: "GetState s = StateHashing" and h: "journal_slots h"
    and on: "\<forall>op \<in> set (map (block_op \<circ> stored_block) cs @ map write_op ws). op_on (length (dev_bytes (TargetDevFd s))) op"
  shows "\<exists>s' h'. HandleJournalWriting s = (Inr (), s') \<and> sent s' = sent s \<and> scan_ready s' h' \<and> journal_slots h' \<and>
    dev_bytes (TargetDevFd s') = replay (map (block_op \<circ> stored_block) cs @ map write_op ws) (dev_bytes (TargetDevFd s))"
proof -
  from lg obtain j where j: "SrvJournal s = Some j" "header j = h" "journal_inv j (JournalDev s)"
      "journal_writes j (JournalDev s) = map (Inr \<circ> stored_write) ws"
      "journal_blocks j (JournalDev s) = map (Inr \<circ> stored_block) cs" by (auto simp: logged_def)
  have ops: "journal_ops j (dev_bytes (JournalDev s)) = map (block_op \<circ> stored_block) cs @ map write_op ws"
    by (simp add: journal_ops_entries j(4,5) comp_def)
  obtain s' j' where s': "WriteJournalToReplica s = (Inr (), s')" "sent s' = sent s" "SrvJournal s' = Some j'"
      "journal_inv j' (JournalDev s')" "header j' = setInvalidFlag (setValidFlag (header j))"
      "dev_bytes (TargetDevFd s') = replay (journal_ops j (dev_bytes (JournalDev s))) (dev_bytes (TargetDevFd s))"
    using WriteJournalToReplica_healthy [OF j(1,3) td] on unfolding ops by metis
  have "journal_slots (header j')" using h by (simp add: s'(5) j(2) journal_slots_def flag_defs)
  then show ?thesis using s' st journal_inv_scan_ready [OF s'(3,4)] by (auto simp: HandleJournalWriting_def ops)
qed

text \<open>Both passes can be run to their end on any device.\<close>

lemma hash_pass_runs: "0 < w \<Longrightarrow> \<exists>q. pipe_runs 3 (\<lambda>_. Suc m) (hash_work_ok hash readSize td) w src q"
proof -
  assume w: "0 < w"
  have "\<exists>v. hash_work_ok hash readSize td k x v \<and> (\<forall>y. v = Abort y \<longrightarrow> Suc k < 3)" if "k < 3" for k x
    unfolding hash_work_ok_def using less_3_cases [OF that] by (cases x) (auto simp: numeral_2_eq_2)
  from hwk.completes [where cap = "\<lambda>_. Suc m" and src = src, OF rtranclp.rtrancl_refl w _ _ this] show ?thesis by (auto simp: pipe_runs_def pipe_init_def)
qed

lemma scan_pass_runs:
  assumes "hist \<noteq> []" and "\<And>i. i \<in> set hist \<Longrightarrow> length i = L" and w: "0 < w"
  shows "\<exists>q. pipe_runs 3 (\<lambda>_. Suc m) (scan_work_ok hash hist) w src q"
proof -
  obtain i where i: "i \<in> set hist" using assms(1) by (cases hist) auto
  define ud where "ud = \<lparr>dev_bytes = i, dev_faults = [], dev_present = True, dev_block = True\<rparr>"
  have ud: "healthy ud" "blend hist (dev_bytes ud)" using assms(2) i by (auto simp: ud_def healthy_def blend_def)
  have "\<exists>v. scan_work_ok hash hist k x v \<and> (\<forall>y. v = Abort y \<longrightarrow> Suc k < 3)" if "k < 3" for k x
  proof (intro exI conjI allI impI)
    show "scan_work_ok hash hist k x (scan_stage hash ud k x)" using ud by (auto simp: scan_work_ok_def)
    show "Suc k < 3" if "scan_stage hash ud k x = Abort y" for y
      using that by (simp add: scan_stage_sends)
  qed
  from swk.completes [where cap = "\<lambda>_. Suc m" and src = src, OF rtranclp.rtrancl_refl w _ _ this] show ?thesis by (auto simp: pipe_runs_def pipe_init_def)
qed

text \<open>A comparison pass sends at most one block for every hash.\<close>

lemma scan_block_bound:
  assumes sz: "pass_sizes HashedSpaceBase (length T)" and hist: "hist \<noteq> []" "\<And>img. img \<in> set hist \<Longrightarrow> length img = length T"
    and ps: "mset ps = mset (map (\<lambda>k. hash_packet (block_hash hash (unat HashedSpaceBase) T k)) [0..<block_count (unat HashedSpaceBase) (length T)])"
    and run: "pipe_runs 3 cap (scan_work_ok hash hist) w (map HashPacket ps) q" and w: "0 < w"
  shows "length (packet_blocks (concat (map comp_packets (out q)))) \<le> block_count (unat HashedSpaceBase) (length T)"
proof -
  have "set ps \<subseteq> (\<lambda>k. hash_packet (block_hash hash (unat HashedSpaceBase) T k)) ` {..<block_count (unat HashedSpaceBase) (length T)}"
    using mset_eq_setD [OF ps] by (simp add: atLeast_upt lessThan_atLeast0)
  from pipe_complete [OF run scan_smooth [OF sz hist this] w]
  have "length (out q) = length ps" by (auto dest!: rel_mset_size)
  also have "\<dots> = block_count (unat HashedSpaceBase) (length T)" using mset_eq_length [OF ps] by simp
  finally have "length (out q) = block_count (unat HashedSpaceBase) (length T)" .
  moreover have "length (packet_blocks (concat (map comp_packets items))) \<le> length items" for items
  proof (induction items)
    case (Cons i items)
    have "length (packet_blocks (comp_packets i)) \<le> 1" by (cases i) (auto simp: packet_blocks_def correct_block_packet_def)
    then show ?case using Cons by simp
  qed simp
  ultimately show ?thesis by metis
qed

text \<open>
  A scan makes the replica equal to the source, whatever was on the replica and although
  the source is written to meanwhile.  The server hashes its device and the client compares
  the hashes with its own, each with a pipeline of any number of workers under any
  scheduling; the blocks the client sends and the writes \<open>ws\<close> it captured since the scan
  began reach the journal in any interleaving; then the journal is applied.  The replica
  ends up as the source image \<open>img\<close> of the beginning with all the captured writes made,
  and the server is ready for another scan.  The journal must have room for the packets
  and \<open>hash\<close> must not collide on the blocks compared.
\<close>

lemma scan_replays:
  fixes s s1 :: Server and img T :: bytes
  defines "T \<equiv> dev_bytes (TargetDevFd s)"
  assumes server: "scan_ready s h" "journal_slots h" "GetState s = StateHashing" "sendFaults s = []" "healthy (TargetDevFd s)"
    and size: "length T < 2 ^ 63" "length img = length T"
    and offs: "block_offsets HashedSpaceBase (of_nat (length T)) 0 = Some offs"
    and hashing: "pipe_runs 3 cap (hash_work_ok hash HashedSpaceBase (TargetDevFd s)) n (map ReadTask offs) q1"
      "HashDisk n (map (Pair False) (out q1)) elapsed s = (Inr (), s1)"
    and comparing: "pipe_runs 3 cap' (scan_work_ok hash (images (map write_op ws) img)) n' (map HashPacket (hash_packets_since (sent s) s1)) q2"
    and workers: "0 < n" "0 < n'"
    and ws: "\<forall>w \<in> set ws. captured (length T) w"
    and arrive: "jp \<in> shuffles (concat (map comp_packets (out q2))) (map write_packet ws)"
    and room: "length ws \<le> unat (bufWritesCount h)" "length (packet_blocks jp) \<le> unat (corrBlocksCount h)"
    and nc: "collision_free hash (unat HashedSpaceBase) (images (map write_op ws) img) T"
  shows "\<exists>s2 s3 h'. HandleJournalPackets jp s1 = (Inr (), s2) \<and> HandleJournalWriting s2 = (Inr (), s3) \<and>
    dev_bytes (TargetDevFd s3) = replay (map write_op ws) img \<and> scan_ready s3 h' \<and> journal_slots h'"
proof -
  have sz: "pass_sizes HashedSpaceBase (length T)" using size(1) by (simp add: pass_sizes_def HashedSpaceBase_def)
  obtain s0 h0 where s0: "HashDisk_start s = (Inr True, s0)" "logged s0 h0 [] []" "h0 = setInvalidFlag h"
    "TargetDevFd s0 = TargetDevFd s" "sent s0 = sent s @ [CreateInfoPacket PacketTypeInfoStartHashing]"
    "GetState s0 = StateHashing" "sendFaults s0 = []"
    using HashDisk_start_resets [OF server(1,3,4)] by blast
  from HashDisk_sends [OF s0(1,7) workers(1), of "out q1" elapsed] hashing(2) obtain st where
    s1: "s1 = s0\<lparr>SrvStats := st, sent := sent s0 @ concat (map result_packets (out q1)) @ [CreateInfoPacket PacketTypeInfoHashingCompleted]\<rparr>"
    by auto
  have lg1: "logged s1 h0 [] []" "GetState s1 = StateHashing" "TargetDevFd s1 = TargetDevFd s"
    using s0(2,4,6) by (simp_all add: s1 logged_def GetState_def)
  have ps: "mset (hash_packets_since (sent s) s1) = mset (map (\<lambda>k. hash_packet (block_hash hash (unat HashedSpaceBase) T k))
       [0..<block_count (unat HashedSpaceBase) (length T)])"
    unfolding T_def
    by (rule scan_hashes [OF _ server(5) workers(1) _ hashing(1), where t = PacketTypeInfoStartHashing and t' = PacketTypeInfoHashingCompleted]) (use sz offs in \<open>simp_all add: T_def s1 s0(5)\<close>)
  have hist: "images (map write_op ws) img \<noteq> []" "\<And>i. i \<in> set (images (map write_op ws) img) \<Longrightarrow> length i = length T"
    using images_props size(2) by auto
  have h0: "journal_slots h0" using server(2) by (simp add: s0(3) journal_slots_def flag_defs)
  note log = scan_journal [OF sz hist ps comparing workers(2) h0 ws arrive]
  obtain s2 where s2: "HandleJournalPackets jp s1 = (Inr (), s2)" "logged s2 h0 ws (packet_blocks jp)"
      "TargetDevFd s2 = TargetDevFd s" "GetState s2 = StateHashing"
    using HandleJournalPackets_logs [OF lg1(1) _ log(1)] lg1(2,3) log(2) room by (auto simp: s0(3) GetState_def)
  have "\<exists>s' h'. HandleJournalWriting s2 = (Inr (), s') \<and> sent s' = sent s2 \<and> scan_ready s' h' \<and> journal_slots h' \<and>
      dev_bytes (TargetDevFd s') = replay (scan_ops (out q2) @ map write_op ws) T"
    using HandleJournalWriting_replays [OF s2(2) _ _ s2(4) h0] server(5) size(1) log(3,4) by (simp add: s2(3) T_def)
  moreover have "replay (scan_ops (out q2) @ map write_op ws) T = replay (map write_op ws) img"
    using blend_redo [OF scan_pass [OF sz hist ps comparing workers(2) nc]] by (simp add: replay_append)
  ultimately show ?thesis using s2(1) by auto
qed

definition demo_zeros :: bytes where
  "demo_zeros = replicate 300000 0"

lemma length_demo_zeros [simp]: "length demo_zeros = 300000"
  unfolding demo_zeros_def by (rule length_replicate)

definition demo_scan :: Server where
  "demo_scan = demo_server\<lparr>ClientInfo := Some demo_info, SrvJournal := None, sstate := StateHashing,
     JournalDev := demo_blank\<lparr>dev_bytes := demo_zeros\<rparr>,
     TargetDevFd := demo_blank\<lparr>dev_bytes := [0, 0, 0]\<rparr>\<rparr>"

definition demo_update :: WriteInfo where
  "demo_update = \<lparr>wiOffset = 1, wiSize = 2, wiData = [7, 8]\<rparr>"

lemma demo_scan_ready:
  obtains s h where "CreateJournal demo_scan = (Inr (), s)" and "scan_ready s h" and "journal_slots h"
    and "unat (bufWritesCount h) = 2" and "unat (corrBlocksCount h) = 1" and "TargetDevFd s = TargetDevFd demo_scan"
    and "GetState s = StateHashing" and "sendFaults s = []"
proof -
  have jd: "block_device (JournalDev demo_scan)" and ci: "ClientInfo demo_scan = Some demo_info"
    by (simp_all add: demo_scan_def block_device_def demo_blank_def healthy_def)
  have "\<not> (iiBufferByteSize demo_info = 0 \<or> length (dev_bytes (JournalDev demo_scan)) < 64 + unat (iiBufferByteSize demo_info))"
    by (simp add: demo_info_def demo_scan_def demo_blank_def)
  then obtain s where s: "CreateJournal demo_scan = (Inr (), s)" "TargetDevFd s = TargetDevFd demo_scan"
      "GetState s = StateHashing" "sendFaults s = []"
    using CreateJournal_outcome [OF jd ci] by (auto simp: GetState_def demo_scan_def demo_server_def)
  from CreateJournal_scan_ready [OF jd ci s(1)] obtain h where h: "scan_ready s h" "journal_slots h"
      "bufWritesCount h = iiBufferByteSize demo_info div WriteInfoSize"
      "corrBlocksCount h = (of_nat (length (dev_bytes (JournalDev demo_scan))) - 64 - iiBufferByteSize demo_info) div CorrectBlockByteSize"
    by auto
  have "unat (bufWritesCount h) = 2" by (simp add: h(3) demo_info_def WriteInfoSize_def)
  moreover have "unat (corrBlocksCount h) = 1"
    by (simp add: h(4) demo_info_def demo_scan_def demo_blank_def CorrectBlockByteSize_def HashedSpaceBase_def)
  ultimately show ?thesis using that s h by blast
qed

lemma get_be_collision_free:
  assumes "length T \<le> 8" and "hist \<noteq> []" and "\<And>i. i \<in> set hist \<Longrightarrow> length i = length T"
  shows "collision_free (get_be :: bytes \<Rightarrow> u64) R hist T"
  unfolding collision_free_def
proof (intro allI impI)
  fix k b assume b: "blend hist b" and eq: "(get_be (blk R k b) :: u64) = get_be (blk R k T)"
  have "length b = length T" using blend_length [OF b assms(2,3)] by blast
  then have l: "length (blk R k b) = length (blk R k T)" by (simp add: length_blk)
  have "length (blk R k T) \<le> 8" using assms(1) by (simp add: length_blk min_le_iff_disj le_diff_conv)
  then have "8 * length (blk R k T) \<le> LENGTH(64)" by simp
  then show "blk R k b = blk R k T"
    using put_get_be [of "blk R k b", where ?'a = 64] put_get_be [of "blk R k T", where ?'a = 64] l eq by metis
qed


subsection \<open>A journal that is full\<close>

lemma HandleJournalPackets_overflown: "GetState s = StateJournalOverflow \<Longrightarrow> HandleJournalPackets ps s = (Inr (), s)"
  by (induction ps) (simp_all add: HandleJournalPacket_def)

text \<open>
  C25: When the section of the journal that a packet belongs to is full, the packet is not
  logged: the client gets one packet that says so, the state becomes \<open>StateJournalOverflow\<close>
  and nothing that is queued behind the packet is logged or reported again.  The journal
  keeps the entries it has and the replica is not written.
\<close>

theorem journal_overflow_reported:
  assumes lg: "logged s h ws cs" and st: "GetState s \<noteq> StateJournalOverflow" and quiet: "sendFaults s = []"
    and full: "(\<exists>w. p = write_packet w) \<and> length ws = unat (bufWritesCount h) \<or>
      (\<exists>c. p = block_packet c) \<and> length cs = unat (corrBlocksCount h)"
  shows "HandleJournalPackets (p # ps) s =
    (Inr (), s\<lparr>sstate := StateJournalOverflow, sent := sent s @ [CreateInfoPacket PacketTypeErrJournalOverflow]\<rparr>)"
proof -
  from lg obtain j where j: "SrvJournal s = Some j" "header j = h"
      "journal_writes j (JournalDev s) = map (Inr \<circ> stored_write) ws"
      "journal_blocks j (JournalDev s) = map (Inr \<circ> stored_block) cs" by (auto simp: logged_def)
  note len = logged_lengths [OF j(1,3,4)]
  let ?s = "s\<lparr>sstate := StateJournalOverflow, sent := sent s @ [CreateInfoPacket PacketTypeErrJournalOverflow]\<rparr>"
  have "HandleJournalPacket p s = (Inr (), ?s)"
    using full st quiet j(1,2) len
    by (auto simp: HandleJournalPacket_def write_packet_def block_packet_def HandleJournalBufferWrite_def
        HandleJournalCorrectBlock_def WriteBufferWriteToJournal_def WriteCorrectBlockToJournal_def WriteBufferWrite_def
        WriteCorrectBlock_def word_le_nat_alt journal_overflow_def wrap_def SendPacket_def SetState_def)
  then show ?thesis using HandleJournalPackets_overflown [of ?s ps] by (simp add: GetState_def)
qed

definition demo_full :: Server where
  "demo_full = demo_server\<lparr>SrvJournal := Some (demo_journal\<lparr>WriteOffset := 2\<rparr>), JournalDev := demo_full_device\<rparr>"

lemma demo_full_logged: "logged demo_full demo_header [demo_write, demo_write] []"
proof -
  obtain r d where w: "WriteBufferWrite demo_journal 0 demo_write demo_device = (r, d)" by fastforce
  note a = journal_append_write [OF demo_inv demo_inv_room(1) demo_entry_fits(1,2), simplified, OF w]
  let ?j = "demo_journal\<lparr>WriteOffset := 1\<rparr>"
  obtain r2 d2 where w2: "WriteBufferWrite ?j 1 demo_write d = (r2, d2)" by fastforce
  have "WriteOffset ?j < bufWritesCount (header ?j)" "write_fits (header ?j) demo_write"
    using demo_fits by (simp_all add: demo_header_def)
  note a2 = journal_append_write [OF a(2) this demo_fits(2), simplified, OF w2]
  have e: "journal_writes demo_journal demo_device = []" "journal_blocks demo_journal demo_device = []"
    by (simp_all add: journal_writes_def journal_blocks_def log_entries_def)
  show ?thesis using a a2 e by (auto simp: logged_def demo_full_def demo_full_device_def w w2)
qed

theorem journal_overflow_reported_witness:
  "HandleJournalPackets [write_packet demo_write, block_packet demo_block] demo_full =
     (Inr (), demo_full\<lparr>sstate := StateJournalOverflow, sent := [CreateInfoPacket PacketTypeErrJournalOverflow]\<rparr>)"
proof -
  have f: "GetState demo_full \<noteq> StateJournalOverflow" "sendFaults demo_full = []" "sent demo_full = []"
    by (simp_all add: GetState_def demo_full_def demo_server_def)
  show ?thesis
    using journal_overflow_reported [OF demo_full_logged f(1,2), of "write_packet demo_write" "[block_packet demo_block]"]
    by (simp add: f(3) demo_header_def write_packet_def)
qed

end
