(* ===== verification/Session.thy ===== *)
theory Session
  imports Scan_Converges
begin

text \<open>
  The session of a client, the loop of \<^verbatim>\<open>HandleClient\<close> in \<^verbatim>\<open>user/server/server.go\<close>, with the
  goroutines it starts.  The loop receives packets, moves the server between its states,
  passes packets to the queues of the workers, and joins the workers at the borders of a scan
  and of a full replication.  \<open>session_step\<close> is the interleaving of all of them.
\<close>

subsection \<open>The session\<close>

text \<open>
  Where the loop is: about to receive, blocked in a send to a queue, or waiting for a group
  of goroutines.  The flag of \<open>JoinJournal\<close> says that a scan starts, otherwise one ends; that
  of \<open>JoinReplication\<close> that a full replication starts.  A panic ends the program.
\<close>

datatype session_pc =
    Receive
  | ToJournal Packet
  | ToWrite Packet
  | ToCorrect Packet
  | ToReplication Packet
  | JoinJournal bool
  | JoinHash
  | JoinReplication bool
  | Leaving
  | Ended
  | Panicked

text \<open>The goroutine of \<^verbatim>\<open>HashDisk\<close>: none, started, past the reset of the journal.\<close>

datatype hash_pc = NoPass | PassStarts | PassRuns

text \<open>
  The local variables of \<^verbatim>\<open>HandleClient\<close>, with the goroutines.  \<open>sin\<close> is what \<^verbatim>\<open>Decode\<close> will
  give, \<open>writing\<close> a packet that \<^verbatim>\<open>HandleWritePackets\<close> has taken in \<^verbatim>\<open>StateWriting\<close> and not yet
  written.
\<close>

record session =
  ssrv :: Server
  sin :: "Packet result list"
  spc :: session_pc
  writeQueue :: "Packet list"
  writing :: "Packet option"
  journalQueue :: "Packet list"
  journalClosed :: bool
  journalWorker :: bool
  correctQueue :: "Packet list"
  replicationQueue :: "Packet list"
  replicationClosed :: bool
  replicationWorker :: bool
  hashTermClosed :: bool
  hashPass :: hash_pc

definition session_start :: "Packet result list \<Rightarrow> Server \<Rightarrow> session" where
  "session_start received s = \<lparr>ssrv = s, sin = received, spc = Receive, writeQueue = [], writing = None,
     journalQueue = [], journalClosed = False, journalWorker = False, correctQueue = [],
     replicationQueue = [], replicationClosed = False, replicationWorker = False,
     hashTermClosed = False, hashPass = NoPass\<rparr>"

text \<open>Closing a closed channel panics, which is \<open>None\<close>.\<close>

definition close_journal :: "session \<Rightarrow> session option" where
  "close_journal st = (if journalClosed st then None else Some (st\<lparr>journalClosed := True\<rparr>))"

definition close_replication :: "session \<Rightarrow> session option" where
  "close_replication st = (if replicationClosed st then None else Some (st\<lparr>replicationClosed := True\<rparr>))"

definition close_hashTerm :: "session \<Rightarrow> session option" where
  "close_hashTerm st = (if hashTermClosed st then None else Some (st\<lparr>hashTermClosed := True\<rparr>))"

definition enter :: "ServerState \<Rightarrow> session \<Rightarrow> session" where
  "enter state st = st\<lparr>ssrv := SetState state (ssrv st)\<rparr>"

text \<open>The switch on the type of a packet, up to the first wait.\<close>

definition dispatch :: "Packet \<Rightarrow> session \<Rightarrow> session option" where
  "dispatch packet st = (let state = GetState (ssrv st) in case PacketTypeOf packet of
     PacketTypeCmdStartHashing \<Rightarrow>
       map_option (\<lambda>st1. st1\<lparr>spc := JoinJournal True\<rparr>) (close_journal (enter StateHashing st))
   | PacketTypePayloadBufferWrite \<Rightarrow>
       Some (if state = StateHashing then st\<lparr>spc := ToJournal packet\<rparr>
             else if state = StateWriting then st\<lparr>spc := ToWrite packet\<rparr> else st)
   | PacketTypePayloadCorrectBlock \<Rightarrow>
       Some (if state = StateHashing then st\<lparr>spc := ToJournal packet\<rparr>
             else if state = StateDestroyingReplica then st\<lparr>spc := ToCorrect packet\<rparr> else st)
   | PacketTypePayloadReplicationBlock \<Rightarrow> Some (st\<lparr>spc := ToReplication packet\<rparr>)
   | PacketTypeInfoHashingCompleted \<Rightarrow>
       map_option (\<lambda>st1. st1\<lparr>spc := JoinJournal False\<rparr>) (close_journal st)
   | PacketTypeInfoReplicationCompleted \<Rightarrow>
       map_option (\<lambda>st1. st1\<lparr>spc := JoinReplication False\<rparr>) (close_replication st)
   | PacketTypeInfoStartReplication \<Rightarrow>
       map_option (\<lambda>st1. st1\<lparr>spc := JoinReplication True\<rparr>) (close_replication (enter StateReplicating st))
   | PacketTypeCmdStartFullScan \<Rightarrow>
       map_option (\<lambda>st1. st1\<lparr>spc := JoinHash\<rparr>) (close_hashTerm (enter StateDestroyingReplica st))
   | _ \<Rightarrow> Some st)"

text \<open>What follows the waits for the three groups of goroutines.\<close>

definition journal_joined :: "bool \<Rightarrow> session \<Rightarrow> session option" where
  "journal_joined starts st =
     (let st1 = st\<lparr>journalQueue := [], journalClosed := False, journalWorker := starts\<rparr> in
      if starts then map_option (\<lambda>st2. st2\<lparr>spc := JoinHash\<rparr>) (close_hashTerm st1)
      else case HandleJournalWriting (ssrv st1) of
          (Inl e, s) \<Rightarrow> None
        | (Inr u, s) \<Rightarrow> Some (st1\<lparr>ssrv := SetState StateWriting s, spc := Receive\<rparr>))"

definition hash_joined :: "session \<Rightarrow> session" where
  "hash_joined st = st\<lparr>hashTermClosed := False, hashPass := PassStarts, spc := Receive\<rparr>"

definition replication_joined :: "bool \<Rightarrow> session \<Rightarrow> session" where
  "replication_joined starts st =
     (let st1 = st\<lparr>replicationQueue := [], replicationClosed := False, replicationWorker := starts, spc := Receive\<rparr> in
      if starts then st1 else enter StateWriting st1)"

text \<open>Both returns of the loop close the channels first; then the deferred calls wait.\<close>

definition leave :: "session \<Rightarrow> session option" where
  "leave st = Option.bind (close_hashTerm st) (\<lambda>st1. Option.bind (close_journal st1) (\<lambda>st2.
     map_option (\<lambda>st3. st3\<lparr>spc := Leaving\<rparr>) (close_replication st2)))"

definition or_panic :: "session \<Rightarrow> session option \<Rightarrow> session" where
  "or_panic st r = (case r of None \<Rightarrow> st\<lparr>spc := Panicked\<rparr> | Some st1 \<Rightarrow> st1)"

subsection \<open>The steps\<close>

text \<open>
  Steps of the loop, of the writer (which looks at the state when it takes a packet, and
  writes later), of the journal worker, of the worker for correct blocks and of the workers
  of a full replication, of \<^verbatim>\<open>HashDisk\<close> (whose results are those of any run of its pipeline;
  how a pass that is stopped can panic is shown in \<open>Pass_Safety\<close>) and of the signal handler.  A packet on a channel nobody takes from stays there; the writer
  outlives the loop.
\<close>

inductive session_step :: "session \<Rightarrow> session \<Rightarrow> bool" where
  terminate: "spc st = Receive \<Longrightarrow> CheckTermination (ssrv st) \<Longrightarrow> session_step st (or_panic st (leave st))"
| receive: "spc st = Receive \<Longrightarrow> \<not> CheckTermination (ssrv st) \<Longrightarrow> sin st = Inr packet # rest \<Longrightarrow>
    session_step st (or_panic st (dispatch packet (st\<lparr>sin := rest\<rparr>)))"
| closed: "spc st = Receive \<Longrightarrow> \<not> CheckTermination (ssrv st) \<Longrightarrow> sin st = Inl err # rest \<Longrightarrow> IsConnectionClosed (Some err) \<Longrightarrow>
    session_step st (or_panic st (leave (st\<lparr>sin := rest\<rparr>)))"
| garbled: "spc st = Receive \<Longrightarrow> \<not> CheckTermination (ssrv st) \<Longrightarrow> sin st = Inl err # rest \<Longrightarrow> \<not> IsConnectionClosed (Some err) \<Longrightarrow>
    session_step st (st\<lparr>sin := rest\<rparr>)"
| to_journal: "spc st = ToJournal packet \<Longrightarrow> length (journalQueue st) < PacketQueueSize \<Longrightarrow>
    session_step st (if journalClosed st then st\<lparr>spc := Panicked\<rparr>
      else st\<lparr>journalQueue := journalQueue st @ [packet], spc := Receive\<rparr>)"
| to_write: "spc st = ToWrite packet \<Longrightarrow> length (writeQueue st) < PacketQueueSize \<Longrightarrow>
    session_step st (st\<lparr>writeQueue := writeQueue st @ [packet], spc := Receive\<rparr>)"
| to_correct: "spc st = ToCorrect packet \<Longrightarrow> length (correctQueue st) < PacketQueueSize \<Longrightarrow>
    session_step st (st\<lparr>correctQueue := correctQueue st @ [packet], spc := Receive\<rparr>)"
| to_replication: "spc st = ToReplication packet \<Longrightarrow> length (replicationQueue st) < PacketQueueSize \<Longrightarrow>
    session_step st (if replicationClosed st then st\<lparr>spc := Panicked\<rparr>
      else st\<lparr>replicationQueue := replicationQueue st @ [packet], spc := Receive\<rparr>)"
| join_journal: "spc st = JoinJournal starts \<Longrightarrow> \<not> journalWorker st \<Longrightarrow> session_step st (or_panic st (journal_joined starts st))"
| join_hash: "spc st = JoinHash \<Longrightarrow> hashPass st = NoPass \<Longrightarrow> session_step st (hash_joined st)"
| join_replication: "spc st = JoinReplication starts \<Longrightarrow> \<not> replicationWorker st \<Longrightarrow> session_step st (replication_joined starts st)"
| left: "spc st = Leaving \<Longrightarrow> \<not> replicationWorker st \<Longrightarrow> \<not> journalWorker st \<Longrightarrow> hashPass st = NoPass \<Longrightarrow>
    session_step st (st\<lparr>ssrv := close_session (ssrv st), spc := Ended\<rparr>)"
| write_take: "spc st \<noteq> Panicked \<Longrightarrow> writing st = None \<Longrightarrow> writeQueue st = packet # rest \<Longrightarrow>
    session_step st (st\<lparr>writeQueue := rest, writing := if GetState (ssrv st) = StateWriting then Some packet else None\<rparr>)"
| write_do: "spc st \<noteq> Panicked \<Longrightarrow> writing st = Some packet \<Longrightarrow> perform_write elapsed packet (ssrv st) = Some (r, s) \<Longrightarrow>
    session_step st (if r = Inr () then st\<lparr>ssrv := s, writing := None\<rparr> else st\<lparr>spc := Panicked\<rparr>)"
| journal_work: "spc st \<noteq> Panicked \<Longrightarrow> journalWorker st \<Longrightarrow> journalQueue st = packet # rest \<Longrightarrow> HandleJournalPacket packet (ssrv st) = (r, s) \<Longrightarrow>
    session_step st (if r = Inr () then st\<lparr>ssrv := s, journalQueue := rest\<rparr> else st\<lparr>spc := Panicked\<rparr>)"
| journal_end: "spc st \<noteq> Panicked \<Longrightarrow> journalWorker st \<Longrightarrow> journalQueue st = [] \<Longrightarrow> journalClosed st \<Longrightarrow> session_step st (st\<lparr>journalWorker := False\<rparr>)"
| correct_work: "spc st \<noteq> Panicked \<Longrightarrow> correctQueue st = packet # rest \<Longrightarrow>
    session_step st (st\<lparr>ssrv := HandleCorrectPacket packet (ssrv st), correctQueue := rest\<rparr>)"
| replication_work: "spc st \<noteq> Panicked \<Longrightarrow> replicationWorker st \<Longrightarrow> replicationQueue st = packet # rest \<Longrightarrow>
    session_step st (st\<lparr>ssrv := HandleReplicationPacket packet (ssrv st), replicationQueue := rest\<rparr>)"
| replication_end: "spc st \<noteq> Panicked \<Longrightarrow> replicationWorker st \<Longrightarrow> replicationQueue st = [] \<Longrightarrow> replicationClosed st \<Longrightarrow>
    session_step st (st\<lparr>ssrv := HandleReplicationPackets [] (ssrv st), replicationWorker := False\<rparr>)"
| pass_start: "spc st \<noteq> Panicked \<Longrightarrow> hashPass st = PassStarts \<Longrightarrow> HashDisk_start (ssrv st) = (r, s) \<Longrightarrow>
    session_step st (case r of Inl e \<Rightarrow> st\<lparr>spc := Panicked\<rparr>
      | Inr go \<Rightarrow> st\<lparr>ssrv := s, hashPass := if go then PassRuns else NoPass\<rparr>)"
| pass_end: "spc st \<noteq> Panicked \<Longrightarrow> hashPass st = PassRuns \<Longrightarrow>
    session_step st (st\<lparr>ssrv := HashDisk_end elapsed (send_results numWorkers results (0, ssrv st)), hashPass := NoPass\<rparr>)"
| signal: "session_step st (st\<lparr>ssrv := InitiateShutdown (ssrv st)\<rparr>)"

subsection \<open>What the goroutines keep\<close>

text \<open>The part of the server that the journal and the replica depend on.\<close>

definition same_disks :: "Server \<Rightarrow> Server \<Rightarrow> bool" where
  "same_disks s t \<longleftrightarrow> TargetDevFd s = TargetDevFd t \<and> JournalDev s = JournalDev t \<and> SrvJournal s = SrvJournal t \<and> sstate s = sstate t"

lemma same_disks_refl [simp]: "same_disks s s"
  by (simp add: same_disks_def)

lemma send_same [simp]:
  "same_disks (snd (SendPacket packet s)) t = same_disks s t" "same_disks t (snd (SendPacket packet s)) = same_disks t s"
  "same_disks (snd (Encode packet s)) t = same_disks s t" "same_disks (send_info k s) t = same_disks s t"
  by (simp_all add: same_disks_def SendPacket_def Encode_def send_info_def split: list.splits option.splits)

lemma shutdown_same [simp]:
  "same_disks (InitiateShutdown s) t = same_disks s t" "same_disks (s\<lparr>SrvStats := stats\<rparr>) t = same_disks s t"
  by (simp_all add: same_disks_def InitiateShutdown_def)

lemma send_result_same: "same_disks (snd (snd (send_result item (tot, s)))) t = same_disks s t"
proof (cases item)
  case (ResultItem offset sz h err)
  define packet where "packet = \<lparr>PacketTypeOf = PacketTypePayloadHash, PayloadOf = PHash \<lparr>hiOffset = offset, hiSize = sz, hiHash = h\<rparr>\<rparr>"
  define s1 where "s1 = (if err \<noteq> None then send_info PacketTypeErrHash s else s)"
  obtain r s2 where e: "Encode packet s1 = (r, s2)" by fastforce
  have "same_disks s2 t = same_disks s1 t" using send_same(3) [of packet s1 t] by (simp add: e)
  also have "\<dots> = same_disks s t" by (simp add: s1_def)
  finally show ?thesis
    by (simp only: ResultItem send_result.simps Let_def s1_def [symmetric] packet_def [symmetric] e) (simp split: sum.split)
qed simp_all

lemma send_results_same: "same_disks (snd (send_results n rs ts)) t = same_disks (snd ts) t"
proof (induction n rs ts rule: send_results.induct)
  case (3 n terminated r results ts)
  then show ?case using send_result_same [of r "fst ts" "snd ts" t] by (auto split: prod.splits)
qed simp_all

lemma pass_end_same [simp]: "same_disks (HashDisk_end elapsed (send_results n rs (tot, s))) t = same_disks s t"
  using send_results_same [of n rs "(tot, s)" t] by (cases "send_results n rs (tot, s)") (simp add: HashDisk_end_def)

lemma same_state: "same_disks s t \<Longrightarrow> GetState s = GetState t"
  by (simp add: same_disks_def GetState_def)

lemma pass_end_state [simp]: "GetState (HashDisk_end elapsed (send_results n rs (tot, s))) = GetState s"
  by (rule same_state) simp

lemma shutdown_state [simp]: "GetState (InitiateShutdown s) = GetState s"
  by (rule same_state) simp

lemma worker_state [simp]:
  "GetState (HandleCorrectPacket packet s) = GetState s" "GetState (HandleReplicationPacket packet s) = GetState s"
  "GetState (HandleReplicationPackets [] s) = GetState s" "GetState (SetState state s) = state"
  by (simp_all add: HandleCorrectPacket_def HandleReplicationPacket_def HandleReplicationPackets_def GetState_def SetState_def
      split: Payload.splits)

lemma write_state: "perform_write elapsed packet s = Some (r, s') \<Longrightarrow> GetState s' = GetState s"
  by (auto simp: perform_write_def Let_def GetState_def bind_eq_Some_conv split: sum.splits)

lemma send_state_same [simp]: "GetState (snd (SendPacket packet s)) = GetState s"
  by (rule same_state) simp

lemma pass_start_state:
  assumes "HashDisk_start s = (r, s')"
  shows "GetState s' = GetState s"
proof -
  define reset where "reset = (if GetState s \<noteq> StateDestroyingReplica
         then (case SrvJournal s of
                 None \<Rightarrow> (Inl Panic, s)
               | Some j \<Rightarrow> (case ResetTo j (WriteOffset j) (CorrectOffset j) (JournalDev s) of
                    (r, j1, jd) \<Rightarrow> (Inr (), s\<lparr>SrvJournal := Some j1, JournalDev := jd\<rparr>)))
         else (Inr () :: unit result, s))"
  obtain r0 s1 where e: "reset = (r0, s1)" by fastforce
  have st: "GetState s1 = GetState s" using e
    by (auto simp: reset_def GetState_def split: if_splits option.splits prod.splits)
  obtain r2 s2 where p: "SendPacket (CreateInfoPacket PacketTypeInfoStartHashing) s1 = (r2, s2)" by fastforce
  have "GetState s2 = GetState s1" using send_state_same [of "CreateInfoPacket PacketTypeInfoStartHashing" s1] by (simp add: p)
  then show ?thesis using assms st unfolding HashDisk_start_def reset_def [symmetric]
    by (auto simp: e p split: sum.splits)
qed

lemma journal_work_state:
  assumes "HandleJournalPacket packet s = (r, s')"
  shows "GetState s' = GetState s \<or> GetState s' = StateJournalOverflow"
proof -
  have w: "GetState (snd (WriteBufferWriteToJournal w t)) = GetState t" "GetState (snd (WriteCorrectBlockToJournal b t)) = GetState t" for w b t
    by (auto simp: WriteBufferWriteToJournal_def WriteCorrectBlockToJournal_def GetState_def split: option.splits prod.splits sum.splits)
  have h: "GetState (snd (HandleJournalBufferWrite packet s)) = GetState s" "GetState (snd (HandleJournalCorrectBlock packet s)) = GetState s"
    using w by (auto simp: HandleJournalBufferWrite_def HandleJournalCorrectBlock_def split: Payload.splits prod.splits sum.splits) (metis snd_conv)+
  have "GetState (snd (journal_overflow rs)) = GetState (snd rs) \<or> GetState (snd (journal_overflow rs)) = StateJournalOverflow" for rs
    by (cases rs) (auto simp: journal_overflow_def split: sum.splits)
  moreover have "snd (HandleJournalPacket packet s) \<in> {s, snd (journal_overflow (HandleJournalBufferWrite packet s)),
      snd (journal_overflow (HandleJournalCorrectBlock packet s))}" by (simp add: HandleJournalPacket_def split: PacketType.split)
  ultimately show ?thesis using assms h by (metis insertE singletonD snd_conv)
qed

subsection \<open>Channels and workers\<close>

text \<open>
  The invariant: which channels are closed follows from where the loop is; a journal queue
  without a worker is empty; in \<^verbatim>\<open>StateHashing\<close> the loop has a journal worker.
\<close>

definition channels_ok :: "session \<Rightarrow> bool" where
  "channels_ok st \<longleftrightarrow> (case spc st of
     JoinJournal starts \<Rightarrow> journalClosed st \<and> \<not> replicationClosed st \<and> \<not> hashTermClosed st
   | JoinHash \<Rightarrow> \<not> journalClosed st \<and> \<not> replicationClosed st \<and> hashTermClosed st
   | JoinReplication starts \<Rightarrow> \<not> journalClosed st \<and> replicationClosed st \<and> \<not> hashTermClosed st
   | Leaving \<Rightarrow> journalClosed st \<and> replicationClosed st \<and> hashTermClosed st
   | Ended \<Rightarrow> True
   | Panicked \<Rightarrow> True
   | _ \<Rightarrow> \<not> journalClosed st \<and> \<not> replicationClosed st \<and> \<not> hashTermClosed st)"

lemma channels_ok_frame [simp]:
  "channels_ok (st\<lparr>ssrv := s\<rparr>) = channels_ok st" "channels_ok (st\<lparr>sin := ps\<rparr>) = channels_ok st"
  "channels_ok (st\<lparr>writeQueue := q\<rparr>) = channels_ok st" "channels_ok (st\<lparr>writing := w\<rparr>) = channels_ok st"
  "channels_ok (st\<lparr>journalQueue := q\<rparr>) = channels_ok st" "channels_ok (st\<lparr>journalWorker := b\<rparr>) = channels_ok st"
  "channels_ok (st\<lparr>correctQueue := q\<rparr>) = channels_ok st" "channels_ok (st\<lparr>replicationQueue := q\<rparr>) = channels_ok st"
  "channels_ok (st\<lparr>replicationWorker := b\<rparr>) = channels_ok st" "channels_ok (st\<lparr>hashPass := h\<rparr>) = channels_ok st"
  "channels_ok (st\<lparr>spc := Panicked\<rparr>)"
  by (simp_all add: channels_ok_def split: session_pc.split)

definition session_inv :: "session \<Rightarrow> bool" where
  "session_inv st \<longleftrightarrow> channels_ok st \<and> (journalWorker st \<or> journalQueue st = []) \<and>
     (GetState (ssrv st) = StateHashing \<longrightarrow> journalWorker st \<or> spc st \<in> {JoinJournal True, JoinJournal False, Leaving, Ended, Panicked}) \<and>
     (\<forall>packet. spc st = ToJournal packet \<longrightarrow> journalWorker st)"

lemmas session_defs = channels_ok_def or_panic_def leave_def close_journal_def close_replication_def close_hashTerm_def

lemma dispatch_inv:
  assumes "session_inv st" and "spc st = Receive"
  shows "\<exists>st'. dispatch packet st = Some st' \<and> session_inv st'"
  using assms
  by (cases "PacketTypeOf packet") (auto simp: session_inv_def session_defs dispatch_def enter_def Let_def)

lemma leave_inv:
  assumes "session_inv st" and "spc st = Receive"
  shows "\<exists>st'. leave st = Some st' \<and> session_inv st'"
  using assms by (auto simp: session_inv_def session_defs)

lemma joined_inv:
  assumes "session_inv st" and "\<not> journalWorker st"
  shows "spc st = JoinJournal starts \<Longrightarrow> session_inv (or_panic st (journal_joined starts st))"
  using assms by (auto simp: session_inv_def session_defs journal_joined_def Let_def split: sum.split prod.split)

lemma session_step_inv:
  assumes "session_step st st'" and "session_inv st"
  shows "session_inv st'"
  using assms
proof (induction rule: session_step.induct)
  case (terminate st)
  then show ?case using leave_inv by (fastforce simp: or_panic_def)
next
  case (receive st packet rest)
  have "session_inv (st\<lparr>sin := rest\<rparr>)" using receive.prems by (simp add: session_inv_def)
  then show ?case using dispatch_inv [of "st\<lparr>sin := rest\<rparr>" packet] receive.hyps by (auto simp: or_panic_def)
next
  case (closed st err rest)
  have "session_inv (st\<lparr>sin := rest\<rparr>)" using closed.prems by (simp add: session_inv_def)
  then show ?case using leave_inv [of "st\<lparr>sin := rest\<rparr>"] closed.hyps by (auto simp: or_panic_def)
next
  case (write_do st packet elapsed r s)
  then show ?case using write_state [OF write_do.hyps(3)] by (auto simp: session_inv_def)
next
  case (journal_work st packet rest r s)
  then show ?case using journal_work_state [OF journal_work.hyps(4)] by (auto simp: session_inv_def)
next
  case (pass_start st r s)
  then show ?case using pass_start_state [OF pass_start.hyps(3)] by (auto simp: session_inv_def split: sum.split)
next
  case (join_journal st starts)
  then show ?case by (intro joined_inv)
next
  case (left st)
  then show ?case by (simp add: session_inv_def channels_ok_def)
next
  case (to_journal st packet)
  then show ?case by (auto simp: session_inv_def channels_ok_def)
next
  case (to_write st packet)
  then show ?case by (auto simp: session_inv_def channels_ok_def)
next
  case (to_correct st packet)
  then show ?case by (auto simp: session_inv_def channels_ok_def)
next
  case (to_replication st packet)
  then show ?case by (auto simp: session_inv_def channels_ok_def)
next
  case (join_hash st)
  then show ?case by (auto simp: session_inv_def channels_ok_def hash_joined_def)
next
  case (join_replication st starts)
  then show ?case by (auto simp: session_inv_def channels_ok_def replication_joined_def enter_def Let_def)
next
  case (journal_end st)
  then show ?case by (cases "spc st") (auto simp: session_inv_def channels_ok_def)
qed (auto simp: session_inv_def)

lemma session_runs_inv:
  assumes "session_step\<^sup>*\<^sup>* st st'" and "session_inv st"
  shows "session_inv st'"
  using assms by (induction rule: rtranclp_induct) (auto intro: session_step_inv)

text \<open>
  C22: The loop of a session never closes a closed channel and never sends on one, whatever
  packets arrive and however the goroutines are scheduled.  When it is about to receive, the
  handling of no packet and no return can panic on a channel; a packet it passes to the
  journal always has a worker, also during an overflow and when the client asks for a scan in
  the middle of another; and no packet is left in a journal queue without a worker.
\<close>

theorem session_channels:
  assumes "session_step\<^sup>*\<^sup>* (session_start received s) st" and "GetState s = StateWriting"
  shows "(spc st = Receive \<longrightarrow> leave st \<noteq> None \<and> (\<forall>packet. dispatch packet st \<noteq> None)) \<and>
    (\<forall>packet. spc st = ToJournal packet \<longrightarrow> journalWorker st \<and> \<not> journalClosed st) \<and>
    (\<forall>packet. spc st = ToReplication packet \<longrightarrow> \<not> replicationClosed st) \<and>
    (spc st = JoinJournal True \<longrightarrow> journal_joined True st \<noteq> None) \<and>
    (journalWorker st \<or> journalQueue st = [])"
proof -
  have "session_inv (session_start received s)" using assms(2) by (simp add: session_inv_def session_start_def channels_ok_def)
  then have inv: "session_inv st" by (rule session_runs_inv [OF assms(1)])
  have r: "leave st \<noteq> None" "dispatch packet st \<noteq> None" if "spc st = Receive" for packet
    using leave_inv [OF inv that] dispatch_inv [OF inv that, of packet] by auto
  have j: "journal_joined True st \<noteq> None" if "spc st = JoinJournal True"
    using inv that by (simp add: session_inv_def channels_ok_def journal_joined_def close_hashTerm_def)
  have k: "journalWorker st \<and> \<not> journalClosed st" if "spc st = ToJournal packet" for packet
    using inv that by (simp add: session_inv_def channels_ok_def)
  have l: "\<not> replicationClosed st" if "spc st = ToReplication packet" for packet
    using inv that by (simp add: session_inv_def channels_ok_def)
  show ?thesis using r j k l inv by (simp add: session_inv_def)
qed

subsection \<open>Replication blocks without a replication\<close>

definition is_replication :: "Packet result \<Rightarrow> bool" where
  "is_replication r \<longleftrightarrow> (\<exists>packet. r = Inr packet \<and> PacketTypeOf packet = PacketTypePayloadReplicationBlock)"

lemma is_replication_Inr [simp]:
  "is_replication (Inr packet) = (PacketTypeOf packet = PacketTypePayloadReplicationBlock)" "\<not> is_replication (Inl e)"
  by (simp_all add: is_replication_def)

definition no_replication_start :: "Packet result list \<Rightarrow> bool" where
  "no_replication_start rs \<longleftrightarrow> (\<forall>packet. Inr packet \<in> set rs \<longrightarrow>
     PacketTypeOf packet \<notin> {PacketTypeInfoStartReplication, PacketTypeInfoReplicationCompleted})"

text \<open>Without workers the replication blocks that were received are in the queue, and one may wait in front of it.\<close>

definition blocks_in :: "session \<Rightarrow> nat" where
  "blocks_in st = length (replicationQueue st) + (case spc st of ToReplication packet \<Rightarrow> 1 | _ \<Rightarrow> 0)"

lemma blocks_in_frame [simp]:
  "blocks_in (st\<lparr>ssrv := s\<rparr>) = blocks_in st" "blocks_in (st\<lparr>sin := ps\<rparr>) = blocks_in st"
  "blocks_in (st\<lparr>writeQueue := q\<rparr>) = blocks_in st" "blocks_in (st\<lparr>writing := w\<rparr>) = blocks_in st"
  "blocks_in (st\<lparr>journalQueue := q\<rparr>) = blocks_in st" "blocks_in (st\<lparr>journalWorker := b\<rparr>) = blocks_in st"
  "blocks_in (st\<lparr>correctQueue := q\<rparr>) = blocks_in st" "blocks_in (st\<lparr>hashPass := h\<rparr>) = blocks_in st"
  by (simp_all add: blocks_in_def split: session_pc.split)

definition unreplicated :: "Packet result list \<Rightarrow> session \<Rightarrow> bool" where
  "unreplicated received st \<longleftrightarrow> \<not> replicationWorker st \<and> no_replication_start (sin st) \<and>
     length (replicationQueue st) \<le> PacketQueueSize \<and> (\<forall>starts. spc st \<noteq> JoinReplication starts) \<and>
     (\<exists>taken. received = taken @ sin st \<and> length (filter is_replication taken) \<le> Suc PacketQueueSize \<and>
        (spc st \<noteq> Panicked \<longrightarrow> length (filter is_replication taken) = blocks_in st) \<and>
        (length (filter is_replication taken) = Suc PacketQueueSize \<longrightarrow> taken \<noteq> [] \<and> is_replication (last taken)))"

lemma unreplicatedE:
  assumes "unreplicated received st" and "spc st = Receive" and "sin st = r # rest"
  obtains taken where "received = (taken @ [r]) @ rest" and "length (filter is_replication taken) = length (replicationQueue st)"
    and "length (replicationQueue st) \<le> PacketQueueSize" and "\<not> replicationWorker st"
    and "no_replication_start rest" and "no_replication_start [r]"
  using assms by (auto simp: unreplicated_def blocks_in_def no_replication_start_def)

lemma unreplicatedI:
  assumes "received = (taken @ [r]) @ sin st" and "length (filter is_replication taken) + (if is_replication r then 1 else 0) = blocks_in st"
    and "length (filter is_replication taken) \<le> PacketQueueSize" and "length (replicationQueue st) \<le> PacketQueueSize"
    and "\<not> replicationWorker st" and "no_replication_start (sin st)" and "\<forall>starts. spc st \<noteq> JoinReplication starts"
  shows "unreplicated received st"
  unfolding unreplicated_def using assms by (intro conjI exI [of _ "taken @ [r]"]) (auto split: if_splits)

lemma unreplicated_dispatch:
  assumes "unreplicated received st" and "spc st = Receive" and "sin st = Inr packet # rest" and "dispatch packet (st\<lparr>sin := rest\<rparr>) = Some st'"
  shows "unreplicated received st'"
proof -
  obtain taken where t: "received = (taken @ [Inr packet]) @ rest" "length (filter is_replication taken) = length (replicationQueue st)"
    "length (replicationQueue st) \<le> PacketQueueSize" "\<not> replicationWorker st" "no_replication_start rest" "no_replication_start [Inr packet]"
    by (rule unreplicatedE [OF assms(1-3)])
  have p: "PacketTypeOf packet \<noteq> PacketTypeInfoStartReplication" "PacketTypeOf packet \<noteq> PacketTypeInfoReplicationCompleted"
    using t(6) by (auto simp: no_replication_start_def)
  have "sin st' = rest \<and> replicationQueue st' = replicationQueue st \<and> \<not> replicationWorker st' \<and> (\<forall>starts. spc st' \<noteq> JoinReplication starts) \<and>
      blocks_in st' = length (replicationQueue st) + (if is_replication (Inr packet) then 1 else 0)"
    using assms(2,4) p t(4) by (cases "PacketTypeOf packet")
      (auto simp: dispatch_def Let_def close_journal_def close_hashTerm_def enter_def blocks_in_def simp del: blocks_in_frame split: if_split_asm)
  then show ?thesis using t by (intro unreplicatedI [of _ taken "Inr packet"]) auto
qed

lemma unreplicated_frame [simp]:
  "unreplicated received (st\<lparr>ssrv := s\<rparr>) = unreplicated received st"
  "unreplicated received (st\<lparr>writeQueue := q\<rparr>) = unreplicated received st" "unreplicated received (st\<lparr>writing := w\<rparr>) = unreplicated received st"
  "unreplicated received (st\<lparr>journalQueue := q\<rparr>) = unreplicated received st" "unreplicated received (st\<lparr>journalWorker := b\<rparr>) = unreplicated received st"
  "unreplicated received (st\<lparr>correctQueue := q\<rparr>) = unreplicated received st" "unreplicated received (st\<lparr>hashPass := h\<rparr>) = unreplicated received st"
  "unreplicated received (st\<lparr>journalClosed := b\<rparr>) = unreplicated received st" "unreplicated received (st\<lparr>hashTermClosed := b\<rparr>) = unreplicated received st"
  "unreplicated received (st\<lparr>replicationClosed := b\<rparr>) = unreplicated received st"
  by (simp_all add: unreplicated_def blocks_in_def split: session_pc.split)

lemma unreplicated_pc:
  assumes "unreplicated received st" and "pc = Panicked \<or> (\<forall>packet. spc st \<noteq> ToReplication packet)"
    and "\<forall>packet. pc \<noteq> ToReplication packet" and "\<forall>starts. pc \<noteq> JoinReplication starts" and "spc st \<noteq> Panicked"
  shows "unreplicated received (st\<lparr>spc := pc\<rparr>)"
proof -
  have "blocks_in (st\<lparr>spc := pc\<rparr>) = blocks_in st" if "pc \<noteq> Panicked"
    using assms(2,3) that by (auto simp: blocks_in_def split: session_pc.splits)
  then show ?thesis using assms unfolding unreplicated_def by fastforce
qed

lemma unreplicated_left:
  assumes "unreplicated received st" and "spc st = Receive" and "leave st = Some st'"
  shows "unreplicated received st'"
  using assms unreplicated_pc [of received st Leaving]
  by (auto simp: leave_def close_hashTerm_def close_journal_def close_replication_def bind_eq_Some_conv split: if_splits)
    (simp add: unreplicated_def blocks_in_def)

lemma unreplicated_error:
  assumes "unreplicated received st" and "spc st = Receive" and "sin st = Inl err # rest"
  shows "unreplicated received (st\<lparr>sin := rest\<rparr>)"
  by (rule unreplicatedE [OF assms]) (rule unreplicatedI, use assms(2) in \<open>auto simp: blocks_in_def\<close>)

lemma unreplicated_step:
  assumes "session_step st st'" and "unreplicated received st"
  shows "unreplicated received st'"
  using assms
proof (induction rule: session_step.induct)
  case (terminate st)
  then show ?case using unreplicated_left [of received st] unreplicated_pc [of received st Panicked]
    by (auto simp: or_panic_def split: option.split)
next
  case (receive st packet rest)
  then show ?case using unreplicated_dispatch [OF receive.prems receive.hyps(1,3)] unreplicated_pc [OF receive.prems, of Panicked] receive.hyps(1)
    by (auto simp: or_panic_def split: option.split)
next
  case (closed st err rest)
  then show ?case using unreplicated_left [OF unreplicated_error [OF closed.prems closed.hyps(1,3)]] unreplicated_pc [OF closed.prems, of Panicked]
    by (auto simp: or_panic_def split: option.split)
next
  case (garbled st err rest)
  then show ?case by (intro unreplicated_error)
next
  case (pass_start st r s)
  then show ?case using unreplicated_pc [of received st Panicked] by (simp split: sum.split)
next
  case (to_replication st packet)
  then show ?case using unreplicated_pc [of received st Panicked] by (auto simp: unreplicated_def blocks_in_def)
next
  case (to_journal st packet)
  then show ?case using unreplicated_pc [of received st Panicked] unreplicated_pc [of received "st\<lparr>journalQueue := journalQueue st @ [packet]\<rparr>" Receive]
    by simp
next
  case (to_write st packet)
  then show ?case using unreplicated_pc [of received "st\<lparr>writeQueue := writeQueue st @ [packet]\<rparr>" Receive] by simp
next
  case (to_correct st packet)
  then show ?case using unreplicated_pc [of received "st\<lparr>correctQueue := correctQueue st @ [packet]\<rparr>" Receive] by simp
next
  case (join_journal st starts)
  let ?st = "st\<lparr>journalQueue := [], journalClosed := False, journalWorker := starts\<rparr>"
  have "unreplicated received (?st\<lparr>ssrv := s, spc := Receive\<rparr>)" "unreplicated received (?st\<lparr>hashTermClosed := True, spc := JoinHash\<rparr>)"
    "unreplicated received (st\<lparr>spc := Panicked\<rparr>)" for s
    using join_journal by (auto intro!: unreplicated_pc)
  then show ?case by (auto simp: journal_joined_def or_panic_def close_hashTerm_def Let_def split: sum.split prod.split)
next
  case (join_hash st)
  then show ?case by (auto simp: hash_joined_def intro!: unreplicated_pc)
next
  case (left st)
  then show ?case by (auto intro!: unreplicated_pc)
next
  case (join_replication st starts)
  then show ?case unfolding unreplicated_def by blast
next
  case (write_do st packet elapsed r s)
  then show ?case using unreplicated_pc [of received st Panicked] by simp
next
  case (journal_work st packet rest r s)
  then show ?case using unreplicated_pc [of received st Panicked] by simp
next
  case (replication_work st packet rest)
  then show ?case by (simp add: unreplicated_def)
next
  case (replication_end st)
  then show ?case by (simp add: unreplicated_def)
qed simp_all

text \<open>The input that is left once so many blocks have been taken.\<close>

lemma replication_left:
  assumes e: "pre @ after = taken @ rest" and b: "length (filter P pre) = n" and t: "length (filter P taken) \<le> n"
    "length (filter P taken) = n \<longrightarrow> taken \<noteq> [] \<and> P (last taken)"
  shows "\<exists>left. rest = left @ after"
proof (cases "length taken \<le> length pre")
  case True
  have "rest = drop (length taken) (pre @ after)" by (simp add: e)
  then show ?thesis using True by (intro exI [of _ "drop (length taken) pre"]) simp
next
  case False
  then obtain us where us: "taken = pre @ us" "us \<noteq> []"
    using e append_take_drop_id [of "length pre" taken] that [of "drop (length pre) taken"] by (simp add: append_eq_append_conv_if)
  then have "length (filter P taken) = n + length (filter P us)" using b by simp
  then have z: "length (filter P us) = 0" "P (last taken)" using t by linarith+
  have "last us \<in> set us" "P (last us)" using us z(2) by simp_all
  then show ?thesis using z(1) by (simp add: filter_empty_conv)
qed

text \<open>
  C29: A session that gets replication blocks but no start of a replication blocks forever.
  Nothing takes them from their queue, so the loop waits with the ninth; no packet after it
  is ever received, whatever the goroutines do, and the loop does not notice a request to
  stop.  This is what a client sends after it has reconnected in the middle of a full
  replication: it asks for a scan, and its goroutine \<^verbatim>\<open>InitReplication\<close> goes on sending blocks
  on the new connection.
\<close>

theorem replication_deadlock:
  assumes "session_step\<^sup>*\<^sup>* (session_start (before @ Inr block # after) s) st"
    and "no_replication_start (before @ Inr block # after)"
    and "length (filter is_replication before) = PacketQueueSize" and "PacketTypeOf block = PacketTypePayloadReplicationBlock"
  shows "(\<exists>left. sin st = left @ after) \<and>
    (sin st = after \<longrightarrow> spc st = Panicked \<or>
       (\<exists>packet. spc st = ToReplication packet) \<and> length (replicationQueue st) = PacketQueueSize \<and> \<not> replicationWorker st)"
proof -
  let ?received = "before @ Inr block # after" and ?c = "\<lambda>rs. length (filter is_replication rs)"
  have "unreplicated ?received (session_start ?received s)"
    using assms(2) by (simp add: unreplicated_def session_start_def blocks_in_def)
  with assms(1) have u: "unreplicated ?received st" by (induction rule: rtranclp_induct) (auto intro: unreplicated_step)
  then obtain taken where t: "?received = taken @ sin st" "?c taken \<le> Suc PacketQueueSize" "spc st \<noteq> Panicked \<longrightarrow> ?c taken = blocks_in st"
      "?c taken = Suc PacketQueueSize \<longrightarrow> taken \<noteq> [] \<and> is_replication (last taken)" by (auto simp: unreplicated_def)
  define pre where "pre = before @ [Inr block]"
  have e: "pre @ after = taken @ sin st" using t(1) by (simp add: pre_def)
  have b: "?c pre = Suc PacketQueueSize" using assms(3,4) by (simp add: pre_def)
  have left: "\<exists>left. sin st = left @ after" by (rule replication_left [OF e b t(2,4)])
  have "(\<exists>packet. spc st = ToReplication packet) \<and> length (replicationQueue st) = PacketQueueSize \<and> \<not> replicationWorker st"
    if "sin st = after" "spc st \<noteq> Panicked"
  proof -
    have "taken = pre" using e that(1) by simp
    then have "blocks_in st = Suc PacketQueueSize" using t(3) that(2) b by (simp only: simp_thms)
    moreover have "length (replicationQueue st) \<le> PacketQueueSize" "\<not> replicationWorker st" using u by (simp_all add: unreplicated_def)
    ultimately show ?thesis by (cases "spc st") (simp_all add: blocks_in_def)
  qed
  then show ?thesis using left by blast
qed

text \<open>An example: nine blocks arrive in a session without a replication.\<close>

lemma take_blocks:
  assumes "spc st = Receive" and "\<not> CheckTermination (ssrv st)" and "\<not> replicationClosed st" and "sin st = map Inr ps @ rest"
    and "\<forall>p \<in> set ps. PacketTypeOf p = PacketTypePayloadReplicationBlock" and "length (replicationQueue st) + length ps \<le> PacketQueueSize"
  shows "session_step\<^sup>*\<^sup>* st (st\<lparr>sin := rest, replicationQueue := replicationQueue st @ ps\<rparr>)"
  using assms
proof (induction ps arbitrary: st)
  case Nil
  then have "st\<lparr>sin := rest, replicationQueue := replicationQueue st @ []\<rparr> = st" by (cases st) simp
  then show ?case by (simp only: rtranclp.rtrancl_refl)
next
  case (Cons p ps)
  let ?st1 = "st\<lparr>sin := map Inr ps @ rest, spc := ToReplication p\<rparr>"
  let ?st2 = "st\<lparr>sin := map Inr ps @ rest, replicationQueue := replicationQueue st @ [p]\<rparr>"
  have 1: "session_step st ?st1"
    using session_step.receive [of st p "map Inr ps @ rest"] Cons.prems by (simp add: dispatch_def or_panic_def Let_def)
  have "session_step ?st1 (?st1\<lparr>replicationQueue := replicationQueue st @ [p], spc := Receive\<rparr>)"
    using session_step.to_replication [of ?st1 p] Cons.prems(3,6) by simp
  moreover have "?st1\<lparr>replicationQueue := replicationQueue st @ [p], spc := Receive\<rparr> = ?st2" using Cons.prems(1) by (cases st) simp
  ultimately have 2: "session_step ?st1 ?st2" by (simp only:)
  have "session_step\<^sup>*\<^sup>* ?st2 (st\<lparr>sin := rest, replicationQueue := replicationQueue st @ p # ps\<rparr>)"
    using Cons.IH [of ?st2] Cons.prems by simp
  then show ?case using 1 2 by (metis converse_rtranclp_into_rtranclp)
qed

definition demo_replication :: Packet where
  "demo_replication = \<lparr>PacketTypeOf = PacketTypePayloadReplicationBlock, PayloadOf = PReplication \<lparr>rbOffset = 0, rbSize = 1, rbData = [1]\<rparr>\<rparr>"

theorem replication_deadlock_witness:
  "\<exists>st. session_step\<^sup>*\<^sup>* (session_start (replicate PacketQueueSize (Inr demo_replication) @ [Inr demo_replication]) demo_server) st \<and>
     (\<exists>packet. spc st = ToReplication packet) \<and> length (replicationQueue st) = PacketQueueSize \<and> \<not> replicationWorker st"
proof -
  define q :: "Packet result list" where "q = replicate PacketQueueSize (Inr demo_replication)"
  define st0 where "st0 = session_start (q @ [Inr demo_replication]) demo_server"
  have t: "PacketTypeOf demo_replication = PacketTypePayloadReplicationBlock" by (simp add: demo_replication_def)
  have s: "\<not> CheckTermination demo_server" by (simp add: CheckTermination_def demo_server_def)
  have st0: "spc st0 = Receive" "\<not> CheckTermination (ssrv st0)" "\<not> replicationClosed st0" "replicationQueue st0 = []"
    "sin st0 = map Inr (replicate PacketQueueSize demo_replication) @ [Inr demo_replication]"
    using s by (simp_all add: st0_def session_start_def q_def map_replicate)
  let ?st = "st0\<lparr>sin := [Inr demo_replication], replicationQueue := replicationQueue st0 @ replicate PacketQueueSize demo_replication\<rparr>"
  let ?st' = "?st\<lparr>sin := [], spc := ToReplication demo_replication\<rparr>"
  have "session_step\<^sup>*\<^sup>* st0 ?st" by (rule take_blocks) (use st0 t in simp_all)
  moreover have "session_step ?st ?st'"
    using session_step.receive [of ?st demo_replication "[]"] st0(1,2) by (simp add: t dispatch_def or_panic_def)
  ultimately have run: "session_step\<^sup>*\<^sup>* st0 ?st'" by (metis rtranclp.rtrancl_into_rtrancl)
  have "no_replication_start (q @ [Inr demo_replication])" "length (filter is_replication q) = PacketQueueSize"
    using t by (auto simp: no_replication_start_def q_def filter_replicate split: if_splits)
  then have "(\<exists>packet. spc ?st' = ToReplication packet) \<and> length (replicationQueue ?st') = PacketQueueSize \<and> \<not> replicationWorker ?st'"
    using replication_deadlock [of q demo_replication "[]" demo_server ?st'] run t by (simp add: st0_def)
  then show ?thesis using run unfolding st0_def q_def by blast
qed

theorem session_channels_witness:
  "\<exists>st. session_step\<^sup>*\<^sup>* (session_start [Inr (CreateInfoPacket PacketTypeCmdStartHashing)] (SetState StateWriting demo_server)) st \<and>
     spc st = JoinJournal True \<and> journal_joined True st \<noteq> None"
proof -
  define s where "s = SetState StateWriting demo_server"
  have s: "GetState s = StateWriting" "\<not> CheckTermination s" by (simp_all add: s_def GetState_def CheckTermination_def SetState_def demo_server_def)
  let ?in = "[Inr (CreateInfoPacket PacketTypeCmdStartHashing)]"
  let ?st = "(session_start ?in s)\<lparr>ssrv := SetState StateHashing s, sin := [], journalClosed := True, spc := JoinJournal True\<rparr>"
  have "session_step (session_start ?in s) ?st"
    using session_step.receive [of "session_start ?in s" "CreateInfoPacket PacketTypeCmdStartHashing" "[]"] s(2)
    by (simp add: session_start_def CreateInfoPacket_def dispatch_def or_panic_def close_journal_def enter_def)
  then have "session_step\<^sup>*\<^sup>* (session_start ?in s) ?st" by (rule r_into_rtranclp)
  then show ?thesis using session_channels [of ?in s ?st] s(1) unfolding s_def [symmetric] by (intro exI [of _ ?st]) simp
qed

end
