(* ===== verification/Session_Scan.thy ===== *)
theory Session_Scan
  imports Session
begin

text \<open>
  A scan as a session runs it, with its queue, its journal worker and its waits, refines the
  sequential handlers of the journal; and what happens to the writes that are still queued
  when a scan begins.
\<close>

subsection \<open>A scan in a session\<close>

text \<open>What the journal handlers do depends only on the disks and the state.\<close>

definition same_result :: "unit result \<times> Server \<Rightarrow> unit result \<times> Server \<Rightarrow> bool" where
  "same_result x y \<longleftrightarrow> fst x = fst y \<and> same_disks (snd x) (snd y)"

lemma same_result_refl [simp]: "same_result x x"
  by (simp add: same_result_def)

lemma same_result_trans: "same_result x y \<Longrightarrow> same_result y z \<Longrightarrow> same_result x z"
  by (simp add: same_result_def same_disks_def)

lemma journal_append_same:
  assumes "same_disks s t"
  shows "same_result (WriteBufferWriteToJournal w s) (WriteBufferWriteToJournal w t)"
    and "same_result (WriteCorrectBlockToJournal b s) (WriteCorrectBlockToJournal b t)"
  using assms by (auto simp: WriteBufferWriteToJournal_def WriteCorrectBlockToJournal_def same_disks_def same_result_def
      split: option.splits prod.splits sum.splits)

lemma journal_overflow_same: "same_result x y \<Longrightarrow> same_result (journal_overflow x) (journal_overflow y)"
  by (cases x; cases y) (auto simp: same_result_def journal_overflow_def same_disks_def SetState_def SendPacket_def split: sum.splits list.splits option.splits)

lemma same_resultE:
  assumes "same_result x y"
  obtains r s t where "x = (r, s)" and "y = (r, t)" and "same_disks s t"
  using assms by (cases x; cases y) (simp add: same_result_def)

lemma HandleJournal_same:
  assumes "same_disks s t"
  shows "same_result (HandleJournalBufferWrite p s) (HandleJournalBufferWrite p t)"
    and "same_result (HandleJournalCorrectBlock p s) (HandleJournalCorrectBlock p t)"
proof -
  have "same_result (HandleJournalBufferWrite p s) (HandleJournalBufferWrite p t)" if "PayloadOf p = PWrite w" for w
    by (rule same_resultE [OF journal_append_same(1) [OF assms, of w]]) (simp add: HandleJournalBufferWrite_def that same_result_def split: sum.split)
  then show "same_result (HandleJournalBufferWrite p s) (HandleJournalBufferWrite p t)"
    using assms by (cases "PayloadOf p") (simp_all add: HandleJournalBufferWrite_def same_result_def)
  have "same_result (HandleJournalCorrectBlock p s) (HandleJournalCorrectBlock p t)" if "PayloadOf p = PCorrect b" for b
    by (rule same_resultE [OF journal_append_same(2) [OF assms, of b]]) (simp add: HandleJournalCorrectBlock_def that same_result_def split: sum.split)
  then show "same_result (HandleJournalCorrectBlock p s) (HandleJournalCorrectBlock p t)"
    using assms by (cases "PayloadOf p") (simp_all add: HandleJournalCorrectBlock_def same_result_def)
qed

lemma HandleJournalPacket_same:
  assumes "same_disks s t"
  shows "same_result (HandleJournalPacket p s) (HandleJournalPacket p t)"
proof -
  note w = journal_overflow_same [OF HandleJournal_same(1) [OF assms, of p]] and b = journal_overflow_same [OF HandleJournal_same(2) [OF assms, of p]]
  have "same_result (Inr (), s) (Inr (), t)" using assms by (simp add: same_result_def)
  then show ?thesis using w b by (simp add: HandleJournalPacket_def same_state [OF assms] split: PacketType.split)
qed

lemma HandleJournalPackets_same: "same_disks s t \<Longrightarrow> same_result (HandleJournalPackets ps s) (HandleJournalPackets ps t)"
proof (induction ps arbitrary: s t)
  case (Cons p ps)
  obtain r s1 where s1: "HandleJournalPacket p s = (r, s1)" by fastforce
  obtain q t1 where t1: "HandleJournalPacket p t = (q, t1)" by fastforce
  have "r = q" "same_disks s1 t1" using HandleJournalPacket_same [OF Cons.prems, of p] s1 t1 by (simp_all add: same_result_def)
  then show ?case using Cons.IH [of s1 t1] by (simp add: s1 t1 same_result_def split: sum.split)
qed (simp add: same_result_def)

lemma WriteJournalToReplica_same:
  assumes "same_disks s t"
  shows "same_result (WriteJournalToReplica s) (WriteJournalToReplica t)"
proof (cases "SrvJournal t")
  case None
  then show ?thesis using assms by (simp add: WriteJournalToReplica_def same_disks_def same_result_def)
next
  case (Some j0)
  have d: "SrvJournal s = Some j0" "JournalDev s = JournalDev t" "TargetDevFd s = TargetDevFd t" "sstate s = sstate t"
    using assms Some by (simp_all add: same_disks_def)
  obtain v j jd0 where v: "Validate j0 (JournalDev t) = (v, j, jd0)" by (metis prod_cases3)
  obtain r1 jd1 td1 where 1: "for_slots (apply_block j) (unat (CorrectOffset j)) 0 jd0 (TargetDevFd t) = (r1, jd1, td1)" by (metis prod_cases3)
  obtain r2 jd2 td2 where 2: "for_slots (apply_write j) (unat (WriteOffset j)) 0 jd1 (snd (Sync td1)) = (r2, jd2, td2)" by (metis prod_cases3)
  obtain r3 j2 jd3 where 3: "Invalidate j jd2 = (r3, j2, jd3)" by (metis prod_cases3)
  show ?thesis unfolding WriteJournalToReplica_def d Some option.case v Let_def prod.case 1
    by (cases r1; cases r2; cases r3) (simp_all add: 2 3 same_result_def same_disks_def d(4))
qed

lemma HandleJournalWriting_same:
  assumes "same_disks s t"
  shows "same_result (HandleJournalWriting s) (HandleJournalWriting t)"
proof -
  obtain r s1 t1 where r: "WriteJournalToReplica s = (r, s1)" "WriteJournalToReplica t = (r, t1)" "same_disks s1 t1"
    by (rule same_resultE [OF WriteJournalToReplica_same [OF assms]])
  then show ?thesis using assms by (simp add: HandleJournalWriting_def same_state [OF assms] same_result_def split: sum.split)
qed

text \<open>
  The relation that every step keeps.  While packets of the scan arrive, handling what is
  queued, what the loop holds and what is still to come gives the result of handling all of
  them; after the completion that holds for what is queued; in the end the journal has been
  applied.  Once the loop leaves there is nothing to show.
\<close>

definition journal_packet :: "Packet \<Rightarrow> bool" where
  "journal_packet p \<longleftrightarrow> PacketTypeOf p \<in> {PacketTypePayloadBufferWrite, PacketTypePayloadCorrectBlock}"

definition scan_completed :: "Packet result" where
  "scan_completed = Inr (CreateInfoPacket PacketTypeInfoHashingCompleted)"

definition collecting :: "Server \<Rightarrow> bool" where
  "collecting s \<longleftrightarrow> GetState s = StateHashing \<or> GetState s = StateJournalOverflow"

definition quiet :: "session \<Rightarrow> bool" where
  "quiet st \<longleftrightarrow> writeQueue st = [] \<and> writing st = None \<and> correctQueue st = [] \<and> \<not> replicationWorker st \<and>
     hashPass st \<noteq> PassStarts \<and> channels_ok st"

definition scan_arrives :: "unit result \<times> Server \<Rightarrow> session \<Rightarrow> Packet list \<Rightarrow> bool" where
  "scan_arrives goal st q \<longleftrightarrow> quiet st \<and> journalWorker st \<and> collecting (ssrv st) \<and>
     (\<exists>ps. sin st = map Inr ps @ [scan_completed] \<and> list_all journal_packet ps \<and> same_result (HandleJournalPackets (q @ ps) (ssrv st)) goal)"

definition scan_joins :: "unit result \<times> Server \<Rightarrow> session \<Rightarrow> bool" where
  "scan_joins goal st \<longleftrightarrow> quiet st \<and> sin st = [] \<and> collecting (ssrv st) \<and> (journalWorker st \<or> journalQueue st = []) \<and>
     same_result (HandleJournalPackets (journalQueue st) (ssrv st)) goal"

definition scan_done :: "unit result \<times> Server \<Rightarrow> session \<Rightarrow> bool" where
  "scan_done goal st \<longleftrightarrow> quiet st \<and> sin st = [] \<and> \<not> journalWorker st \<and> fst goal = Inr () \<and>
     same_disks (ssrv st) (SetState StateWriting (snd (HandleJournalWriting (snd goal))))"

definition leaves :: "session \<Rightarrow> bool" where
  "leaves st \<longleftrightarrow> spc st = Leaving \<or> spc st = Ended \<or> spc st = Panicked"

definition scan_sim :: "unit result \<times> Server \<Rightarrow> session \<Rightarrow> bool" where
  "scan_sim goal st \<longleftrightarrow> leaves st \<or> (case spc st of
     Receive \<Rightarrow> scan_arrives goal st (journalQueue st) \<or> scan_done goal st
   | ToJournal p \<Rightarrow> scan_arrives goal st (journalQueue st @ [p])
   | JoinJournal starts \<Rightarrow> \<not> starts \<and> scan_joins goal st
   | _ \<Rightarrow> False)"

lemma leaves_step:
  assumes "session_step st st'" and "leaves st"
  shows "leaves st'"
  using assms by (induction rule: session_step.induct) (auto simp: leaves_def split: sum.split)

lemma leave_leaves: "leaves (or_panic st (leave st1))"
  by (auto simp: leaves_def or_panic_def leave_def bind_eq_Some_conv split: option.split)

text \<open>The relation depends on the server only through its disks and its state.\<close>

lemma same_disks_trans: "same_disks s t \<Longrightarrow> same_disks t u \<Longrightarrow> same_disks s u"
  by (simp add: same_disks_def)

lemma collecting_same: "same_disks s t \<Longrightarrow> collecting s = collecting t"
  by (simp add: collecting_def same_state)

lemma scan_sim_same:
  assumes "scan_sim goal st" and "same_disks s (ssrv st)"
  shows "scan_sim goal (st\<lparr>ssrv := s\<rparr>)"
proof -
  have h: "same_result (HandleJournalPackets ps s) goal" if "same_result (HandleJournalPackets ps (ssrv st)) goal" for ps
    using HandleJournalPackets_same [OF assms(2)] that by (rule same_result_trans)
  have a: "scan_arrives goal (st\<lparr>ssrv := s\<rparr>) q" if "scan_arrives goal st q" for q
    using that h by (auto simp: scan_arrives_def quiet_def collecting_same [OF assms(2)])
  have j: "scan_joins goal (st\<lparr>ssrv := s\<rparr>)" if "scan_joins goal st"
    using that h by (auto simp: scan_joins_def quiet_def collecting_same [OF assms(2)])
  have d: "scan_done goal (st\<lparr>ssrv := s\<rparr>)" if "scan_done goal st"
    using that same_disks_trans [OF assms(2)] by (auto simp: scan_done_def quiet_def)
  show ?thesis using assms(1) a j d by (cases "spc st") (auto simp: scan_sim_def leaves_def)
qed

lemma scan_sim_pass: "scan_sim goal st \<Longrightarrow> scan_sim goal (st\<lparr>hashPass := NoPass\<rparr>)"
  by (cases "spc st") (auto simp: scan_sim_def leaves_def scan_arrives_def scan_joins_def scan_done_def quiet_def)

text \<open>The steps of the loop and of the journal worker.\<close>

lemma arrives_receive:
  assumes "scan_arrives goal st (journalQueue st)" and "spc st = Receive" and "sin st = Inr packet # rest"
  shows "scan_sim goal (or_panic st (dispatch packet (st\<lparr>sin := rest\<rparr>)))"
proof -
  obtain ps where a: "quiet st" "journalWorker st" "collecting (ssrv st)" "sin st = map Inr ps @ [scan_completed]" "list_all journal_packet ps"
      "same_result (HandleJournalPackets (journalQueue st @ ps) (ssrv st)) goal" using assms(1) by (auto simp: scan_arrives_def)
  have open_: "\<not> journalClosed st" "\<not> replicationClosed st" "\<not> hashTermClosed st" using a(1) assms(2) by (simp_all add: quiet_def channels_ok_def)
  show ?thesis
  proof (cases ps)
    case Nil
    then have p: "packet = CreateInfoPacket PacketTypeInfoHashingCompleted" "rest = []" using a(4) assms(3) by (simp_all add: scan_completed_def)
    have "dispatch packet (st\<lparr>sin := rest\<rparr>) = Some (st\<lparr>sin := [], journalClosed := True, spc := JoinJournal False\<rparr>)"
      using open_ by (simp add: dispatch_def p CreateInfoPacket_def close_journal_def)
    moreover have "scan_joins goal (st\<lparr>sin := [], journalClosed := True, spc := JoinJournal False\<rparr>)"
      using a Nil open_ by (simp add: scan_joins_def quiet_def channels_ok_def)
    ultimately show ?thesis by (simp add: or_panic_def scan_sim_def)
  next
    case (Cons q qs)
    then have p: "packet = q" "rest = map Inr qs @ [scan_completed]" "journal_packet packet" using a(4,5) assms(3) by auto
    show ?thesis
    proof (cases "GetState (ssrv st) = StateHashing")
      case True
      have "dispatch packet (st\<lparr>sin := rest\<rparr>) = Some (st\<lparr>sin := rest, spc := ToJournal packet\<rparr>)"
        using p(3) True by (auto simp: dispatch_def journal_packet_def)
      moreover have "scan_arrives goal (st\<lparr>sin := rest, spc := ToJournal packet\<rparr>) (journalQueue st @ [packet])"
        using a Cons p open_ by (auto simp: scan_arrives_def quiet_def channels_ok_def)
      ultimately show ?thesis by (simp add: or_panic_def scan_sim_def)
    next
      case False
      then have o: "GetState (ssrv st) = StateJournalOverflow" using a(3) by (simp add: collecting_def)
      have "dispatch packet (st\<lparr>sin := rest\<rparr>) = Some (st\<lparr>sin := rest\<rparr>)"
        using p(3) o by (auto simp: dispatch_def journal_packet_def)
      moreover have "scan_arrives goal (st\<lparr>sin := rest\<rparr>) (journalQueue st)"
        using a Cons p by (auto simp: scan_arrives_def quiet_def HandleJournalPackets_overflown [OF o])
      ultimately show ?thesis using assms(2) by (simp add: or_panic_def scan_sim_def)
    qed
  qed
qed

lemma joins_applies:
  assumes "scan_joins goal st" and "\<not> journalWorker st" and "spc st = JoinJournal False"
  shows "scan_sim goal (or_panic st (journal_joined False st))"
proof (cases "HandleJournalWriting (ssrv st)")
  case (Pair r s)
  have g: "fst goal = Inr ()" "same_disks (ssrv st) (snd goal)" using assms(1,2) by (auto simp: scan_joins_def same_result_def)
  have "same_disks s (snd (HandleJournalWriting (snd goal)))" using HandleJournalWriting_same [OF g(2)] Pair by (simp add: same_result_def)
  then have d: "same_disks (SetState StateWriting s) (SetState StateWriting (snd (HandleJournalWriting (snd goal))))"
    by (simp add: same_disks_def SetState_def)
  show ?thesis
  proof (cases r)
    case (Inl e)
    then show ?thesis by (simp add: journal_joined_def Pair or_panic_def scan_sim_def leaves_def)
  next
    case (Inr u)
    then show ?thesis using assms d g(1)
      by (simp add: journal_joined_def Pair or_panic_def scan_sim_def scan_done_def scan_joins_def quiet_def channels_ok_def)
  qed
qed

lemma journal_work_sim:
  assumes "scan_sim goal st" and "spc st \<noteq> Panicked" and "journalWorker st" and "journalQueue st = packet # rest" and "HandleJournalPacket packet (ssrv st) = (Inr (), s)"
  shows "scan_sim goal (st\<lparr>ssrv := s, journalQueue := rest\<rparr>)"
proof -
  have c: "collecting s" if "collecting (ssrv st)" using journal_work_state [OF assms(5)] that by (auto simp: collecting_def)
  have a: "scan_arrives goal (st\<lparr>ssrv := s, journalQueue := rest\<rparr>) (rest @ q)" if "scan_arrives goal st (journalQueue st @ q)" for q
    using that assms(3-5) c by (auto simp: scan_arrives_def quiet_def)
  have j: "scan_joins goal (st\<lparr>ssrv := s, journalQueue := rest\<rparr>)" if "scan_joins goal st"
    using that assms(3-5) c by (auto simp: scan_joins_def quiet_def)
  have "\<not> scan_done goal st" using assms(3) by (simp add: scan_done_def)
  then show ?thesis using assms(1) a [of "[]"] a j by (cases "spc st") (auto simp: scan_sim_def leaves_def)
qed

lemma scan_simE:
  assumes "scan_sim goal st" and "\<not> leaves st"
  obtains (arrives) "spc st = Receive" "scan_arrives goal st (journalQueue st)"
  | (finished) "spc st = Receive" "scan_done goal st"
  | (holds) p where "spc st = ToJournal p" "scan_arrives goal st (journalQueue st @ [p])"
  | (joins) "spc st = JoinJournal False" "scan_joins goal st"
  using assms by (cases "spc st") (auto simp: scan_sim_def)

lemma scan_sim_quiet: "scan_sim goal st \<Longrightarrow> \<not> leaves st \<Longrightarrow> quiet st"
  by (erule (1) scan_simE) (simp_all add: scan_arrives_def scan_joins_def scan_done_def)

lemma scan_sim_step:
  assumes "session_step st st'" and "scan_sim goal st" and "\<not> leaves st"
  shows "scan_sim goal st'"
  using assms
proof (induction rule: session_step.induct)
  case (terminate st)
  then show ?case using leave_leaves by (simp add: scan_sim_def)
next
  case (receive st packet rest)
  from receive.prems show ?case
  proof (cases rule: scan_simE)
    case arrives
    then show ?thesis using receive.hyps by (intro arrives_receive)
  qed (use receive.hyps in \<open>auto simp: scan_done_def\<close>)
next
  case (closed st err rest)
  then show ?case using leave_leaves by (simp add: scan_sim_def)
next
  case (garbled st err rest)
  from garbled.prems show ?case
  proof (cases rule: scan_simE)
    case arrives
    then show ?thesis using garbled.hyps(3) by (auto simp: scan_arrives_def scan_completed_def Cons_eq_append_conv map_eq_Cons_conv)
  qed (use garbled.hyps in \<open>auto simp: scan_done_def\<close>)
next
  case (to_journal st packet)
  from to_journal.prems show ?case
  proof (cases rule: scan_simE)
    case (holds p)
    then show ?thesis using to_journal.hyps(1)
      by (auto simp: scan_sim_def leaves_def scan_arrives_def quiet_def channels_ok_def)
  qed (use to_journal.hyps in auto)
next
  case (join_journal st starts)
  from join_journal.prems show ?case
  proof (cases rule: scan_simE)
    case joins
    then show ?thesis using join_journal.hyps joins_applies by simp
  qed (use join_journal.hyps in auto)
next
  case (journal_work st packet rest r s)
  show ?case
  proof (cases "r = Inr ()")
    case True
    then show ?thesis using journal_work journal_work_sim [of goal st packet rest s] by simp
  next
    case False
    then show ?thesis by (simp add: scan_sim_def leaves_def)
  qed
next
  case (journal_end st)
  from journal_end.prems show ?case
  proof (cases rule: scan_simE)
    case joins
    then show ?thesis using journal_end.hyps(3) by (simp add: scan_sim_def scan_joins_def quiet_def)
  qed (use journal_end.hyps in \<open>auto simp: scan_arrives_def scan_done_def quiet_def channels_ok_def\<close>)
next
  case (pass_end st elapsed numWorkers results)
  then show ?case by (intro scan_sim_pass scan_sim_same) simp_all
next
  case (signal st)
  then show ?case by (intro scan_sim_same) simp_all
next
  case (left st)
  then show ?case by (simp add: leaves_def)
next
  case (write_take st packet rest)
  then show ?case using scan_sim_quiet by (fastforce simp: quiet_def)
next
  case (write_do st packet elapsed r s)
  then show ?case using scan_sim_quiet by (fastforce simp: quiet_def)
next
  case (correct_work st packet rest)
  then show ?case using scan_sim_quiet by (fastforce simp: quiet_def)
next
  case (replication_work st packet rest)
  then show ?case using scan_sim_quiet by (fastforce simp: quiet_def)
next
  case (replication_end st)
  then show ?case using scan_sim_quiet by (fastforce simp: quiet_def)
next
  case (pass_start st r s)
  then show ?case using scan_sim_quiet by (fastforce simp: quiet_def)
qed (auto simp: scan_sim_def)

lemma scan_sim_runs:
  assumes "session_step\<^sup>*\<^sup>* st st'" and "scan_sim goal st"
  shows "scan_sim goal st'"
  using assms
proof (induction rule: rtranclp_induct)
  case base
  then show ?case by simp
next
  case (step st1 st2)
  show ?case
  proof (cases "leaves st1")
    case True
    then show ?thesis using leaves_step [OF step.hyps(2)] by (simp add: scan_sim_def)
  next
    case False
    then show ?thesis using scan_sim_step [OF step.hyps(2)] step.IH step.prems by blast
  qed
qed

text \<open>The state of a session in which a scan arrives.\<close>

definition scan_begun :: "Packet list \<Rightarrow> session \<Rightarrow> bool" where
  "scan_begun ps st \<longleftrightarrow> spc st = Receive \<and> sin st = map Inr ps @ [scan_completed] \<and> list_all journal_packet ps \<and>
     GetState (ssrv st) = StateHashing \<and> session_inv st \<and> journalQueue st = [] \<and>
     writeQueue st = [] \<and> writing st = None \<and> correctQueue st = [] \<and> \<not> replicationWorker st \<and> hashPass st \<noteq> PassStarts"

lemma scan_begun_sim: "scan_begun ps st \<Longrightarrow> scan_sim (HandleJournalPackets ps (ssrv st)) st"
  by (auto simp: scan_begun_def scan_sim_def scan_arrives_def quiet_def session_inv_def collecting_def)

text \<open>
  C11: A session applies a scan as the sequential handlers do.  The server collects: it is in
  \<^verbatim>\<open>StateHashing\<close>, \<^verbatim>\<open>HashDisk\<close> has reset the journal, nothing is queued, and blocks and writes \<open>ps\<close>
  arrive, then the completion.  However the loop, the journal worker and \<^verbatim>\<open>HashDisk\<close> interleave
  and however full the queue gets, when the loop has handled the completion and waits for the
  next packet, the replica, the journal and the state are those of handling \<open>ps\<close> one after the
  other and then applying the journal; also when the journal overflows in the middle.
\<close>

theorem session_scan_refines:
  assumes "scan_begun ps st" and "session_step\<^sup>*\<^sup>* st st'" and "spc st' = Receive" and "sin st' = []"
  shows "\<exists>s2. HandleJournalPackets ps (ssrv st) = (Inr (), s2) \<and>
    same_disks (ssrv st') (SetState StateWriting (snd (HandleJournalWriting s2)))"
proof -
  let ?goal = "HandleJournalPackets ps (ssrv st)"
  have "scan_sim ?goal st'" by (rule scan_sim_runs [OF assms(2) scan_begun_sim [OF assms(1)]])
  moreover have "\<not> leaves st'" using assms(3) by (simp add: leaves_def)
  ultimately have "scan_done ?goal st'" using assms(3,4) by (cases rule: scan_simE) (auto simp: scan_arrives_def)
  then show ?thesis by (cases ?goal) (simp add: scan_done_def)
qed

text \<open>What is left to do in a scan.\<close>

definition remaining :: "session \<Rightarrow> nat" where
  "remaining st = 3 * length (sin st) + (case spc st of ToJournal p \<Rightarrow> 2 | JoinJournal starts \<Rightarrow> 1 | _ \<Rightarrow> 0) +
     length (journalQueue st) + (if journalWorker st then 1 else 0)"

lemma journal_work_progress:
  assumes "\<not> leaves st" and "journalWorker st" and "journalQueue st \<noteq> []"
  shows "\<exists>st'. session_step st st' \<and> (leaves st' \<or> remaining st' < remaining st)"
proof -
  obtain packet rest where q: "journalQueue st = packet # rest" using assms(3) by (cases "journalQueue st") auto
  obtain r s where h: "HandleJournalPacket packet (ssrv st) = (r, s)" by fastforce
  have "session_step st (if r = Inr () then st\<lparr>ssrv := s, journalQueue := rest\<rparr> else st\<lparr>spc := Panicked\<rparr>)"
    using assms(1,2) q h by (intro session_step.journal_work) (simp_all add: leaves_def)
  then show ?thesis using q by (cases "r = Inr ()") (fastforce simp: remaining_def leaves_def)+
qed

lemma arrives_progress:
  assumes "spc st = Receive" and "scan_arrives goal st (journalQueue st)"
  shows "\<exists>st'. session_step st st' \<and> (leaves st' \<or> remaining st' < remaining st)"
proof (cases "CheckTermination (ssrv st)")
  case True
  then show ?thesis using session_step.terminate [OF assms(1)] leave_leaves by blast
next
  case False
  obtain ps where ps: "sin st = map Inr ps @ [scan_completed]" "list_all journal_packet ps" using assms(2) by (auto simp: scan_arrives_def)
  obtain packet rest where p: "sin st = Inr packet # rest" "PacketTypeOf packet = PacketTypeInfoHashingCompleted \<or> journal_packet packet"
    using ps by (cases ps) (auto simp: scan_completed_def CreateInfoPacket_def)
  have "session_step st (or_panic st (dispatch packet (st\<lparr>sin := rest\<rparr>)))" by (rule session_step.receive [OF assms(1) False p(1)])
  moreover have "remaining (or_panic st (dispatch packet (st\<lparr>sin := rest\<rparr>))) < remaining st \<or> leaves (or_panic st (dispatch packet (st\<lparr>sin := rest\<rparr>)))"
  proof (cases "dispatch packet (st\<lparr>sin := rest\<rparr>)")
    case None
    then show ?thesis by (simp add: or_panic_def leaves_def)
  next
    case (Some st1)
    then have "remaining st1 < remaining st"
      using p assms(1) by (auto simp: dispatch_def journal_packet_def close_journal_def remaining_def Let_def split: if_splits)
    then show ?thesis using Some by (simp add: or_panic_def)
  qed
  ultimately show ?thesis by blast
qed

lemma joins_progress:
  assumes "spc st = JoinJournal False" and "scan_joins goal st"
  shows "\<exists>st'. session_step st st' \<and> (leaves st' \<or> remaining st' < remaining st)"
proof (cases "journalWorker st")
  case True
  show ?thesis
  proof (cases "journalQueue st = []")
    case empty: True
    have "session_step st (st\<lparr>journalWorker := False\<rparr>)"
      using assms True empty by (intro session_step.journal_end) (simp_all add: scan_joins_def quiet_def channels_ok_def)
    then show ?thesis using True by (fastforce simp: remaining_def)
  next
    case False
    then show ?thesis using True assms(1) by (intro journal_work_progress) (simp_all add: leaves_def)
  qed
next
  case False
  have "session_step st (or_panic st (journal_joined False st))" by (rule session_step.join_journal [OF assms(1) False])
  moreover have "remaining (or_panic st (journal_joined False st)) < remaining st \<or> leaves (or_panic st (journal_joined False st))"
    using assms(1) False by (cases "HandleJournalWriting (ssrv st)"; cases "fst (HandleJournalWriting (ssrv st))")
      (simp_all add: journal_joined_def or_panic_def remaining_def leaves_def)
  ultimately show ?thesis by blast
qed

text \<open>
  C21: A scan in a session never gets stuck: in every state that the session reaches from its
  beginning, unless it has ended or waits for a packet after the completion, some goroutine
  can take a step that leaves less to do.  In particular a full queue is always emptied by
  its worker, and the wait for the worker ends.
\<close>

theorem session_scan_progress:
  assumes "scan_begun ps st" and "session_step\<^sup>*\<^sup>* st st'" and "\<not> (spc st' = Receive \<and> sin st' = [])"
    and "spc st' \<notin> {Leaving, Ended, Panicked}"
  shows "\<exists>st''. session_step st' st'' \<and> (spc st'' \<in> {Leaving, Ended, Panicked} \<or> remaining st'' < remaining st')"
proof -
  have l: "\<not> leaves st'" using assms(4) by (simp add: leaves_def)
  have "\<exists>st''. session_step st' st'' \<and> (leaves st'' \<or> remaining st'' < remaining st')"
    using scan_sim_runs [OF assms(2) scan_begun_sim [OF assms(1)]] l
  proof (cases rule: scan_simE)
    case arrives
    then show ?thesis by (rule arrives_progress)
  next
    case finished
    then show ?thesis using assms(3) by (simp add: scan_done_def)
  next
    case (holds p)
    show ?thesis
    proof (cases "journalQueue st' = []")
      case True
      have "session_step st' (st'\<lparr>journalQueue := journalQueue st' @ [p], spc := Receive\<rparr>)"
        using session_step.to_journal [OF holds(1)] holds True by (simp add: scan_arrives_def quiet_def channels_ok_def PacketQueueSize_def)
      then show ?thesis using holds(1) by (fastforce simp: remaining_def)
    next
      case False
      then show ?thesis using l holds(2) by (intro journal_work_progress) (simp_all add: scan_arrives_def)
    qed
  next
    case joins
    then show ?thesis by (rule joins_progress)
  qed
  then show ?thesis by (auto simp: leaves_def)
qed

subsection \<open>Writes from before a scan\<close>

text \<open>A schedule of a scan that does not overflow: one packet after the other.\<close>

lemma journal_work_term:
  assumes "HandleJournalPacket packet s = (r, s')"
  shows "SrvTerm s' = SrvTerm s"
proof -
  have w: "SrvTerm (snd (WriteBufferWriteToJournal w t)) = SrvTerm t" "SrvTerm (snd (WriteCorrectBlockToJournal b t)) = SrvTerm t" for w b t
    by (auto simp: WriteBufferWriteToJournal_def WriteCorrectBlockToJournal_def split: option.splits prod.splits sum.splits)
  have h: "SrvTerm (snd (HandleJournalBufferWrite packet s)) = SrvTerm s" "SrvTerm (snd (HandleJournalCorrectBlock packet s)) = SrvTerm s"
    using w by (auto simp: HandleJournalBufferWrite_def HandleJournalCorrectBlock_def split: Payload.splits prod.splits sum.splits) (metis snd_conv)+
  have "SrvTerm (snd (SendPacket p t)) = SrvTerm t" for p t by (simp add: SendPacket_def split: list.split option.split)
  then have "SrvTerm (snd (journal_overflow rs)) = SrvTerm (snd rs)" for rs
    by (cases rs) (auto simp: journal_overflow_def SetState_def split: sum.splits)
  moreover have "snd (HandleJournalPacket packet s) \<in> {s, snd (journal_overflow (HandleJournalBufferWrite packet s)),
      snd (journal_overflow (HandleJournalCorrectBlock packet s))}" by (simp add: HandleJournalPacket_def split: PacketType.split)
  ultimately show ?thesis using assms h by (metis insertE singletonD snd_conv)
qed

lemma schedule_packet:
  assumes "spc st = Receive" and "\<not> CheckTermination (ssrv st)" and "\<not> journalClosed st" and "journalWorker st" and "journalQueue st = []"
    and "sin st = Inr p # rest" and "journal_packet p" and "GetState (ssrv st) = StateHashing" and "HandleJournalPacket p (ssrv st) = (Inr (), s)"
  shows "session_step\<^sup>*\<^sup>* st (st\<lparr>ssrv := s, sin := rest\<rparr>)"
proof -
  let ?st1 = "st\<lparr>sin := rest, spc := ToJournal p\<rparr>" and ?st2 = "st\<lparr>sin := rest, journalQueue := [p]\<rparr>"
  have 1: "session_step st ?st1"
    using session_step.receive [OF assms(1,2,6)] assms(7,8) by (auto simp: dispatch_def or_panic_def journal_packet_def)
  have "session_step ?st1 (?st1\<lparr>journalQueue := [p], spc := Receive\<rparr>)"
    using session_step.to_journal [of ?st1 p] assms(3,5) by (simp add: PacketQueueSize_def)
  moreover have "?st1\<lparr>journalQueue := [p], spc := Receive\<rparr> = ?st2" using assms(1) by (cases st) simp
  ultimately have 2: "session_step ?st1 ?st2" by (simp only:)
  have "session_step ?st2 (?st2\<lparr>ssrv := s, journalQueue := []\<rparr>)"
    using session_step.journal_work [of ?st2 p "[]" "Inr ()" s] assms(1,4,9) by simp
  moreover have "?st2\<lparr>ssrv := s, journalQueue := []\<rparr> = st\<lparr>ssrv := s, sin := rest\<rparr>" using assms(5) by (cases st) simp
  ultimately have 3: "session_step ?st2 (st\<lparr>ssrv := s, sin := rest\<rparr>)" by (simp only:)
  show ?thesis using 1 2 3 by (metis converse_rtranclp_into_rtranclp rtranclp.rtrancl_refl)
qed

lemma schedule_packets:
  assumes "spc st = Receive" and "\<not> CheckTermination (ssrv st)" and "\<not> journalClosed st" and "journalWorker st" and "journalQueue st = []"
    and "sin st = map Inr ps @ rest" and "list_all journal_packet ps" and "GetState (ssrv st) = StateHashing"
    and "HandleJournalPackets ps (ssrv st) = (Inr (), s)" and "GetState s = StateHashing"
  shows "session_step\<^sup>*\<^sup>* st (st\<lparr>ssrv := s, sin := rest\<rparr>) \<and> \<not> CheckTermination s"
  using assms
proof (induction ps arbitrary: st)
  case Nil
  then have "st\<lparr>ssrv := s, sin := rest\<rparr> = st" by (cases st) simp
  then show ?case using Nil.prems(2,9) by (simp only: rtranclp.rtrancl_refl) simp
next
  case (Cons p ps)
  from Cons.prems(9) obtain s1 where s1: "HandleJournalPacket p (ssrv st) = (Inr (), s1)" "HandleJournalPackets ps s1 = (Inr (), s)"
    by (auto split: prod.splits sum.splits)
  have h: "GetState s1 = StateHashing"
    using journal_work_state [OF s1(1)] HandleJournalPackets_overflown [of s1 ps] s1(2) Cons.prems(8,10) by auto
  have t: "\<not> CheckTermination s1" using journal_work_term [OF s1(1)] Cons.prems(2) by (simp add: CheckTermination_def)
  have "session_step\<^sup>*\<^sup>* st (st\<lparr>ssrv := s1, sin := map Inr ps @ rest\<rparr>)"
    using Cons.prems s1(1) by (intro schedule_packet [of st p]) auto
  then show ?case using Cons.IH [of "st\<lparr>ssrv := s1, sin := map Inr ps @ rest\<rparr>"] Cons.prems s1(2) h t by (auto intro: rtranclp_trans)
qed

lemma schedule_end:
  assumes "spc st = Receive" and "\<not> CheckTermination (ssrv st)" and "\<not> journalClosed st" and "journalWorker st" and "journalQueue st = []"
    and "sin st = [scan_completed]" and "HandleJournalWriting (ssrv st) = (Inr (), s)"
  shows "\<exists>st'. session_step\<^sup>*\<^sup>* st st' \<and> spc st' = Receive \<and> sin st' = [] \<and> ssrv st' = SetState StateWriting s \<and>
    writeQueue st' = writeQueue st \<and> writing st' = writing st"
proof -
  let ?st1 = "st\<lparr>sin := [], journalClosed := True, spc := JoinJournal False\<rparr>" and ?st2 = "st\<lparr>sin := [], journalClosed := True, spc := JoinJournal False, journalWorker := False\<rparr>"
  have 1: "session_step st ?st1"
    using session_step.receive [OF assms(1,2) assms(6) [unfolded scan_completed_def]] assms(3)
    by (simp add: dispatch_def or_panic_def CreateInfoPacket_def close_journal_def)
  have 2: "session_step ?st1 ?st2"
    using session_step.journal_end [of ?st1] assms(4,5) by simp
  have "session_step ?st2 (or_panic ?st2 (journal_joined False ?st2))" by (rule session_step.join_journal) simp_all
  then show ?thesis using 1 2 assms(7)
    by (intro exI [of _ "or_panic ?st2 (journal_joined False ?st2)"])
      (auto simp: journal_joined_def or_panic_def intro: converse_rtranclp_into_rtranclp)
qed

lemma schedule_scan:
  assumes "scan_begun ps (st\<lparr>writeQueue := []\<rparr>)" and "\<not> CheckTermination (ssrv st)"
    and "HandleJournalPackets ps (ssrv st) = (Inr (), s2)" and "GetState s2 = StateHashing" and "HandleJournalWriting s2 = (Inr (), s3)"
  shows "\<exists>st'. session_step\<^sup>*\<^sup>* st st' \<and> spc st' = Receive \<and> sin st' = [] \<and> ssrv st' = SetState StateWriting s3 \<and>
    writeQueue st' = writeQueue st \<and> writing st' = None"
proof -
  have b: "spc st = Receive" "sin st = map Inr ps @ [scan_completed]" "list_all journal_packet ps" "GetState (ssrv st) = StateHashing"
    "journalQueue st = []" "writing st = None" "\<not> journalClosed st" "journalWorker st"
    using assms(1) by (auto simp: scan_begun_def session_inv_def channels_ok_def)
  let ?st = "st\<lparr>ssrv := s2, sin := [scan_completed]\<rparr>"
  have 1: "session_step\<^sup>*\<^sup>* st ?st" "\<not> CheckTermination s2"
    using schedule_packets [OF b(1) assms(2) b(7,8,5,2,3,4) assms(3,4)] by auto
  obtain st' where "session_step\<^sup>*\<^sup>* ?st st'" "spc st' = Receive" "sin st' = []" "ssrv st' = SetState StateWriting s3"
      "writeQueue st' = writeQueue st" "writing st' = None"
    using schedule_end [of ?st s3] b 1(2) assms(5) by auto
  then show ?thesis using rtranclp_trans [OF 1(1)] by blast
qed

text \<open>
  C30: A write that was queued before a scan may be applied after it.  \<^verbatim>\<open>HandleWritePackets\<close>
  drops the writes it takes while the scan runs, but nothing waits for its queue: if the
  worker is slow, it takes an old write only when the scan is over and the state is
  \<^verbatim>\<open>StateWriting\<close> again, and puts old data over the replica that the scan has just made equal
  to the source.
\<close>

theorem stale_write_applied:
  assumes "scan_begun ps (st\<lparr>writeQueue := []\<rparr>)" and "writeQueue st = [write_packet w]" and "\<not> CheckTermination (ssrv st)"
    and "HandleJournalPackets ps (ssrv st) = (Inr (), s2)" and "GetState s2 = StateHashing" and "HandleJournalWriting s2 = (Inr (), s3)"
    and "write_on (length (dev_bytes (TargetDevFd s3))) w"
  shows "\<exists>st'. session_step\<^sup>*\<^sup>* st st' \<and> spc st' = Receive \<and> sin st' = [] \<and>
    dev_bytes (TargetDevFd (ssrv st')) = overwrite (fst (write_op w)) (snd (write_op w)) (dev_bytes (TargetDevFd s3))"
proof -
  obtain st1 where 1: "session_step\<^sup>*\<^sup>* st st1" "spc st1 = Receive" "sin st1 = []" "ssrv st1 = SetState StateWriting s3"
      "writeQueue st1 = [write_packet w]" "writing st1 = None"
    using schedule_scan [OF assms(1,3-6)] assms(2) by auto
  let ?s = "SetState StateWriting s3" and ?st2 = "st1\<lparr>writeQueue := [], writing := Some (write_packet w)\<rparr>"
  have 2: "session_step st1 ?st2" using session_step.write_take [of st1 "write_packet w" "[]"] 1 by simp
  have td: "TargetDevFd ?s = TargetDevFd s3" by (simp add: SetState_def)
  obtain s' where s': "HandleWritePacket 0 (write_packet w) ?s = Some (Inr (), s')"
      "dev_bytes (TargetDevFd s') = overwrite (fst (write_op w)) (snd (write_op w)) (dev_bytes (TargetDevFd s3))"
    using HandleWritePacket_applies [of ?s w 0] assms(7) by (auto simp: td)
  have "perform_write 0 (write_packet w) ?s = Some (Inr (), s')" using s'(1) by (simp add: HandleWritePacket_def)
  then have 3: "session_step ?st2 (?st2\<lparr>ssrv := s', writing := None\<rparr>)"
    using session_step.write_do [of ?st2 "write_packet w" 0 "Inr ()" s'] 1(2,4) by simp
  have "session_step\<^sup>*\<^sup>* st (?st2\<lparr>ssrv := s', writing := None\<rparr>)" using 1(1) 2 3 by (metis rtranclp.rtrancl_into_rtrancl)
  then show ?thesis using 1(2,3) s'(2) by (intro exI [of _ "?st2\<lparr>ssrv := s', writing := None\<rparr>"]) simp
qed

text \<open>An example: a replica of three bytes, a journal with two slots for writes.\<close>

lemma demo_session:
  obtains st s2 s3 where "scan_begun [write_packet demo_update] (st\<lparr>writeQueue := []\<rparr>)" and "writeQueue st = q" and "\<not> CheckTermination (ssrv st)"
    and "HandleJournalPackets [write_packet demo_update] (ssrv st) = (Inr (), s2)" and "GetState s2 = StateHashing"
    and "HandleJournalWriting s2 = (Inr (), s3)" and "dev_bytes (TargetDevFd s3) = [0, 7, 8]"
proof -
  obtain s h where s: "scan_ready s h" "journal_slots h" "unat (bufWritesCount h) = 2" "unat (corrBlocksCount h) = 1"
    "TargetDevFd s = TargetDevFd demo_scan" "GetState s = StateHashing" "sendFaults s = []" by (rule demo_scan_ready) blast
  obtain s1 h1 where s1: "logged s1 h1 [] []" "h1 = setInvalidFlag h" "TargetDevFd s1 = TargetDevFd s" "GetState s1 = StateHashing"
    using HashDisk_start_resets [OF s(1,6,7)] by blast
  define t where "t = s1\<lparr>SrvTerm := False\<rparr>"
  have t: "logged t h1 [] []" "TargetDevFd t = TargetDevFd demo_scan" "GetState t = StateHashing" "\<not> CheckTermination t"
    using s1 s(5) by (simp_all add: t_def logged_def GetState_def CheckTermination_def)
  have td: "healthy (TargetDevFd demo_scan)" "dev_bytes (TargetDevFd demo_scan) = [0, 0, 0]"
    by (simp_all add: demo_scan_def demo_blank_def healthy_def)
  have h1: "journal_slots h1" "unat (bufWritesCount h1) = 2" using s(2,3) s1(2) by (simp_all add: journal_slots_def setInvalidFlag_def)
  have c: "captured 3 demo_update" by (simp add: captured_def demo_update_def)
  obtain s2 where s2: "HandleJournalPackets [write_packet demo_update] t = (Inr (), s2)" "logged s2 h1 [demo_update] []"
      "TargetDevFd s2 = TargetDevFd demo_scan" "GetState s2 = StateHashing"
    using HandleJournalPackets_logs [OF t(1), of "[write_packet demo_update]"] captured_logs(1) [OF h1(1) c] t(2,3) h1(2)
    by (auto simp: GetState_def)
  obtain s3 where s3: "HandleJournalWriting s2 = (Inr (), s3)" "dev_bytes (TargetDevFd s3) = replay [write_op demo_update] [0, 0, 0]"
    using HandleJournalWriting_replays [OF s2(2) _ _ s2(4) h1(1)] captured_logs(2) [OF h1(1) c] td by (auto simp: s2(3) numeral_3_eq_3)
  have r: "replay [write_op demo_update] [0, 0, 0] = [0, 7, 8]" by (simp add: write_op_def demo_update_def overwrite_def)
  let ?st = "(session_start [Inr (write_packet demo_update), scan_completed] t)\<lparr>journalWorker := True, hashPass := PassRuns, writeQueue := q\<rparr>"
  have "scan_begun [write_packet demo_update] (?st\<lparr>writeQueue := []\<rparr>)"
    using t(3) by (simp add: scan_begun_def session_start_def session_inv_def channels_ok_def journal_packet_def write_packet_def)
  then show ?thesis using that [of ?st s2 s3] t(4) s2(1,4) s3 r by (simp add: session_start_def)
qed

theorem session_scan_refines_witness:
  "\<exists>ps st st'. scan_begun ps st \<and> session_step\<^sup>*\<^sup>* st st' \<and> spc st' = Receive \<and> sin st' = [] \<and>
     dev_bytes (TargetDevFd (ssrv st')) = [0, 7, 8]"
proof -
  obtain st s2 s3 where d: "scan_begun [write_packet demo_update] (st\<lparr>writeQueue := []\<rparr>)" "writeQueue st = []"
      "\<not> CheckTermination (ssrv st)" "HandleJournalPackets [write_packet demo_update] (ssrv st) = (Inr (), s2)"
      "GetState s2 = StateHashing" "HandleJournalWriting s2 = (Inr (), s3)" "dev_bytes (TargetDevFd s3) = [0, 7, 8]"
    by (rule demo_session)
  obtain st' where st': "session_step\<^sup>*\<^sup>* st st'" "spc st' = Receive" "sin st' = []"
    using schedule_scan [OF d(1,3-6)] by blast
  have "st\<lparr>writeQueue := []\<rparr> = st" using d(2) by (cases st) simp
  then have b: "scan_begun [write_packet demo_update] st" using d(1) by simp
  have "same_disks (ssrv st') (SetState StateWriting s3)" using session_scan_refines [OF b st'] d(4,6) by simp
  then have "dev_bytes (TargetDevFd (ssrv st')) = [0, 7, 8]" using d(7) by (simp add: same_disks_def SetState_def)
  then show ?thesis using b st' by blast
qed

theorem session_scan_progress_witness:
  "\<exists>ps st st'. scan_begun ps st \<and> session_step st st' \<and> (spc st' \<in> {Leaving, Ended, Panicked} \<or> remaining st' < remaining st)"
proof -
  obtain st s2 s3 where d: "scan_begun [write_packet demo_update] (st\<lparr>writeQueue := []\<rparr>)" "writeQueue st = []"
      "\<not> CheckTermination (ssrv st)" "HandleJournalPackets [write_packet demo_update] (ssrv st) = (Inr (), s2)"
      "GetState s2 = StateHashing" "HandleJournalWriting s2 = (Inr (), s3)" "dev_bytes (TargetDevFd s3) = [0, 7, 8]"
    by (rule demo_session)
  have b: "scan_begun [write_packet demo_update] (st\<lparr>writeQueue := []\<rparr>)" by (rule d(1))
  then have "sin (st\<lparr>writeQueue := []\<rparr>) \<noteq> []" "spc (st\<lparr>writeQueue := []\<rparr>) = Receive" by (simp_all add: scan_begun_def)
  then show ?thesis using session_scan_progress [OF b rtranclp.rtrancl_refl] b by fastforce
qed

theorem stale_write_applied_witness:
  "\<exists>ps st st' s2 s3. scan_begun ps (st\<lparr>writeQueue := []\<rparr>) \<and> HandleJournalPackets ps (ssrv st) = (Inr (), s2) \<and>
     HandleJournalWriting s2 = (Inr (), s3) \<and> dev_bytes (TargetDevFd s3) = [0, 7, 8] \<and>
     session_step\<^sup>*\<^sup>* st st' \<and> spc st' = Receive \<and> sin st' = [] \<and> dev_bytes (TargetDevFd (ssrv st')) = [0, 9, 8]"
proof -
  let ?w = "demo_update\<lparr>wiSize := 1, wiData := [9]\<rparr>"
  obtain st s2 s3 where d: "scan_begun [write_packet demo_update] (st\<lparr>writeQueue := []\<rparr>)" "writeQueue st = [write_packet ?w]"
      "\<not> CheckTermination (ssrv st)" "HandleJournalPackets [write_packet demo_update] (ssrv st) = (Inr (), s2)"
      "GetState s2 = StateHashing" "HandleJournalWriting s2 = (Inr (), s3)" "dev_bytes (TargetDevFd s3) = [0, 7, 8]"
    by (rule demo_session)
  have w: "write_on (length (dev_bytes (TargetDevFd s3))) ?w" by (simp add: d(7) write_on_def demo_update_def)
  have o: "overwrite (fst (write_op ?w)) (snd (write_op ?w)) [0, 7, 8] = [0, 9, 8]"
    by (simp add: write_op_def demo_update_def overwrite_def)
  obtain st' where "session_step\<^sup>*\<^sup>* st st'" "spc st' = Receive" "sin st' = []" "dev_bytes (TargetDevFd (ssrv st')) = [0, 9, 8]"
    using stale_write_applied [OF d(1-6) w] d(7) o by auto
  then show ?thesis using d(1,4,6,7) by blast
qed

end
