(* ===== verification/Kernel_Module.thy ===== *)
theory Kernel_Module
  imports Kernel "HOL-Library.Multiset"
begin

text \<open>
  Loading and unloading the kernel module and the life of a target (\<^verbatim>\<open>kern/main.c\<close>): what the
  module acquires from the kernel and when it gives it back, the minor numbers of the
  character devices, and the mapping of the buffer into user space.  Whether a call into the
  kernel succeeds enters as an argument.
\<close>

subsection \<open>What the module holds\<close>

text \<open>
  A resource of the kernel.  A range of device numbers is named by its first number and its
  length, a device node and a character device by their number.
\<close>

datatype resource =
    TargetType | DevClass | ChrdevRegion u32 u32 | MinorBits
  | Context | BackingDev | Name | RingMem | DevNode u32 | Cdev u32 | OverflowBits

text \<open>The static variables of the module, and the resources it holds.\<close>

record bdr_module =
  held :: "resource multiset"
  bdr_dev_major :: u32
  bdr_minor_bitmap :: bdr_bitmap

definition acquire :: "resource \<Rightarrow> bdr_module \<Rightarrow> bdr_module" where
  "acquire r m = m\<lparr>held := add_mset r (held m)\<rparr>"

text \<open>\<open>None\<close> is the release of what is not held: a double free.\<close>

definition release :: "resource \<Rightarrow> bdr_module \<Rightarrow> bdr_module option" where
  "release r m = (if r \<in># held m then Some (m\<lparr>held := held m - {#r#}\<rparr>) else None)"

text \<open>
  \<^verbatim>\<open>unregister_chrdev_region\<close> looks for a range with this first number and this length, and
  does nothing when there is none.
\<close>

definition unregister_chrdev_region :: "u32 \<Rightarrow> u32 \<Rightarrow> bdr_module \<Rightarrow> bdr_module" where
  "unregister_chrdev_region from cnt m = m\<lparr>held := held m - {#ChrdevRegion from cnt#}\<rparr>"

definition MKDEV :: "u32 \<Rightarrow> u32 \<Rightarrow> u32" where
  "MKDEV major minor = or (push_bit 20 major) minor"

definition MAJOR :: "u32 \<Rightarrow> u32" where
  "MAJOR dev = drop_bit 20 dev"

definition MINOR :: "u32 \<Rightarrow> u32" where
  "MINOR dev = and dev (2 ^ 20 - 1)"

definition BDR_MAX_DEVICES :: u32 where
  "BDR_MAX_DEVICES = 64"

subsection \<open>Loading and unloading\<close>

definition err_class :: "errno \<Rightarrow> bdr_module \<Rightarrow> (errno option \<times> bdr_module) option" where
  "err_class e m = map_option (Pair (Some e)) (release TargetType m)"

definition err_region :: "errno \<Rightarrow> bdr_module \<Rightarrow> (errno option \<times> bdr_module) option" where
  "err_region e m = Option.bind (release DevClass m) (err_class e)"

text \<open>
  \<^verbatim>\<open>bdr_init\<close> with its ladder of labels: the arguments are the results of
  \<^verbatim>\<open>dm_register_target\<close>, of \<^verbatim>\<open>class_create\<close>, of \<^verbatim>\<open>alloc_chrdev_region\<close> (an error or the first
  number), and whether the bitmap could be allocated.
\<close>

definition bdr_init :: "errno option \<Rightarrow> errno option \<Rightarrow> errno + u32 \<Rightarrow> bool \<Rightarrow> bdr_module \<Rightarrow> (errno option \<times> bdr_module) option" where
  "bdr_init register create region alloc m = (case register of
     Some e \<Rightarrow> Some (Some e, m)
   | None \<Rightarrow> let m1 = acquire TargetType m in (case create of
       Some e \<Rightarrow> err_class e m1
     | None \<Rightarrow> let m2 = acquire DevClass m1 in (case region of
         Inl e \<Rightarrow> err_region e m2
       | Inr dev \<Rightarrow> let m3 = (acquire (ChrdevRegion dev BDR_MAX_DEVICES) m2)\<lparr>bdr_dev_major := dev\<rparr> in
           (case bdr_bitmap_init alloc BDR_MAX_DEVICES of
             Inl e \<Rightarrow> err_region e (unregister_chrdev_region dev BDR_MAX_DEVICES m3)
           | Inr bm \<Rightarrow> Some (None, acquire MinorBits (m3\<lparr>bdr_minor_bitmap := bm\<rparr>))))))"

definition bdr_exit :: "bdr_module \<Rightarrow> bdr_module option" where
  "bdr_exit m = Option.bind (release DevClass m) (\<lambda>m1. Option.bind (release TargetType m1) (\<lambda>m2.
     Some (unregister_chrdev_region (bdr_dev_major m2) BDR_MAX_DEVICES m2)))"

subsection \<open>The life of a target\<close>

text \<open>The context with the number of its character device.\<close>

record bdr_target = bdr_context +
  chardev_num :: u32

text \<open>
  \<^verbatim>\<open>bdr_chardev_init\<close>: the first two arguments are the errors of \<^verbatim>\<open>device_create\<close> and of
  \<^verbatim>\<open>cdev_add\<close>.  The result is an error or the number of the device.
\<close>

definition bdr_chardev_init :: "errno option \<Rightarrow> errno option \<Rightarrow> bdr_module \<Rightarrow> ((errno + u32) \<times> bdr_module) option" where
  "bdr_chardev_init create add m = (case bdr_bitmap_allocate (bdr_minor_bitmap m) of
     (Inl e, bm) \<Rightarrow> Some (Inl ENOMEM, m)
   | (Inr minor, bm) \<Rightarrow>
       let num = MKDEV (MAJOR (bdr_dev_major m)) (of_nat minor);
           m1 = m\<lparr>bdr_minor_bitmap := bm\<rparr>;
           err_device = (\<lambda>e m. (Inl e, m\<lparr>bdr_minor_bitmap := bdr_bitmap_free (of_nat minor) (bdr_minor_bitmap m)\<rparr>))
       in (case create of
         Some e \<Rightarrow> Some (err_device e m1)
       | None \<Rightarrow> let m2 = acquire (DevNode num) m1 in (case add of
           Some e \<Rightarrow> map_option (err_device e) (release (DevNode num) m2)
         | None \<Rightarrow> Some (Inr num, acquire (Cdev num) m2))))"

definition bdr_chardev_destroy :: "u32 \<Rightarrow> bdr_module \<Rightarrow> bdr_module option" where
  "bdr_chardev_destroy num m =
     (let m1 = m\<lparr>bdr_minor_bitmap := bdr_bitmap_free (MINOR num) (bdr_minor_bitmap m)\<rparr>
      in Option.bind (release (DevNode num) m1) (\<lambda>m2. Option.bind (release (Cdev num) m2) (\<lambda>m3.
         Some (unregister_chrdev_region num 1 m3))))"

text \<open>Freeing the buffer and the bitmap; a pointer that is \<^verbatim>\<open>NULL\<close> is left alone.\<close>

definition bdr_ring_buffer_free :: "bytes option \<Rightarrow> bdr_module \<Rightarrow> (bytes option \<times> bdr_module) option" where
  "bdr_ring_buffer_free buffer m = (case buffer of
     None \<Rightarrow> Some (None, m)
   | Some b \<Rightarrow> map_option (Pair None) (release RingMem m))"

definition bdr_bitmap_destroy :: "bdr_bitmap \<Rightarrow> bdr_module \<Rightarrow> bdr_module option" where
  "bdr_bitmap_destroy bm m = (case bm_bits bm of None \<Rightarrow> Some m | Some bits \<Rightarrow> release OverflowBits m)"

text \<open>The labels of \<^verbatim>\<open>bdr_target_ctr\<close>, each of which falls through to the one before.\<close>

definition err_get_dev :: "bdr_module \<Rightarrow> bdr_module option" where
  "err_get_dev m = release Context m"

definition err_name :: "bdr_module \<Rightarrow> bdr_module option" where
  "err_name m = Option.bind (release BackingDev m) err_get_dev"

definition err_scanf_buffer :: "bdr_module \<Rightarrow> bdr_module option" where
  "err_scanf_buffer m = Option.bind (release Name m) err_name"

definition err_chardev :: "bdr_ring_buffer \<Rightarrow> bdr_module \<Rightarrow> bdr_module option" where
  "err_chardev rb m = Option.bind (bdr_ring_buffer_free (Some (rb_buffer rb)) m) (\<lambda>(buffer, m1). err_scanf_buffer m1)"

definition err_bitmap :: "u32 \<Rightarrow> bdr_ring_buffer \<Rightarrow> bdr_module \<Rightarrow> bdr_module option" where
  "err_bitmap num rb m = Option.bind (bdr_chardev_destroy num m) (err_chardev rb)"

text \<open>
  What the kernel answers to one run of the constructor: whether it could allocate the
  context, find the backing device and copy the name, what \<^verbatim>\<open>sscanf\<close> read as the number of
  writes, the memory for the buffer, the errors of the character device, the capacity of the
  backing device in sectors, and whether the bitmap could be allocated.
\<close>

record ctr_env =
  kz :: bool
  get_dev :: "errno option"
  strdup :: bool
  scanned :: "u32 option"
  vmalloc :: "u64 \<Rightarrow> bytes option"
  device_create :: "errno option"
  cdev_add :: "errno option"
  capacity :: u64
  bm_alloc :: bool

text \<open>
  The constructor: the return value, with \<open>None\<close> for 0, and the context that was stored in
  the target.  The return value of the branch where the number of writes is rejected is that
  of the last call that succeeded, 0.
\<close>

definition bdr_target_ctr :: "nat \<Rightarrow> ctr_env \<Rightarrow> bdr_module \<Rightarrow> (errno option \<times> bdr_target option \<times> bdr_module) option" where
  "bdr_target_ctr argc env m =
     (let fails = (\<lambda>ret. map_option (\<lambda>m'. (ret, None, m'))) in
      if argc \<noteq> 3 then Some (Some EINVAL, None, m)
      else if \<not> kz env then Some (Some ENOMEM, None, m)
      else let m1 = acquire Context m in case get_dev env of
        Some e \<Rightarrow> fails (Some e) (err_get_dev m1)
      | None \<Rightarrow> let m2 = acquire BackingDev m1 in
        if \<not> strdup env then fails (Some ENOMEM) (err_name m2)
        else let m3 = acquire Name m2 in
        if scanned env = None \<or> scanned env = Some 0 then fails None (err_scanf_buffer m3)
        else case bdr_ring_buffer_init (vmalloc env) (the (scanned env)) of
          Inl e \<Rightarrow> fails (Some e) (err_scanf_buffer m3)
        | Inr rb \<Rightarrow> Option.bind (bdr_chardev_init (device_create env) (cdev_add env) (acquire RingMem m3)) (\<lambda>(r, m4).
          case r of
            Inl e \<Rightarrow> fails (Some e) (err_chardev rb m4)
          | Inr num \<Rightarrow>
            (case bdr_bitmap_init (bm_alloc env) (ucast (drop_bit BDR_BLOCK_SIZE_SHIFT (capacity env))) of
               Inl e \<Rightarrow> fails (Some e) (err_bitmap num rb m4)
             | Inr bm \<Rightarrow> Some (None, Some \<lparr>ring_buf = rb, overflow_bm = bm, status = ACTIVE, chardev_num = num\<rparr>,
                 acquire OverflowBits m4))))"

text \<open>
  The destructor gets what the constructor stored in the target, which is \<^verbatim>\<open>NULL\<close> when it stored
  nothing; it dereferences the pointer at once, so that \<open>None\<close> is also the fault this causes.
\<close>

definition bdr_target_dtr :: "bdr_target option \<Rightarrow> bdr_module \<Rightarrow> bdr_module option" where
  "bdr_target_dtr ti_private m = Option.bind ti_private (\<lambda>bc.
     Option.bind (bdr_chardev_destroy (chardev_num bc) m) (\<lambda>m1.
     Option.bind (release BackingDev m1) (\<lambda>m2.
     Option.bind (bdr_ring_buffer_free (Some (rb_buffer (ring_buf bc))) m2) (\<lambda>(buffer, m3).
     Option.bind (bdr_bitmap_destroy (overflow_bm bc) m3) (\<lambda>m4.
     Option.bind (release Name m4) (release Context))))))"

subsection \<open>Mapping the buffer\<close>

text \<open>An open character device; \<^verbatim>\<open>bdr_chardev_open\<close> finds the context by the device's number.\<close>

record bdr_file =
  private_data :: "bdr_target option"

definition bdr_chardev_open :: "bdr_target \<Rightarrow> bdr_file \<Rightarrow> bdr_file" where
  "bdr_chardev_open bc filp = filp\<lparr>private_data := Some bc\<rparr>"

text \<open>
  The loop of \<^verbatim>\<open>bdr_chardev_mmap\<close>: \<open>remap\<close> is the result of \<^verbatim>\<open>remap_pfn_range\<close> at an address of
  user space; the pages are pairs of such an address and an offset in the buffer.
\<close>

function mmap_pages :: "(u64 \<Rightarrow> errno option) \<Rightarrow> u64 \<Rightarrow> nat \<Rightarrow> nat \<Rightarrow> errno option \<times> (u64 \<times> nat) list" where
  "mmap_pages remap vm_start rb_size offset =
     (if offset < rb_size
      then case remap (vm_start + of_nat offset) of
          Some e \<Rightarrow> (Some e, [])
        | None \<Rightarrow> (case mmap_pages remap vm_start rb_size (offset + PAGE_SIZE) of
              (ret, pages) \<Rightarrow> (ret, (vm_start + of_nat offset, offset) # pages))
      else (None, []))"
  by pat_completeness auto
termination
  by (relation "measure (\<lambda>(remap, vm_start, rb_size, offset). rb_size - offset)") (simp_all add: PAGE_SIZE_def)

declare mmap_pages.simps [simp del]

text \<open>
  The size of the area, \<open>mapped_size\<close>, is only compared to print a warning.  The buffer of a
  context is there since the constructor has allocated it.
\<close>

definition bdr_chardev_mmap :: "(u64 \<Rightarrow> errno option) \<Rightarrow> u64 \<Rightarrow> u64 \<Rightarrow> bdr_file \<Rightarrow> errno option \<times> (u64 \<times> nat) list" where
  "bdr_chardev_mmap remap vm_start vm_end filp = (case private_data filp of
     None \<Rightarrow> (Some EINVAL, [])
   | Some bc \<Rightarrow> mmap_pages remap vm_start (unat (bdr_ring_buffer_get_byte_size (ring_buf bc))) 0)"

lemma mmap_pages_maps:
  "(\<And>a. remap a = None) \<Longrightarrow> \<exists>pages. mmap_pages remap vm_start rb_size offset = (None, pages) \<and>
   (\<forall>a n. (a, n) \<in> set pages \<longleftrightarrow> (\<exists>i. n = offset + i * 4096 \<and> n < rb_size \<and> a = vm_start + of_nat n))"
proof (induction remap vm_start rb_size offset rule: mmap_pages.induct)
  case (1 remap vm_start rb_size offset)
  show ?case
  proof (cases "offset < rb_size")
    case True
    obtain pages where p: "mmap_pages remap vm_start rb_size (offset + PAGE_SIZE) = (None, pages)"
      "\<forall>a n. (a, n) \<in> set pages \<longleftrightarrow> (\<exists>i. n = offset + PAGE_SIZE + i * 4096 \<and> n < rb_size \<and> a = vm_start + of_nat n)"
      using "1.IH" [OF True "1.prems" "1.prems"] by blast
    have i: "(\<exists>i. n = offset + i * 4096 \<and> P) \<longleftrightarrow> n = offset \<and> P \<or> (\<exists>i. n = offset + PAGE_SIZE + i * 4096 \<and> P)" for n P
      by (metis PAGE_SIZE_def add.assoc add.right_neutral mult_Suc mult_zero_left not0_implies_Suc)
    let ?pages = "(vm_start + of_nat offset, offset) # pages"
    have "(a, n) \<in> set ?pages \<longleftrightarrow> (\<exists>i. n = offset + i * 4096 \<and> n < rb_size \<and> a = vm_start + of_nat n)" for a n
      by (simp only: i list.set insert_iff p(2) prod.inject) (use True in blast)
    moreover have "mmap_pages remap vm_start rb_size offset = (None, ?pages)" using True p(1) "1.prems" by (subst mmap_pages.simps) simp
    ultimately show ?thesis by blast
  next
    case False
    then show ?thesis by (subst mmap_pages.simps) auto
  qed
qed

subsection \<open>Minor numbers\<close>

text \<open>The bitmap in which exactly the minor numbers of a set are taken.\<close>

definition minor_bits :: "nat set \<Rightarrow> bdr_bitmap" where
  "minor_bits M = \<lparr>bm_bits = Some (map (\<lambda>k. k \<in> M) [0..<64]), bm_max_bits = 64\<rparr>"

lemma minor_bits_init: "bdr_bitmap_init alloc BDR_MAX_DEVICES = (if alloc then Inr (minor_bits {}) else Inl ENOMEM)"
  by (simp add: bdr_bitmap_init_def BDR_MAX_DEVICES_def BITS_TO_LONGS_def minor_bits_def map_replicate_const)

lemma find_first_zero_bit_clear: "find_first_zero_bit bits n < n \<Longrightarrow> n \<le> length bits \<Longrightarrow> \<not> bits ! find_first_zero_bit bits n"
  by (induction bits n rule: find_first_zero_bit.induct) (auto split: if_splits)

lemma bits_update: "k < 64 \<Longrightarrow> (map (\<lambda>j. j \<in> M) [0..<64])[k := b] = map (\<lambda>j. j \<in> (if b then insert k M else M - {k})) [0..<64]"
  by (rule nth_equalityI) (auto simp: nth_list_update)

lemma minor_bits_allocate:
  "bdr_bitmap_allocate (minor_bits M) = (Inl ENOSPC, minor_bits M) \<or>
   (\<exists>k < 64. k \<notin> M \<and> bdr_bitmap_allocate (minor_bits M) = (Inr k, minor_bits (insert k M)))"
proof -
  let ?bits = "map (\<lambda>k. k \<in> M) [0..<64]"
  define k where "k = find_first_zero_bit ?bits 64"
  have a: "bdr_bitmap_allocate (minor_bits M) = (if k \<ge> 64 then (Inl ENOSPC, minor_bits M) else (Inr k, \<lparr>bm_bits = Some (?bits[k := True]), bm_max_bits = 64\<rparr>))"
    by (simp add: bdr_bitmap_allocate_def minor_bits_def k_def Let_def)
  show ?thesis
  proof (cases "k < 64")
    case True
    then have "\<not> ?bits ! k" unfolding k_def by (rule find_first_zero_bit_clear) simp
    then have "k \<notin> M" using True by simp
    then show ?thesis using True a bits_update [OF True, of M True] by (simp add: minor_bits_def)
  next
    case False
    then show ?thesis by (simp add: a)
  qed
qed

lemma unat_minor: "k < 64 \<Longrightarrow> unat (of_nat k :: u32) = k"
  by (simp add: unat_of_nat)

lemma minor_bits_free: "k < 64 \<Longrightarrow> bdr_bitmap_free (of_nat k) (minor_bits M) = minor_bits (M - {k})"
proof -
  assume k: "k < 64"
  have u: "unat (of_nat k :: u32) = k" using k by (rule unat_minor)
  have "(ucast (of_nat k :: u32) :: u64) < 64" using k by (simp add: word_less_nat_alt u)
  then show ?thesis using bits_update [OF k, of M False] by (simp add: bdr_bitmap_free_def minor_bits_def u)
qed

lemma MINOR_MKDEV: "k < 64 \<Longrightarrow> MINOR (MKDEV major (of_nat k)) = of_nat k"
proof -
  assume k: "k < 64"
  have u: "unat (of_nat k :: u32) = k" using k by (rule unat_minor)
  have "take_bit 20 (of_nat k :: u32) = of_nat k"
    using k by (simp add: word_unat_eq_iff unsigned_take_bit_eq u take_bit_nat_eq_self)
  moreover have "MINOR dev = take_bit 20 dev" for dev by (simp add: MINOR_def take_bit_eq_mask mask_eq_decr_exp)
  ultimately show ?thesis by (simp add: MKDEV_def take_bit_or take_bit_push_bit)
qed

subsection \<open>The constructor and the destructor\<close>

text \<open>What a target holds.\<close>

definition target_holds :: "u32 \<Rightarrow> resource multiset" where
  "target_holds num = {#Context, BackingDev, Name, RingMem, DevNode num, Cdev num, OverflowBits#}"

text \<open>The module when the minor numbers in a set are taken; no range has length 1.\<close>

definition serving :: "nat set \<Rightarrow> bdr_module \<Rightarrow> bool" where
  "serving M m \<longleftrightarrow> bdr_minor_bitmap m = minor_bits M \<and> (\<forall>num. ChrdevRegion num 1 \<notin># held m)"

lemma chardev_init_outcome:
  assumes "serving M m"
  shows "(\<exists>e. bdr_chardev_init create add m = Some (Inl e, m)) \<or>
    (\<exists>k < 64. k \<notin> M \<and> (let num = MKDEV (MAJOR (bdr_dev_major m)) (of_nat k) in
       bdr_chardev_init create add m = Some (Inr num, m\<lparr>bdr_minor_bitmap := minor_bits (insert k M),
         held := add_mset (Cdev num) (add_mset (DevNode num) (held m))\<rparr>)))"
proof -
  have b: "bdr_minor_bitmap m = minor_bits M" using assms by (simp add: serving_def)
  show ?thesis
  proof (cases "bdr_bitmap_allocate (minor_bits M) = (Inl ENOSPC, minor_bits M)")
    case True
    then show ?thesis by (simp add: bdr_chardev_init_def b)
  next
    case False
    then obtain k where k: "k < 64" "k \<notin> M" "bdr_bitmap_allocate (minor_bits M) = (Inr k, minor_bits (insert k M))"
      using minor_bits_allocate [of M] by blast
    have f: "bdr_bitmap_free (of_nat k) (minor_bits (insert k M)) = minor_bits M"
      using minor_bits_free [OF k(1), of "insert k M"] k(2) by simp
    have m: "m\<lparr>bdr_minor_bitmap := minor_bits M\<rparr> = m" using b by (cases m) simp
    show ?thesis
      using k(1,2) by (cases create; cases add)
        (auto simp: bdr_chardev_init_def b k(3) f m Let_def acquire_def release_def)
  qed
qed

lemma chardev_destroy_held:
  assumes "k < 64" and "num = MKDEV major (of_nat k)" and "bdr_minor_bitmap m = minor_bits M"
    and "held m = add_mset (Cdev num) (add_mset (DevNode num) H)" and "ChrdevRegion num 1 \<notin># H"
  shows "bdr_chardev_destroy num m = Some (m\<lparr>bdr_minor_bitmap := minor_bits (M - {k}), held := H\<rparr>)"
  using assms by (simp add: bdr_chardev_destroy_def release_def unregister_chrdev_region_def MINOR_MKDEV minor_bits_free diff_single_trivial)

lemmas ladder = err_get_dev_def err_name_def err_scanf_buffer_def err_chardev_def err_bitmap_def bdr_ring_buffer_free_def
  acquire_def release_def

lemma serving_acquire: "serving M m \<Longrightarrow> (\<And>num. r \<noteq> ChrdevRegion num 1) \<Longrightarrow> serving M (acquire r m)"
  by (simp add: serving_def acquire_def) metis

text \<open>The constructor releases all it has acquired, or gives the target what it holds.\<close>

definition ctr_keeps :: "nat set \<Rightarrow> nat \<Rightarrow> ctr_env \<Rightarrow> bdr_module \<Rightarrow> bool" where
  "ctr_keeps M argc env m \<longleftrightarrow> (\<exists>ret. bdr_target_ctr argc env m = Some (ret, None, m)) \<or>
    (\<exists>k < 64. \<exists>t. k \<notin> M \<and> chardev_num t = MKDEV (MAJOR (bdr_dev_major m)) (of_nat k) \<and> bm_bits (overflow_bm t) \<noteq> None \<and>
       bdr_target_ctr argc env m = Some (None, Some t,
         m\<lparr>bdr_minor_bitmap := minor_bits (insert k M), held := held m + target_holds (chardev_num t)\<rparr>))"

lemma ctr_keeps_chardev:
  assumes "serving M m" and "argc = 3" "kz env" "get_dev env = None" "strdup env" "scanned env = Some w" "w \<noteq> 0"
    and "bdr_ring_buffer_init (vmalloc env) w = Inr rb" and k: "k < 64" "k \<notin> M"
    and m4: "m4 = acquire RingMem (acquire Name (acquire BackingDev (acquire Context m)))"
    and num: "num = MKDEV (MAJOR (bdr_dev_major m)) (of_nat k)"
    and i: "bdr_chardev_init (device_create env) (cdev_add env) m4 = Some (Inr num, m4\<lparr>bdr_minor_bitmap := minor_bits (insert k M),
         held := add_mset (Cdev num) (add_mset (DevNode num) (held m4))\<rparr>)"
  shows "ctr_keeps M argc env m"
proof -
  let ?m5 = "m4\<lparr>bdr_minor_bitmap := minor_bits (insert k M), held := add_mset (Cdev num) (add_mset (DevNode num) (held m4))\<rparr>"
  have d: "bdr_chardev_destroy num ?m5 = Some m4"
    using chardev_destroy_held [OF k(1) num, of ?m5 "insert k M" "held m4"] assms(1) k(2)
    by (cases m) (simp add: serving_def acquire_def m4)
  show ?thesis
  proof (cases "bdr_bitmap_init (bm_alloc env) (ucast (drop_bit BDR_BLOCK_SIZE_SHIFT (capacity env)))")
    case (Inl e)
    then show ?thesis using assms(2-8) i d by (simp add: ctr_keeps_def bdr_target_ctr_def ladder m4)
  next
    case (Inr bm)
    then have "bm_bits bm \<noteq> None" by (auto simp: bdr_bitmap_init_def split: if_splits)
    then show ?thesis using assms(2-8) i k Inr unfolding ctr_keeps_def
      by (intro disjI2 exI [of _ k] conjI exI [of _ "\<lparr>ring_buf = rb, overflow_bm = bm, status = ACTIVE, chardev_num = num\<rparr>"])
        (simp_all add: bdr_target_ctr_def num target_holds_def acquire_def m4)
  qed
qed

lemma target_ctr_keeps:
  assumes "serving M m"
  shows "ctr_keeps M argc env m"
proof -
  define m4 where "m4 = acquire RingMem (acquire Name (acquire BackingDev (acquire Context m)))"
  consider "argc \<noteq> 3 \<or> \<not> kz env \<or> get_dev env \<noteq> None \<or> \<not> strdup env \<or> scanned env = None \<or> scanned env = Some 0"
    | w e where "argc = 3" "kz env" "get_dev env = None" "strdup env" "scanned env = Some w" "w \<noteq> 0" "bdr_ring_buffer_init (vmalloc env) w = Inl e"
    | w rb where "argc = 3" "kz env" "get_dev env = None" "strdup env" "scanned env = Some w" "w \<noteq> 0" "bdr_ring_buffer_init (vmalloc env) w = Inr rb"
    by (metis not_Some_eq sum.exhaust)
  then show ?thesis
  proof cases
    case 1
    then show ?thesis by (cases "get_dev env") (auto simp: ctr_keeps_def bdr_target_ctr_def ladder Let_def)
  next
    case 2
    then show ?thesis by (simp add: ctr_keeps_def bdr_target_ctr_def ladder)
  next
    case 3
    have s: "serving M m4" using assms by (simp add: serving_acquire m4_def)
    have major: "bdr_dev_major m4 = bdr_dev_major m" by (simp add: acquire_def m4_def)
    from chardev_init_outcome [OF s, of "device_create env" "cdev_add env"] show ?thesis
    proof (elim disjE exE conjE)
      fix e
      assume "bdr_chardev_init (device_create env) (cdev_add env) m4 = Some (Inl e, m4)"
      then show ?thesis using 3 by (simp add: ctr_keeps_def bdr_target_ctr_def ladder m4_def)
    qed (use ctr_keeps_chardev [OF assms 3 _ _ m4_def refl] in \<open>simp add: Let_def major\<close>)
  qed
qed

lemma target_dtr_releases:
  assumes "k < 64" and "chardev_num t = MKDEV major (of_nat k)" and "bm_bits (overflow_bm t) \<noteq> None"
    and "bdr_minor_bitmap m = minor_bits M" and "held m = target_holds (chardev_num t) + H" and "\<forall>num. ChrdevRegion num 1 \<notin># H"
  shows "bdr_target_dtr (Some t) m = Some (m\<lparr>bdr_minor_bitmap := minor_bits (M - {k}), held := H\<rparr>)"
proof -
  have h: "held m = add_mset (Cdev (chardev_num t)) (add_mset (DevNode (chardev_num t)) ({#Context, BackingDev, Name, RingMem, OverflowBits#} + H))"
    using assms(5) by (simp add: target_holds_def)
  show ?thesis using chardev_destroy_held [OF assms(1,2,4) h] assms(3,6)
    by (auto simp: bdr_target_dtr_def bdr_bitmap_destroy_def bdr_ring_buffer_free_def release_def)
qed

subsection \<open>The life of the module\<close>

definition minor_of :: "bdr_target \<Rightarrow> nat" where
  "minor_of t = unat (MINOR (chardev_num t))"

text \<open>
  The module with the contexts of its targets: the resources are those of the module and of
  each context, the minor numbers are distinct, and they are those taken in the bitmap.
\<close>

definition module_wf :: "bdr_module \<Rightarrow> bdr_target list \<Rightarrow> bool" where
  "module_wf m ts \<longleftrightarrow>
     held m = {#TargetType, DevClass, ChrdevRegion (bdr_dev_major m) BDR_MAX_DEVICES, MinorBits#} + (\<Sum>t\<in>#mset ts. target_holds (chardev_num t)) \<and>
     bdr_minor_bitmap m = minor_bits (minor_of ` set ts) \<and> distinct (map minor_of ts) \<and>
     (\<forall>t \<in> set ts. minor_of t < 64 \<and> chardev_num t = MKDEV (MAJOR (bdr_dev_major m)) (of_nat (minor_of t)) \<and> bm_bits (overflow_bm t) \<noteq> None)"

text \<open>
  Device mapper constructs targets and destroys them, in any order.  A target whose
  constructor returned 0 is live, with the context that the constructor stored in it, or with
  none.
\<close>

inductive module_step :: "bdr_module \<times> bdr_target option list \<Rightarrow> bdr_module \<times> bdr_target option list \<Rightarrow> bool" where
  ctr: "bdr_target_ctr argc env m = Some (ret, t, m') \<Longrightarrow> module_step (m, ts) (m', if ret = None then t # ts else ts)"
| dtr: "t \<in> set ts \<Longrightarrow> bdr_target_dtr t m = Some m' \<Longrightarrow> module_step (m, ts) (m', remove1 t ts)"

text \<open>The contexts of the live targets that have one.\<close>

fun contexts :: "bdr_target option list \<Rightarrow> bdr_target list" where
  "contexts [] = []"
| "contexts (None # ts) = contexts ts"
| "contexts (Some bc # ts) = bc # contexts ts"

lemma contexts_set: "bc \<in> set (contexts ts) \<longleftrightarrow> Some bc \<in> set ts"
  by (induction ts rule: contexts.induct) auto

lemma contexts_remove: "contexts (remove1 (Some bc) ts) = remove1 bc (contexts ts)"
  by (induction ts rule: contexts.induct) auto

lemma no_short_region: "ChrdevRegion num 1 \<notin># target_holds n"
  by (simp add: target_holds_def)

lemma module_wf_serving: "module_wf m ts \<Longrightarrow> serving (minor_of ` set ts) m"
  by (auto simp: module_wf_def serving_def no_short_region BDR_MAX_DEVICES_def)

lemma module_wf_init:
  assumes "bdr_init register create region alloc m0 = Some (None, m)" and "held m0 = {#}"
  shows "module_wf m []"
  using assms by (auto simp: bdr_init_def module_wf_def minor_bits_init acquire_def err_class_def err_region_def release_def Let_def
      split: option.splits sum.splits if_splits bind_splits)

lemma module_wf_ctr:
  assumes "module_wf m ts" and "bdr_target_ctr argc env m = Some (ret, t, m')"
  shows "module_wf m' (case t of None \<Rightarrow> ts | Some bc \<Rightarrow> bc # ts) \<and> (t \<noteq> None \<longrightarrow> ret = None)"
  using target_ctr_keeps [OF module_wf_serving [OF assms(1)], of argc env] unfolding ctr_keeps_def
proof (elim disjE exE conjE)
  fix r
  assume "bdr_target_ctr argc env m = Some (r, None, m)"
  then show ?thesis using assms by simp
next
  fix k u
  assume k: "k < 64" "k \<notin> minor_of ` set ts" and u: "chardev_num u = MKDEV (MAJOR (bdr_dev_major m)) (of_nat k)" "bm_bits (overflow_bm u) \<noteq> None"
    and c: "bdr_target_ctr argc env m = Some (None, Some u, m\<lparr>bdr_minor_bitmap := minor_bits (insert k (minor_of ` set ts)), held := held m + target_holds (chardev_num u)\<rparr>)"
  have "minor_of u = k" using k(1) by (simp add: minor_of_def u(1) MINOR_MKDEV unat_minor)
  then show ?thesis using assms c k u by (auto simp: module_wf_def)
qed

lemma module_wf_dtr:
  assumes "module_wf m ts" and "t \<in> set ts"
  shows "\<exists>m'. bdr_target_dtr (Some t) m = Some m' \<and> module_wf m' (remove1 t ts)"
proof -
  let ?base = "{#TargetType, DevClass, ChrdevRegion (bdr_dev_major m) BDR_MAX_DEVICES, MinorBits#}"
  let ?H = "?base + (\<Sum>t\<in>#mset (remove1 t ts). target_holds (chardev_num t))"
  have t: "minor_of t < 64" "chardev_num t = MKDEV (MAJOR (bdr_dev_major m)) (of_nat (minor_of t))" "bm_bits (overflow_bm t) \<noteq> None"
    using assms by (auto simp: module_wf_def)
  have "mset ts = add_mset t (mset (remove1 t ts))" using assms(2) by simp
  then have "(\<Sum>t\<in>#mset ts. target_holds (chardev_num t)) = target_holds (chardev_num t) + (\<Sum>t\<in>#mset (remove1 t ts). target_holds (chardev_num t))"
    by (metis image_mset_add_mset sum_mset.add_mset)
  then have h: "held m = target_holds (chardev_num t) + ?H" using assms(1) by (simp add: module_wf_def)
  have "\<forall>num. ChrdevRegion num 1 \<notin># ?H" by (auto simp: BDR_MAX_DEVICES_def no_short_region simp del: mset_remove1)
  then have d: "bdr_target_dtr (Some t) m = Some (m\<lparr>bdr_minor_bitmap := minor_bits (minor_of ` set ts - {minor_of t}), held := ?H\<rparr>)"
    using target_dtr_releases [OF t _ h] assms(1) by (simp add: module_wf_def)
  have dist: "distinct ts" "inj_on minor_of (set ts)" using assms(1) by (simp_all add: module_wf_def distinct_map)
  then have "minor_of ` set ts - {minor_of t} = minor_of ` set (remove1 t ts)" using assms(2) by (auto simp: inj_on_def)
  moreover have "distinct (map minor_of (remove1 t ts))" using dist by (simp add: distinct_map inj_on_diff)
  ultimately show ?thesis using assms(1) d by (auto simp: module_wf_def dist(1))
qed

lemma module_wf_step:
  assumes "module_step (m, ts) (m', ts')" and "module_wf m (contexts ts)"
  shows "module_wf m' (contexts ts')"
  using assms(1)
proof cases
  case (ctr argc env ret t)
  then show ?thesis using module_wf_ctr [OF assms(2) ctr(2)] assms(2) by (cases t) auto
next
  case (dtr t)
  then obtain bc where t: "t = Some bc" by (cases t) (simp_all add: bdr_target_dtr_def)
  then have "bc \<in> set (contexts ts)" using dtr by (simp add: contexts_set)
  then show ?thesis using module_wf_dtr [OF assms(2)] dtr t by (fastforce simp: contexts_remove)
qed

lemma module_wf_runs: "module_step\<^sup>*\<^sup>* (m, ts) (m', ts') \<Longrightarrow> module_wf m (contexts ts) \<Longrightarrow> module_wf m' (contexts ts')"
  by (induction "(m', ts')" arbitrary: m' ts' rule: rtranclp_induct) (auto intro: module_wf_step)

lemma module_wf_exit:
  assumes "module_wf m []"
  shows "\<exists>m'. bdr_exit m = Some m' \<and> held m' = {#MinorBits#}"
proof -
  have "held m = {#TargetType, DevClass, ChrdevRegion (bdr_dev_major m) BDR_MAX_DEVICES, MinorBits#}" using assms by (simp add: module_wf_def)
  then show ?thesis by (simp add: bdr_exit_def release_def unregister_chrdev_region_def)
qed

lemma bdr_init_failing:
  "\<exists>ret m. bdr_init register create region alloc m0 = Some (ret, m) \<and> (ret \<noteq> None \<longrightarrow> held m = held m0)"
  by (cases register; cases create; cases region; cases alloc)
    (simp_all add: bdr_init_def minor_bits_init acquire_def err_class_def err_region_def release_def unregister_chrdev_region_def)

text \<open>
  C17: The targets of a loaded module are well formed, whatever targets are constructed and
  destroyed and whichever of their calls into the kernel fail: the character devices of the
  live targets that have a context have distinct numbers of the module's range, and neither
  the constructor nor the destructor of such a target releases something twice or something
  that is not held.  The destructor faults exactly on a live target without a context, which
  is what a constructor leaves that reports success after rejecting the number of writes.
\<close>

theorem module_targets:
  assumes "bdr_init register create region alloc m0 = Some (None, m)" and "held m0 = {#}" and "module_step\<^sup>*\<^sup>* (m, []) (m', ts)"
  shows "distinct (map chardev_num (contexts ts)) \<and>
    (\<forall>bc \<in> set (contexts ts). \<exists>k < 64. chardev_num bc = MKDEV (MAJOR (bdr_dev_major m')) (of_nat k)) \<and>
    bdr_target_ctr argc env m' \<noteq> None \<and> (\<forall>t \<in> set ts. bdr_target_dtr t m' = None \<longleftrightarrow> t = None)"
proof -
  have wf: "module_wf m' (contexts ts)" using module_wf_runs [OF assms(3)] module_wf_init [OF assms(1,2)] by simp
  have "map minor_of (contexts ts) = map (\<lambda>n. unat (MINOR n)) (map chardev_num (contexts ts))" by (simp add: minor_of_def)
  then have "distinct (map chardev_num (contexts ts))" using wf by (metis distinct_map module_wf_def)
  moreover have "bdr_target_ctr argc env m' \<noteq> None"
    using target_ctr_keeps [OF module_wf_serving [OF wf], of argc env] by (auto simp: ctr_keeps_def)
  moreover have "bdr_target_dtr t m' = None \<longleftrightarrow> t = None" if "t \<in> set ts" for t
    using module_wf_dtr [OF wf] that by (cases t) (force simp: contexts_set bdr_target_dtr_def)+
  ultimately show ?thesis using wf by (auto simp: module_wf_def)
qed

text \<open>
  C18: What the module holds over its life.  A load that fails, at whichever call, holds
  nothing afterwards.  A module that was loaded, had any targets constructed and destroyed,
  and is unloaded when no target is left has released everything once, except the bitmap of
  the minor numbers: \<^verbatim>\<open>bdr_exit\<close> leaks it.
\<close>

theorem module_load_unload:
  assumes "held m0 = {#}"
  shows "\<exists>ret m. bdr_init register create region alloc m0 = Some (ret, m) \<and>
    (case ret of Some e \<Rightarrow> held m = {#}
     | None \<Rightarrow> \<forall>m'. module_step\<^sup>*\<^sup>* (m, []) (m', []) \<longrightarrow> (\<exists>m''. bdr_exit m' = Some m'' \<and> held m'' = {#MinorBits#}))"
proof -
  obtain ret m where i: "bdr_init register create region alloc m0 = Some (ret, m)" and f: "ret \<noteq> None \<longrightarrow> held m = {#}"
    using bdr_init_failing [of register create region alloc m0] assms by auto
  have "\<exists>m''. bdr_exit m' = Some m'' \<and> held m'' = {#MinorBits#}" if "ret = None" "module_step\<^sup>*\<^sup>* (m, []) (m', [])" for m'
    using module_wf_runs [OF that(2)] module_wf_init [OF _ assms] i that(1) module_wf_exit by simp
  then show ?thesis using i f by (intro exI [of _ ret] exI [of _ m]) (cases ret; simp)
qed

text \<open>
  C38: The constructor of a target reports success without having stored a context exactly
  when the number of writes cannot be read or is zero and everything before went well.
\<close>

theorem target_ctr_false_success:
  "(\<exists>m'. bdr_target_ctr argc env m = Some (None, None, m')) \<longleftrightarrow>
   argc = 3 \<and> kz env \<and> get_dev env = None \<and> strdup env \<and> (scanned env = None \<or> scanned env = Some 0)"
  by (auto simp: bdr_target_ctr_def ladder Let_def split: option.splits sum.splits bind_splits)

text \<open>
  C39: Mapping the buffer into user space.  When every page can be mapped, each byte of the
  buffer appears at its offset from the start of the area.  The size of the area is looked
  at only to print a warning: pages outside the area are mapped exactly when the area is
  smaller than the buffer.
\<close>

theorem chardev_mmap_maps:
  assumes "private_data filp = Some bc" and "\<And>a. remap a = None" and "vm_start \<le> vm_end" and "4096 dvd unat (vm_end - vm_start)"
    and "rb_size = unat (bdr_ring_buffer_get_byte_size (ring_buf bc))" and "unat vm_start + rb_size < 2 ^ 64"
  shows "\<exists>pages. bdr_chardev_mmap remap vm_start vm_end filp = (None, pages) \<and>
    (\<forall>b < rb_size. \<exists>(a, offset) \<in> set pages. offset \<le> b \<and> b < offset + 4096 \<and> unat a + (b - offset) = unat vm_start + b) \<and>
    ((\<exists>(a, offset) \<in> set pages. a \<ge> vm_end) \<longleftrightarrow> unat (vm_end - vm_start) < rb_size)"
proof -
  obtain pages where pages: "mmap_pages remap vm_start rb_size 0 = (None, pages)"
      "\<forall>a n. (a, n) \<in> set pages \<longleftrightarrow> (\<exists>i. n = 0 + i * 4096 \<and> n < rb_size \<and> a = vm_start + of_nat n)"
    using mmap_pages_maps [of remap vm_start rb_size 0, OF assms(2)] by blast
  have p: "bdr_chardev_mmap remap vm_start vm_end filp = (None, pages)"
    using pages(1) by (simp add: bdr_chardev_mmap_def assms(1) flip: assms(5))
  have set: "(a, n) \<in> set pages \<longleftrightarrow> (\<exists>i. n = i * 4096) \<and> n < rb_size \<and> a = vm_start + of_nat n" for a n
    using pages(2) by simp
  have at: "unat (vm_start + of_nat n) = unat vm_start + n" if "n < rb_size" for n
    using that assms(6) by (simp add: unat_word_ariths unat_of_nat)
  have size: "unat (vm_end - vm_start) = unat vm_end - unat vm_start" using assms(3) by (simp add: unat_sub word_le_nat_alt)
  have "\<exists>(a, offset) \<in> set pages. offset \<le> b \<and> b < offset + 4096 \<and> unat a + (b - offset) = unat vm_start + b" if "b < rb_size" for b
  proof -
    let ?o = "b div 4096 * 4096"
    have o: "?o \<le> b" "b < ?o + 4096" using div_mult_mod_eq [of b 4096] mod_less_divisor [of 4096 b] by linarith+
    then have "(vm_start + of_nat ?o, ?o) \<in> set pages" using that unfolding set by auto
    moreover have "unat (vm_start + of_nat ?o) + (b - ?o) = unat vm_start + b" using at [of ?o] o that by simp
    ultimately show ?thesis using o by blast
  qed
  moreover have "(\<exists>(a, offset) \<in> set pages. a \<ge> vm_end) \<longleftrightarrow> unat (vm_end - vm_start) < rb_size"
  proof
    assume "\<exists>(a, offset) \<in> set pages. a \<ge> vm_end"
    then obtain n where "n < rb_size" "vm_start + of_nat n \<ge> vm_end" by (auto simp: set)
    then show "unat (vm_end - vm_start) < rb_size" using at [of n] by (simp add: word_le_nat_alt size)
  next
    assume s: "unat (vm_end - vm_start) < rb_size"
    let ?n = "unat (vm_end - vm_start)"
    have "(vm_start + of_nat ?n, ?n) \<in> set pages" unfolding set using s assms(4) by (metis dvd_def mult.commute)
    moreover have "vm_start + of_nat ?n = vm_end" by simp
    ultimately show "\<exists>(a, offset) \<in> set pages. a \<ge> vm_end" by force
  qed
  ultimately show ?thesis using p by blast
qed

subsection \<open>Examples\<close>

definition demo_module :: bdr_module where
  "demo_module = \<lparr>held = {#}, bdr_dev_major = 0, bdr_minor_bitmap = \<lparr>bm_bits = None, bm_max_bits = 0\<rparr>\<rparr>"

definition demo_env :: ctr_env where
  "demo_env = \<lparr>kz = True, get_dev = None, strdup = True, scanned = Some 1, vmalloc = (\<lambda>n. Some []),
     device_create = None, cdev_add = None, capacity = 4096, bm_alloc = True\<rparr>"

lemma demo_loaded: "\<exists>m. bdr_init None None (Inr (push_bit 20 240)) True demo_module = Some (None, m)"
  by (simp add: bdr_init_def minor_bits_init)

lemma allocate_first: "bdr_bitmap_allocate (minor_bits {}) = (Inr 0, minor_bits {0})"
proof -
  have "find_first_zero_bit (map (\<lambda>k. k \<in> {}) [0..<64]) 64 = 0"
    using find_first_zero_bit.simps(3) [of False "map (\<lambda>k. k \<in> {}) [1..<64]" 63] by (simp add: upt_conv_Cons)
  then show ?thesis using bits_update [of 0 "{}" True] by (simp add: bdr_bitmap_allocate_def minor_bits_def Let_def)
qed

lemma demo_target:
  assumes "module_wf m []"
  shows "\<exists>t m'. bdr_target_ctr 3 demo_env m = Some (None, Some t, m')"
proof -
  have "bdr_minor_bitmap m = minor_bits {}" using assms by (simp add: module_wf_def)
  then show ?thesis
    by (simp add: bdr_target_ctr_def demo_env_def bdr_ring_buffer_init_def bdr_chardev_init_def allocate_first
        bdr_bitmap_init_def BDR_BLOCK_SIZE_SHIFT_def acquire_def Let_def)
qed

theorem module_targets_witness:
  "\<exists>m m' bc. bdr_init None None (Inr (push_bit 20 240)) True demo_module = Some (None, m) \<and>
     module_step\<^sup>*\<^sup>* (m, []) (m', [None, Some bc]) \<and> bdr_target_ctr 3 demo_env m' \<noteq> None \<and>
     bdr_target_dtr (Some bc) m' \<noteq> None \<and> bdr_target_dtr None m' = None"
proof -
  obtain m where m: "bdr_init None None (Inr (push_bit 20 240)) True demo_module = Some (None, m)" using demo_loaded by blast
  have h: "held demo_module = {#}" by (simp add: demo_module_def)
  obtain bc m1 where bc: "bdr_target_ctr 3 demo_env m = Some (None, Some bc, m1)" using demo_target [OF module_wf_init [OF m h]] by blast
  have "bdr_target_ctr 3 (demo_env\<lparr>scanned := None\<rparr>) m1 = Some (None, None, m1)"
    by (simp add: bdr_target_ctr_def demo_env_def ladder)
  from module_step.ctr [OF bc, of "[]"] module_step.ctr [OF this, of "[Some bc]"]
  have r: "module_step\<^sup>*\<^sup>* (m, []) (m1, [None, Some bc])" by (simp add: converse_rtranclp_into_rtranclp)
  have "bdr_target_ctr 3 demo_env m1 \<noteq> None \<and> bdr_target_dtr (Some bc) m1 \<noteq> None \<and> bdr_target_dtr None m1 = None"
    using module_targets [OF m h r, of 3 demo_env] by simp
  then show ?thesis using m r by blast
qed

theorem module_load_unload_witness:
  "held demo_module = {#} \<and> (\<exists>m m'. bdr_init None None (Inr (push_bit 20 240)) True demo_module = Some (None, m) \<and>
     bdr_exit m = Some m' \<and> held m' = {#MinorBits#})"
proof -
  obtain m where m: "bdr_init None None (Inr (push_bit 20 240)) True demo_module = Some (None, m)" using demo_loaded by blast
  have h: "held demo_module = {#}" by (simp add: demo_module_def)
  have "\<exists>m'. bdr_exit m = Some m' \<and> held m' = {#MinorBits#}"
    using module_load_unload [OF h, of None None "Inr (push_bit 20 240)" True] m by auto
  then show ?thesis using m h by blast
qed

theorem chardev_mmap_maps_witness:
  "\<exists>bc pages. bdr_chardev_mmap (\<lambda>a. None) 4096 8192 \<lparr>private_data = Some bc\<rparr> = (None, pages) \<and> (\<exists>(a, offset) \<in> set pages. a \<ge> 8192)"
proof -
  let ?rb = "\<lparr>rb_buffer = [], rb_info = \<lparr>bi_offset = 0, bi_length = 0, bi_last = 0, bi_flags = 0, bi_max_writes = 1\<rparr>\<rparr>"
  let ?bc = "\<lparr>ring_buf = ?rb, overflow_bm = minor_bits {}, status = ACTIVE, chardev_num = 0\<rparr>"
  have "unat (bdr_ring_buffer_get_byte_size ?rb) = 4104"
    by (simp add: bdr_ring_buffer_get_byte_size_def BDR_WRITES_TO_BYTES_def BDR_WRITE_INFO_SIZE_def PAGE_SIZE_def)
  then show ?thesis using chardev_mmap_maps [of "\<lparr>private_data = Some ?bc\<rparr>" ?bc "\<lambda>a. None" 4096 8192 4104]
    by (intro exI [of _ ?bc]) auto
qed

end
