(* ===== verification/Replication.thy ===== *)
theory Replication
  imports Scan_Converges
begin

text \<open>
  The copy of a whole device: the pipeline of \<^verbatim>\<open>InitReplication\<close> in the client and the
  workers of \<^verbatim>\<open>HandleReplicationPackets\<close> in the server, followed by the writes that the
  client captured meanwhile.
\<close>

subsection \<open>The blocks the client sends\<close>

definition repl_item :: "nat \<Rightarrow> nat \<Rightarrow> nat \<Rightarrow> bytes \<Rightarrow> ReplicationItem" where
  "repl_item R L k b = SendItem (blk R k b) (blk_off R k) (of_nat (min R (L - k * R)))"

fun repl_key :: "nat \<Rightarrow> ReplicationItem \<Rightarrow> nat" where
  "repl_key R (ReadItem offset sz) = unat offset div R"
| "repl_key R (SendItem buf offset sz) = unat offset div R"

lemma read_item_block:
  assumes sz: "pass_sizes blockSize L" and k: "k < block_count (unat blockSize) L"
  shows "read_item blockSize (of_nat L) (blk_off (unat blockSize) k) =
    ReadItem (blk_off (unat blockSize) k) (of_nat (min (unat blockSize) (L - k * unat blockSize)))"
proof -
  let ?R = "unat blockSize" and ?o = "blk_off (unat blockSize) k"
  have L: "L < 2 ^ 63" "?R < 2 ^ 32" using sz by (simp_all add: pass_sizes_def)
  have o: "unat ?o = k * ?R" "k * ?R < L" using pass_sizes_index [OF sz k] by simp_all
  have n: "unat (of_nat L :: u64) = L" by (rule unat_device_size [OF L(1)])
  have r: "unat (ucast blockSize :: u32) = ?R" using L(2) by (simp add: unat_u64_u32)
  have s: "unat (ucast (ucast blockSize :: u32) :: u64) = ?R" using r by simp
  have "unat (?o + ucast (ucast blockSize :: u32)) = k * ?R + ?R"
    using o s L unat_add_lem [of ?o "ucast (ucast blockSize :: u32)"] by simp
  then have c: "?o + ucast (ucast blockSize :: u32) > of_nat L \<longleftrightarrow> L < k * ?R + ?R" by (simp add: word_less_nat_alt n)
  have "?o \<le> of_nat L" using o n by (simp add: word_le_nat_alt)
  then have d: "unat (of_nat L - ?o) = L - k * ?R" by (simp add: unat_sub n o(1))
  have "(if ?o + ucast (ucast blockSize :: u32) > of_nat L then ucast (of_nat L - ?o) else ucast blockSize :: u32)
      = of_nat (min ?R (L - k * ?R))"
  proof (cases "L < k * ?R + ?R")
    case True
    then have "L - k * ?R < 2 ^ 32" using L(2) by simp
    then have "unat (ucast (of_nat L - ?o) :: u32) = L - k * ?R" by (simp add: unat_u64_u32 d)
    moreover have "min ?R (L - k * ?R) = L - k * ?R" using True by simp
    ultimately show ?thesis using True c \<open>L - k * ?R < 2 ^ 32\<close> by (simp add: word_unat_eq_iff unat_of_nat)
  next
    case False
    then show ?thesis using c r L(2) by (simp add: word_unat_eq_iff unat_of_nat min_def)
  qed
  then show ?thesis by (simp add: read_item_def Let_def)
qed

lemma repl_read_block:
  assumes sz: "pass_sizes blockSize L" and k: "k < block_count (unat blockSize) L"
    and ud: "healthy ud" "length (dev_bytes ud) = L"
  shows "replication_stage ud 0 (ReadItem (blk_off (unat blockSize) k) (of_nat (min (unat blockSize) (L - k * unat blockSize))))
    = Pass (repl_item (unat blockSize) L k (dev_bytes ud))"
proof -
  let ?R = "unat blockSize" and ?m = "min (unat blockSize) (L - k * unat blockSize)"
  note ix = pass_sizes_index [OF sz k]
  have "?m < 2 ^ 32" using sz by (simp add: pass_sizes_def min_less_iff_disj)
  then have m: "unat (of_nat ?m :: u32) = ?m" by (simp add: unat_of_nat)
  have rd: "ReadAt ?m (blk_off ?R k) ud = ((bslice (k * ?R) ?m (dev_bytes ud), None), ud)"
    using ReadAt_ok [OF ud(1), of "blk_off ?R k" ?m] ix(1,2) sz ud(2) by (simp add: pass_sizes_def)
  have "bslice (k * ?R) ?m (dev_bytes ud) = blk ?R k (dev_bytes ud)" using ud(2) by (auto simp: blk_def bslice_def min_def)
  then show ?thesis using rd m ud(2) by (simp add: repl_item_def length_blk)
qed

lemma less_2_cases_Suc: "k < (2::nat) \<Longrightarrow> k = 0 \<or> k = Suc 0"
  by auto

lemma repl_smooth:
  assumes sz: "pass_sizes blockSize L" and hist: "hist \<noteq> []" "\<And>img. img \<in> set hist \<Longrightarrow> length img = L"
    and p: "p = (\<lambda>k. read_item blockSize (of_nat L) (blk_off (unat blockSize) k))"
  shows "smooth 2 (replication_work_ok hist) (map p [0..<block_count (unat blockSize) L])"
    and "k < block_count (unat blockSize) L \<Longrightarrow> flows (replication_work_ok hist) 2 (p k) y \<Longrightarrow>
      \<exists>b. (blend hist b \<and> length b = L) \<and> y = repl_item (unat blockSize) L k b"
proof -
  have 1: "\<exists>b. (blend hist b \<and> length b = L) \<and> v = Pass (repl_item (unat blockSize) L k b)"
    if "k < block_count (unat blockSize) L" "replication_work_ok hist 0 (p k) v" for k v
    using that repl_read_block [OF sz that(1)] blend_length [OF _ hist] read_item_block [OF sz that(1)]
    by (auto simp: replication_work_ok_def p)
  have 2: "\<exists>z. v = Pass z \<and> z = repl_item (unat blockSize) L k b"
    if "replication_work_ok hist (Suc 0) (repl_item (unat blockSize) L k b) v" for k b v
    using that by (auto simp: replication_work_ok_def repl_item_def)
  show "smooth 2 (replication_work_ok hist) (map p [0..<block_count (unat blockSize) L])"
    unfolding smooth_def
  proof (intro ballI allI impI, elim conjE)
    fix x m y v
    assume "x \<in> set (map p [0..<block_count (unat blockSize) L])" and m: "m < 2"
      and fl: "flows (replication_work_ok hist) m x y" and v: "replication_work_ok hist m y v"
    then obtain k where "k < block_count (unat blockSize) L" "x = p k" by auto
    then show "\<exists>z. v = Pass z" using less_2_cases_Suc [OF m] fl v 1 2 by fastforce
  qed
  show "\<exists>b. (blend hist b \<and> length b = L) \<and> y = repl_item (unat blockSize) L k b"
    if "k < block_count (unat blockSize) L" "flows (replication_work_ok hist) 2 (p k) y"
    using that 1 2 by (fastforce simp: numeral_2_eq_2)
qed

lemma repl_items:
  assumes sz: "pass_sizes blockSize L" and hist: "hist \<noteq> []" "\<And>img. img \<in> set hist \<Longrightarrow> length img = L"
    and offs: "block_offsets blockSize (of_nat L) 0 = Some offs"
    and run: "pipe_runs 2 cap (replication_work_ok hist) w (map (read_item blockSize (of_nat L)) offs) q" and w: "0 < w"
  obtains b where "set (out q) = (\<lambda>k. repl_item (unat blockSize) L k (b k)) ` {..<block_count (unat blockSize) L}"
    and "\<And>k. k < block_count (unat blockSize) L \<Longrightarrow> blend hist (b k) \<and> length (b k) = L"
proof -
  let ?R = "unat blockSize" and ?n = "block_count (unat blockSize) L"
  define p where "p = (\<lambda>k. read_item blockSize (of_nat L) (blk_off ?R k))"
  have src: "map (read_item blockSize (of_nat L)) offs = map p [0..<?n]"
    using offs pass_offsets [OF sz] by (auto simp: p_def)
  have rel: "rel_mset (flows (replication_work_ok hist) 2) (mset (map p [0..<?n])) (mset (out q))"
    using pipe_complete [OF run [unfolded src] repl_smooth(1) [OF sz hist p_def] w] by simp
  have key: "repl_key ?R (p k) = k" "repl_key ?R (repl_item ?R L k b) = k" if "k < ?n" for k b
    using pass_sizes_index(2) [OF sz that] read_item_block [OF sz that] sz
    by (simp_all add: p_def repl_item_def pass_sizes_def)
  show ?thesis
  proof (rule keyed_outputs [OF rel, where B = "\<lambda>b. blend hist b \<and> length b = L" and it = "repl_item ?R L"
        and skey = "repl_key ?R" and key = "repl_key ?R"])
    show "\<exists>b. (blend hist b \<and> length b = L) \<and> y = repl_item ?R L k b"
      if "k < ?n" "flows (replication_work_ok hist) 2 (p k) y" for k y
      using repl_smooth(2) [OF sz hist(1) _ p_def that] hist(2) by blast
  qed (use key that in auto)
qed

subsection \<open>The replica after the copy\<close>

definition repl_ops :: "Packet list \<Rightarrow> disk_write list" where
  "repl_ops ps = concat (map (\<lambda>p. case PayloadOf p of PReplication r \<Rightarrow> [(unat (rbOffset r), rbData r)] | _ \<Rightarrow> []) ps)"

lemma HandleReplicationPackets_replays:
  assumes "healthy (TargetDevFd s)" and "length (dev_bytes (TargetDevFd s)) < 2 ^ 63"
  shows "HandleReplicationPackets ps s =
    s\<lparr>TargetDevFd := (TargetDevFd s)\<lparr>dev_bytes := replay (repl_ops ps) (dev_bytes (TargetDevFd s))\<rparr>\<rparr>"
proof -
  have "fold HandleReplicationPacket ps s =
    s\<lparr>TargetDevFd := (TargetDevFd s)\<lparr>dev_bytes := replay (repl_ops ps) (dev_bytes (TargetDevFd s))\<rparr>\<rparr>"
    using assms
  proof (induction ps arbitrary: s)
    case Nil
    then show ?case by (simp add: repl_ops_def)
  next
    case (Cons p ps)
    have p: "HandleReplicationPacket p s =
        s\<lparr>TargetDevFd := (TargetDevFd s)\<lparr>dev_bytes := replay (repl_ops [p]) (dev_bytes (TargetDevFd s))\<rparr>\<rparr>"
      using WriteAt_stores [OF Cons.prems] by (simp add: HandleReplicationPacket_def repl_ops_def put_bytes_def split: Payload.splits)
    have "repl_ops (p # ps) = repl_ops [p] @ repl_ops ps" by (simp add: repl_ops_def)
    then show ?case using Cons.IH [of "HandleReplicationPacket p s"] Cons.prems by (simp add: p healthy_def)
  qed
  then show ?thesis using assms(1) by (simp add: HandleReplicationPackets_def Let_def healthy_def)
qed

lemma repl_ops_items:
  assumes "mset ps = mset (concat (map replication_packets items))"
  shows "(o', d) \<in> set (repl_ops ps) \<longleftrightarrow> (\<exists>off sz. SendItem d off sz \<in> set items \<and> o' = unat off)"
proof -
  have "set ps = (\<Union>i \<in> set items. set (replication_packets i))" using mset_eq_setD [OF assms] by simp
  moreover have "(o', d) \<in> (\<Union>p \<in> set (replication_packets i). set (case PayloadOf p of PReplication r \<Rightarrow> [(unat (rbOffset r), rbData r)] | _ \<Rightarrow> []))
      \<longleftrightarrow> (\<exists>off sz. i = SendItem d off sz \<and> o' = unat off)" for i
    by (cases i) auto
  ultimately show ?thesis unfolding repl_ops_def by (auto 0 3)
qed

lemma repl_blend:
  assumes sz: "pass_sizes blockSize (length T)" and hist: "hist \<noteq> []" "\<And>img. img \<in> set hist \<Longrightarrow> length img = length T"
    and items: "set items = (\<lambda>k. repl_item (unat blockSize) (length T) k (b k)) ` {..<block_count (unat blockSize) (length T)}"
    and b: "\<And>k. k < block_count (unat blockSize) (length T) \<Longrightarrow> blend hist (b k) \<and> length (b k) = length T"
    and ps: "mset ps = mset (concat (map replication_packets items))"
  shows "blend hist (replay (repl_ops ps) T)"
proof -
  let ?R = "unat blockSize" and ?n = "block_count (unat blockSize) (length T)"
  have R: "0 < ?R" using sz by (simp add: pass_sizes_def)
  have ops: "op \<in> set (repl_ops ps) \<longleftrightarrow> (\<exists>k < ?n. op = (k * ?R, blk ?R k (b k)))" for op
  proof
    assume "op \<in> set (repl_ops ps)"
    then obtain off m where o: "SendItem (snd op) off m \<in> set items" "fst op = unat off"
      using repl_ops_items [OF ps, of "fst op" "snd op"] by auto
    then obtain k where k: "k < ?n" "SendItem (snd op) off m = repl_item ?R (length T) k (b k)" unfolding items by auto
    then show "\<exists>k < ?n. op = (k * ?R, blk ?R k (b k))"
      using o(2) pass_sizes_index(2) [OF sz k(1)] by (intro exI [of _ k]) (simp add: repl_item_def prod_eq_iff)
  next
    assume "\<exists>k < ?n. op = (k * ?R, blk ?R k (b k))"
    then obtain k where k: "k < ?n" "op = (k * ?R, blk ?R k (b k))" by blast
    then have "repl_item ?R (length T) k (b k) \<in> set items" unfolding items by blast
    then show "op \<in> set (repl_ops ps)" using repl_ops_items [OF ps, of "fst op" "snd op"] pass_sizes_index(2) [OF sz k(1)]
      by (auto simp: k(2) repl_item_def)
  qed
  have "replay (repl_ops ps) T ! i = b (i div ?R) ! i" if i: "i < length T" for i
  proof -
    note ix = blk_index [OF R i]
    have len: "length (b (i div ?R)) = length T" using b [OF ix(4)] by simp
    have "(i div ?R * ?R, blk ?R (i div ?R) (b (i div ?R))) \<in> set (repl_ops ps)" using ix(4) by (auto simp: ops)
    moreover have "op = (i div ?R * ?R, blk ?R (i div ?R) (b (i div ?R)))" if "op \<in> set (repl_ops ps)" "i \<in> footprint op" for op
      using that blk_cover [OF R] ops by metis
    moreover have "i < i div ?R * ?R + length (blk ?R (i div ?R) (b (i div ?R)))" using ix(2) i len by (simp add: length_blk)
    ultimately show ?thesis using replay_unique [OF _ i ix(1)] blk_index(3) [OF R, of i "b (i div ?R)"] i len by metis
  qed
  then have "\<exists>img \<in> set hist. replay (repl_ops ps) T ! i = img ! i" if "i < length T" for i
    using that b [OF blk_index(4) [OF R that]] by (auto simp: blend_def)
  then show ?thesis using hist(2) by (simp add: blend_def)
qed

lemma captured_write_on: "captured L w \<Longrightarrow> L < 2 ^ 63 \<Longrightarrow> write_on L w"
  by (simp add: captured_def write_on_def)

text \<open>
  C12: A full replication makes the replica equal to the source.  The client reads its device,
  which is in use, with any number of workers under any scheduling; the workers of the server
  write the blocks in any order.  When the writes \<open>ws\<close> the client captured since the
  replication began are then applied, the replica holds the source image \<open>img\<close> of the
  beginning with all those writes made, whatever was on it before.
\<close>

theorem replication_converges:
  fixes s :: Server and img T :: bytes
  defines "T \<equiv> dev_bytes (TargetDevFd s)"
  assumes server: "healthy (TargetDevFd s)" and size: "length T < 2 ^ 63" "length img = length T"
    and offs: "block_offsets HashedSpaceBase (of_nat (length T)) 0 = Some offs"
    and copying: "pipe_runs 2 cap (replication_work_ok (images (map write_op ws) img)) n
      (map (read_item HashedSpaceBase (of_nat (length T))) offs) q"
    and workers: "0 < n"
    and arrive: "mset ps = mset (concat (map replication_packets (out q)))"
    and ws: "\<forall>w \<in> set ws. captured (length T) w" "map snd wq = map write_packet ws"
  shows "\<exists>s'. HandleWritePackets wq (SetState StateWriting (HandleReplicationPackets ps s)) = Some (Inr (), s') \<and>
    dev_bytes (TargetDevFd s') = replay (map write_op ws) img"
proof -
  have sz: "pass_sizes HashedSpaceBase (length T)" using size(1) by (simp add: pass_sizes_def HashedSpaceBase_def)
  have hist: "images (map write_op ws) img \<noteq> []" "\<And>i. i \<in> set (images (map write_op ws) img) \<Longrightarrow> length i = length T"
    using images_props size(2) by auto
  from repl_items [OF sz hist offs copying workers] obtain b where
    b: "set (out q) = (\<lambda>k. repl_item (unat HashedSpaceBase) (length T) k (b k)) ` {..<block_count (unat HashedSpaceBase) (length T)}"
    "\<And>k. k < block_count (unat HashedSpaceBase) (length T) \<Longrightarrow> blend (images (map write_op ws) img) (b k) \<and> length (b k) = length T"
    by metis
  note bl = repl_blend [OF sz hist b arrive]
  let ?s = "SetState StateWriting (HandleReplicationPackets ps s)"
  have td: "dev_bytes (TargetDevFd ?s) = replay (repl_ops ps) T" "GetState ?s = StateWriting"
    using HandleReplicationPackets_replays [OF server, of ps] size(1) by (simp_all add: T_def SetState_def GetState_def)
  have "\<forall>w \<in> set ws. write_on (length (dev_bytes (TargetDevFd ?s))) w"
    using ws(1) captured_write_on [OF _ size(1)] by (simp add: td(1))
  from HandleWritePackets_applies [OF td(2) this ws(2)] show ?thesis
    using blend_redo [OF bl] by (auto simp: td(1))
qed

lemma replication_pass_runs:
  assumes "hist \<noteq> []" and "\<And>i. i \<in> set hist \<Longrightarrow> length i = L" and w: "0 < w"
  shows "\<exists>q. pipe_runs 2 (\<lambda>_. Suc m) (replication_work_ok hist) w src q"
proof -
  obtain i where i: "i \<in> set hist" using assms(1) by (cases hist) auto
  define ud where "ud = \<lparr>dev_bytes = i, dev_faults = [], dev_present = True, dev_block = True\<rparr>"
  have ud: "healthy ud" "blend hist (dev_bytes ud)" using assms(2) i by (auto simp: ud_def healthy_def blend_def)
  have "\<exists>v. replication_work_ok hist k x v \<and> (\<forall>y. v = Abort y \<longrightarrow> Suc k < 2)" if "k < 2" for k x
  proof (intro exI conjI allI impI)
    show "replication_work_ok hist k x (replication_stage ud k x)" using ud by (auto simp: replication_work_ok_def)
    show "Suc k < 2" if "replication_stage ud k x = Abort y" for y
      using that by (simp add: replication_stage_sends)
  qed
  from rwk.completes [where cap = "\<lambda>_. Suc m" and src = src, OF rtranclp.rtrancl_refl w _ _ this] show ?thesis by (auto simp: pipe_runs_def pipe_init_def)
qed

theorem replication_converges_witness:
  "\<exists>(q :: ReplicationItem pipe) s'. HandleWritePackets [(3, write_packet demo_update)]
       (SetState StateWriting (HandleReplicationPackets (concat (map replication_packets (out q))) demo_scan)) = Some (Inr (), s') \<and>
     dev_bytes (TargetDevFd s') = [4, 7, 8]"
proof -
  have td: "healthy (TargetDevFd demo_scan)" "length (dev_bytes (TargetDevFd demo_scan)) = 3"
    by (simp_all add: demo_scan_def demo_blank_def healthy_def)
  have sz: "pass_sizes HashedSpaceBase (length (dev_bytes (TargetDevFd demo_scan)))"
    by (simp add: td(2) pass_sizes_def HashedSpaceBase_def)
  note offs = pass_offsets [OF sz]
  let ?hist = "images (map write_op [demo_update]) [4, 5, 6]"
  have hist: "?hist \<noteq> []" "\<And>i. i \<in> set ?hist \<Longrightarrow> length i = 3"
    by (rule images_props(1)) (drule images_props(2), simp)
  obtain q where q: "pipe_runs 2 (\<lambda>_. Suc 1) (replication_work_ok ?hist) 2
      (map (read_item HashedSpaceBase (of_nat (length (dev_bytes (TargetDevFd demo_scan)))))
        (map (blk_off (unat HashedSpaceBase)) [0..<block_count (unat HashedSpaceBase) (length (dev_bytes (TargetDevFd demo_scan)))])) q"
    using replication_pass_runs [OF hist zero_less_numeral] by blast
  have ws: "\<forall>w \<in> set [demo_update]. captured (length (dev_bytes (TargetDevFd demo_scan))) w"
    by (simp add: td(2) captured_def demo_update_def)
  have fin: "replay (map write_op [demo_update]) [4, 5, 6] = [4, 7, 8]" by (simp add: write_op_def demo_update_def overwrite_def)
  have "\<exists>s'. HandleWritePackets [(3, write_packet demo_update)]
       (SetState StateWriting (HandleReplicationPackets (concat (map replication_packets (out q))) demo_scan)) = Some (Inr (), s') \<and>
     dev_bytes (TargetDevFd s') = replay (map write_op [demo_update]) [4, 5, 6]"
    by (rule replication_converges [OF td(1) _ _ offs q _ refl ws]) (simp_all add: td(2))
  then show ?thesis unfolding fin by blast
qed

end
