(* ===== verification/Pass_Safety.thy ===== *)
theory Pass_Safety
  imports Scan
begin

text \<open>
  The pipeline of \<^verbatim>\<open>HashDisk\<close> under faults and termination requests: how every pass ends, and
  what becomes of the channels.  The readers of \<^verbatim>\<open>HashDisk\<close> report a read error directly to
  the last channel, past the workers that close it.
\<close>

subsection \<open>Every pass ends\<close>

lemma hash_work_live:
  assumes "k < 3"
  shows "\<exists>v. hash_work hash readSize td k x v \<and> (\<forall>y. v = Abort y \<longrightarrow> Suc k < 3)"
proof (intro exI conjI allI impI)
  show "hash_work hash readSize td k x (hash_stage hash readSize (td\<lparr>dev_faults := []\<rparr>) k x)" by (auto simp: hash_work_def)
  show "Suc k < 3" if "hash_stage hash readSize (td\<lparr>dev_faults := []\<rparr>) k x = Abort y" for y
    using hash_stage_abort [OF that] by simp
qed



subsection \<open>Sending on the channels\<close>

text \<open>
  C24: As long as a hashing pass is not told to stop, no goroutine of it sends on a closed
  channel and nothing panics: while the producer has offsets left its channel is open, while
  a reader is at work both the channel of the hashers and that of the senders are open, and
  while a hasher is at work the channel of the senders is.
\<close>

theorem hash_channels_open:
  assumes "(pipe_step 3 cap (hash_work hash readSize td))\<^sup>*\<^sup>* (pipe_init w src) p" and "0 < w" and "\<not> stop p"
  shows "(todo p \<noteq> [] \<longrightarrow> \<not> closed p 0) \<and> (busy p 0 \<noteq> {#} \<longrightarrow> \<not> closed p 1 \<and> \<not> closed p 2) \<and>
    (busy p 1 \<noteq> {#} \<longrightarrow> \<not> closed p 2) \<and> \<not> panicked p"
proof -
  have "closing_inv 3 p" using closing_inv_steps [OF assms(1)] by simp
  then have "closed p 0 \<longrightarrow> todo p = []" "closed p (Suc 0) \<longrightarrow> busy p 0 = {#}"
    "closed p (Suc (Suc 0)) \<longrightarrow> busy p (Suc 0) = {#}" by (simp_all add: closing_inv_def)
  moreover have "\<not> closed p (Suc (Suc 0))" if "busy p 0 \<noteq> {#}" using hw.last_channel_open [OF assms _ that] by simp
  ultimately show ?thesis using hw.no_panic [OF assms] by (auto simp: numeral_2_eq_2)
qed

theorem hash_channels_open_witness:
  "todo (pipe_init 2 [ReadTask 0]) \<noteq> [] \<and> \<not> closed (pipe_init 2 [ReadTask 0]) 0"
  using hash_channels_open [of "\<lambda>_. 2" "\<lambda>_. 0" 4 "\<lparr>dev_bytes = [1, 2], dev_faults = [], dev_present = True, dev_block = True\<rparr>" 2 "[ReadTask 0]"
      "pipe_init 2 [ReadTask 0]"] by (simp add: pipe_init_def)

text \<open>The states of a run with one worker per stage that leads to a send on the closed channel.\<close>

definition race :: "HashItem list \<Rightarrow> HashItem list \<Rightarrow> HashItem list \<Rightarrow> HashItem multiset \<Rightarrow> HashItem multiset \<Rightarrow> nat \<Rightarrow> bool \<Rightarrow> bool \<Rightarrow> HashItem pipe" where
  "race t c0 c1 b0 b1 i1 cl st = \<lparr>todo = t, chan = (\<lambda>k. if k = 0 then c0 else if k = 1 then c1 else []),
     closed = (\<lambda>k. k = 2 \<and> cl), idle = (\<lambda>k. if k = 0 then 1 - size b0 else if k = 1 then i1 else 1),
     busy = (\<lambda>k. if k = 0 then b0 else if k = 1 then b1 else {#}), out = [], stop = st, panicked = False\<rparr>"

lemma race_steps:
  assumes "W 0 a (Pass c)"
  shows "(pipe_step 3 (\<lambda>_. 1) W)\<^sup>*\<^sup>* (race [a, b] [] [] {#} {#} 1 False False) (race [] [] [] {#b#} {#} 0 True True)"
proof -
  let ?S = "pipe_step 3 (\<lambda>_. 1) W"
  have to: "?S p q \<Longrightarrow> q = q' \<Longrightarrow> ?S p q'" for p q q' by simp
  note r = race_def fun_eq_iff and [trans] = rtranclp.rtrancl_into_rtrancl
  have "?S\<^sup>*\<^sup>* (race [a, b] [] [] {#} {#} 1 False False) (race [a, b] [] [] {#} {#} 1 False False)" by simp
  also have "?S (race [a, b] [] [] {#} {#} 1 False False) (race [b] [a] [] {#} {#} 1 False False)"
    by (rule to [OF pipe_step.act [OF _ pipe_act.produce [of _ a "[b]"]]]) (simp_all add: r)
  also have "?S \<dots> (race [b] [] [] {#a#} {#} 1 False False)"
    by (rule to [OF pipe_step.act [OF _ pipe_act.receive [of 0 _ _ a "[]"]]]) (simp_all add: r)
  also have "?S \<dots> (race [b] [] [c] {#} {#} 1 False False)"
    by (rule to [OF pipe_step.act [OF _ pipe_act.pass [of 0 _ _ a "{#}" _ c]]]) (simp_all add: r assms)
  also have "?S \<dots> (race [] [b] [c] {#} {#} 1 False False)"
    by (rule to [OF pipe_step.act [OF _ pipe_act.produce [of _ b "[]"]]]) (simp_all add: r)
  also have "?S \<dots> (race [] [] [c] {#b#} {#} 1 False False)"
    by (rule to [OF pipe_step.act [OF _ pipe_act.receive [of 0 _ _ b "[]"]]]) (simp_all add: r)
  also have "?S \<dots> (race [] [] [] {#b#} {#c#} 0 False False)"
    by (rule to [OF pipe_step.act [OF _ pipe_act.receive [of 1 _ _ c "[]"]]]) (simp_all add: r)
  also have "?S \<dots> (race [] [] [] {#b#} {#c#} 0 False True)"
    by (rule to [OF pipe_step.act [OF _ pipe_act.request_stop]]) (simp_all add: r)
  also have "?S \<dots> (race [] [] [] {#b#} {#} 0 False True)"
    by (rule to [OF pipe_step.act [OF _ pipe_act.stopped [of 1 _ _ c "{#}"]]]) (simp_all add: r)
  also have "?S \<dots> (race [] [] [] {#b#} {#} 0 True True)"
    by (rule to [OF pipe_step.act [OF _ pipe_act.close_next [of 1]]]) (simp_all add: r)
  finally show ?thesis .
qed

text \<open>
  C26: A pass that is told to stop can panic.  When the hashers have seen the request and
  returned, the channel of the results is closed while a reader is still waiting for its
  read; if that read fails, the reader sends the error on the closed channel, and the program
  is gone.
\<close>

theorem hash_stop_panics:
  assumes "dev_bytes td \<noteq> []" and "0 < readSize"
  shows "\<exists>p y. (pipe_step 3 (\<lambda>_. 1) (hash_work hash readSize td))\<^sup>*\<^sup>* (pipe_init 1 [ReadTask 0, ReadTask off]) p \<and>
    closed p 2 \<and> ReadTask off \<in># busy p 0 \<and> hash_work hash readSize td 0 (ReadTask off) (Abort y) \<and>
    pipe_step 3 (\<lambda>_. 1) (hash_work hash readSize td) p (p\<lparr>panicked := True\<rparr>)"
proof -
  let ?W = "hash_work hash readSize td" and ?d = "td\<lparr>dev_faults := []\<rparr>" and ?f = "td\<lparr>dev_faults := [Some 0]\<rparr>"
  have n: "0 < unat readSize" using assms(2) by (simp add: unat_gt_0 word_gt_0)
  have "bslice 0 (unat readSize) (dev_bytes td) \<noteq> []" using assms(1) n by (simp add: bslice_def)
  then have "\<exists>c. hash_stage hash readSize ?d 0 (ReadTask 0) = Pass c"
    using n by (auto simp: hash_read_def ReadAt_def next_fault_def)
  then obtain c where c: "?W 0 (ReadTask 0) (Pass c)" unfolding hash_work_def by metis
  have "\<exists>y. hash_stage hash readSize ?f 0 (ReadTask off) = Abort y"
    using n by (auto simp: hash_read_def ReadAt_def next_fault_def)
  then obtain y where y: "?W 0 (ReadTask off) (Abort y)" unfolding hash_work_def by metis
  have "pipe_init 1 [ReadTask 0, ReadTask off] = race [ReadTask 0, ReadTask off] [] [] {#} {#} 1 False False"
    by (simp add: pipe_init_def race_def fun_eq_iff)
  moreover let ?p = "race [] [] [] {#ReadTask off#} {#} 0 True True"
  have "sends_closed 3 ?W ?p" using y unfolding sends_closed_def by (intro exI [of _ 0] exI [of _ "ReadTask off"] exI [of _ y]) (simp add: race_def)
  then have "pipe_step 3 (\<lambda>_. 1) ?W ?p (?p\<lparr>panicked := True\<rparr>)" by (intro pipe_step.panic) (simp_all add: race_def)
  ultimately show ?thesis using race_steps [of ?W "ReadTask 0" c "ReadTask off", OF c] y
    by (intro exI [of _ ?p] exI [of _ y]) (simp add: race_def)
qed

theorem hash_stop_panics_witness:
  "\<exists>p y. (pipe_step 3 (\<lambda>_. 1) (hash_work (\<lambda>_. 0) 4 \<lparr>dev_bytes = [1, 2], dev_faults = [], dev_present = True, dev_block = True\<rparr>))\<^sup>*\<^sup>*
       (pipe_init 1 [ReadTask 0, ReadTask 4]) p \<and> closed p 2 \<and>
     hash_work (\<lambda>_. 0) 4 \<lparr>dev_bytes = [1, 2], dev_faults = [], dev_present = True, dev_block = True\<rparr> 0 (ReadTask 4) (Abort y) \<and>
     pipe_step 3 (\<lambda>_. 1) (hash_work (\<lambda>_. 0) 4 \<lparr>dev_bytes = [1, 2], dev_faults = [], dev_present = True, dev_block = True\<rparr>) p (p\<lparr>panicked := True\<rparr>)"
  using hash_stop_panics [of "\<lparr>dev_bytes = [1, 2], dev_faults = [], dev_present = True, dev_block = True\<rparr>" 4 "\<lambda>_. 0" 4] by auto

end
