(* ===== verification/Spec2Isabelle.thy ===== *)
theory Spec2Isabelle
  imports Client_Recovery Session_Scan Kernel_Module Replication Pass_Safety Pause Benchmark Ioctl Recovery
begin

text \<open>
  \<^bold>\<open>Verification of the Block Device Replicator.\<close>

  \<^bold>\<open>The program.\<close>  BDR keeps a replica of a block device on another machine.  On the source
  machine a kernel module (\<^verbatim>\<open>src/kern\<close>) provides a device-mapper target; every write that
  passes through it is copied into a ring buffer shared with user space, and only 32 bits of
  its sector are kept.  The client daemon (\<^verbatim>\<open>src/user/client\<close>) reads that buffer and sends
  the writes to the server daemon (\<^verbatim>\<open>src/user/server\<close>), which applies them to the replica.
  When the buffer overflows, when the connection was lost, or at the start, the two daemons
  run a scan: the server hashes the blocks of the replica, the client compares them with the
  source and sends the blocks that differ, then the writes captured meanwhile.  The server
  collects both in a journal on a separate device (\<^verbatim>\<open>src/user/journal\<close>) and applies the
  journal only when it is complete, so that a crash leaves either the old replica or a valid
  journal that is replayed at the next start.  A full scan and a full replication write to
  the replica directly.

  \<^bold>\<open>The theories, bottom up.\<close>

  \<^item> \<open>BDR_Prelude\<close>: machine integers (\<open>u8\<close> to \<open>u64\<close> are words), byte encodings, slices, errors
    as values (\<open>'a result\<close> is \<open>go_error + 'a\<close>; \<open>Panic\<close> is an error that ends the program).
    \<open>Replay\<close>: the algebra of replaying writes on an image.  \<open>Go_Device\<close>: \<^verbatim>\<open>os.File\<close> on a block
    device, with a schedule of faults and torn writes.
  \<^item> \<open>Networking\<close>, \<open>Utils\<close>, \<open>Benchmark\<close>, \<open>Config\<close>, \<open>Ioctl\<close>, \<open>Pause\<close>: the packages of the same
    names and the two configurations; \<open>Pause\<close> also has the pause controller under any
    interleaving of goroutines.
  \<^item> \<open>Journal\<close>: all functions of \<^verbatim>\<open>journal.go\<close> on a device.  \<open>Journal_Log\<close>: the locale
    \<open>slot_section\<close> is the contract of a section of slots; it is interpreted on the section of
    writes and on that of blocks.  It shows that what was appended survives reopening, that a
    reset journal is empty, what \<^verbatim>\<open>NewJournal\<close> rejects, and three defects.
  \<^item> \<open>Pipeline\<close>: the worker pipelines of both daemons as an interleaving semantics
    (\<open>pipe_step\<close>: an action of a goroutine, \<open>pipe_act\<close>, or the panic of a send on a closed
    channel) with any number of stages, workers and channel capacities; every run ends or
    panics.  The locale \<open>reporting_stages\<close> gives that a run that is not stopped does not panic and
    that its results are those of the workers on the items, in any order.  \<open>Scan\<close>: the stages of
    \<^verbatim>\<open>HashDisk\<close>, \<^verbatim>\<open>InitHashing\<close> and \<^verbatim>\<open>InitReplication\<close>, on which the locale is interpreted.  \<open>Scan_Correct\<close>: which blocks a scan
    finds, while the source is written to.  \<open>Pass_Safety\<close>: the hashing pass under faults and
    termination.
  \<^item> \<open>Server\<close>: the journal and recovery functions of \<^verbatim>\<open>server.go\<close>.  \<open>Recovery\<close>: crash safety, with
    the locales \<open>journal_copy\<close> and \<open>journal_apply\<close>, which extend \<open>journal_loop\<close>, interpreted on
    the loop bodies.
    \<open>Server_Handlers\<close>: the opening of a session, all packet handlers, the accept loop and the
    program.  \<open>Session\<close>: the loop of \<^verbatim>\<open>HandleClient\<close> with its queues, its
    workers and \<^verbatim>\<open>HashDisk\<close> as an interleaving (\<open>session_step\<close>): channels are never closed twice
    nor sent to when closed, and a full replication can lose its worker.  \<open>Session_Scan\<close>: a
    scan in a session refines the sequential handlers and always makes progress; an old
    write may be applied after it.
  \<^item> \<open>Scan_Converges\<close> and \<open>Replication\<close>: the server side of a scan and of a full replication
    brings the replica to the source.
  \<^item> \<open>Ring_Buffer\<close>: \<^verbatim>\<open>ring-buffer.c\<close>; the locale \<open>write_queue\<close> is its contract as a bounded queue
    with a region handed to the reader.  \<open>Kernel\<close>: the bitmap, the target and the ioctl
    handler.  \<open>Kernel_Module\<close>: loading and unloading, constructor and destructor with
    the resources they hold, the minor numbers, the mapping of the buffer; a constructor that
    reports success without a context leaves a target that the destructor cannot take.
  \<^item> \<open>Client\<close>: all of \<^verbatim>\<open>client.go\<close>.  \<open>Client_Correct\<close>: the client reads from the buffer exactly what
    was captured.  \<open>Client_Recovery\<close>: sends while the listener may reconnect, lost connections,
    reconnection, the client's side of a scan.
  \<^item> This theory: the properties that span the kernel module, the client and the server.

  \<^bold>\<open>How state and operations correspond.\<close>  A struct is a record with the fields of the source
  (renamed only where a name is taken); a method takes the record and returns it changed.
  What the operating system or the network decides is part of the state as a schedule: the
  outcomes of the next system calls of a device, of the next sends, of the next dials and
  ioctls, the packets that will arrive, the connections that the listener puts in place between
  two attempts of another goroutine's send (\<open>cListener\<close>), and after how many polls the
  termination channel is found closed.  The hash function of the scan is a parameter; the only property used is
  \<open>collision_free\<close> on the blocks compared.  The block layer below the target is the parameter
  \<open>submit\<close>, of which \<open>block_layer\<close> says that it performs the writes.

  \<^bold>\<open>Loops, bounds, fuel.\<close>  There is no fuel.  Loops over data are recursive functions with a
  termination proof.  Loops that may run forever (\<^verbatim>\<open>SendPacket\<close>, \<^verbatim>\<open>ReceivePacket\<close>, the retry in
  \<^verbatim>\<open>HandleWritePackets\<close>, the wait for an ioctl) are \<^theory_text>\<open>partial_function (option)\<close>, where \<open>None\<close> is
  that the call does not return, and it is proved when they return.  The daemons' endless
  loops are run for the rounds given as a list.  Devices are smaller than \<open>2 ^ 63\<close> bytes, the
  limit of a Go file offset, and where a captured write is followed to the replica smaller
  than 2 TiB; \<open>sector_truncated\<close> shows why.

  \<^bold>\<open>What the properties show.\<close>  The composition: outside a scan the replica follows the source
  (\<open>replica_follows_source\<close>), a scan makes them equal while the source is in use
  (\<open>scan_reaches_source\<close>), an overflow and a lost connection lead to a scan (\<open>overflow_rescans\<close>,
  \<open>reconnect_rescans\<close>), a crash while the journal is applied is repaired (\<open>crash_recovery\<close>).  The
  components: the ring buffer is a bounded queue, appended entries survive, a session applies
  a scan as the sequential handlers do, a pass that is not stopped completes, the pause controller never blocks,
  the kernel module releases what it holds.  The remaining properties pin down the error
  behaviour and the defects found.

  \<^bold>\<open>Not modelled.\<close>  Output for humans: the \<^verbatim>\<open>Print\<close> methods, \<^verbatim>\<open>PrintStats\<close> and
  \<^verbatim>\<open>StartStatsPrinting\<close>, \<^verbatim>\<open>HexDump\<close>, \<^verbatim>\<open>bdr_bitmap_print\<close>, the \<^verbatim>\<open>String\<close> of a journal; the clock, so a
  measured duration is an argument; \<^verbatim>\<open>GetSectorSize\<close>, which nothing calls; the wire format of
  \<^verbatim>\<open>encoding/gob\<close> and the parsing of \<^verbatim>\<open>pflag\<close>, which are libraries: a packet arrives as it was
  sent or the call fails, and the flags arrive as a map; the services of the kernel
  (allocation, registration, device numbers, copies to user space, the block layer), whose
  answers are arguments; the memory model of Go and C below
  the level of one lock-protected or channel operation.
\<close>

section \<open>From the source device to the replica\<close>

text \<open>
  The block layer below the target is not part of the repository: \<open>submit\<close> stands for it.  What
  is relied on is that a write request writes its segments to the device, in order, and a
  request that is not a write leaves the bytes of the device as they are.
\<close>

definition bvec_op :: "bio_vec \<Rightarrow> disk_write" where
  "bvec_op v = (512 * unat (bv_sector v), bslice (unat (bv_offset v)) (unat (bv_len v)) (bv_page v))"

definition block_layer :: "(bio \<Rightarrow> bytes \<Rightarrow> bytes) \<Rightarrow> bool" where
  "block_layer submit \<longleftrightarrow> (\<forall>b img. submit b img = (if bio_is_write b then replay (map bvec_op (bio_segments b)) img else img))"

text \<open>A sequence of requests that pass through the target, and what they write.\<close>

fun map_bios :: "(bio \<Rightarrow> bytes \<Rightarrow> bytes) \<Rightarrow> bio list \<Rightarrow> bdr_context \<times> bytes \<Rightarrow> (bdr_context \<times> bytes) option" where
  "map_bios submit [] st = Some st"
| "map_bios submit (b # bs) st = Option.bind (bdr_target_map submit b st) (map_bios submit bs)"

definition written :: "bio list \<Rightarrow> bio_vec list" where
  "written bs = concat (map bio_segments (filter bio_is_write bs))"

text \<open>A segment within one page that lies on a device of \<open>L\<close> bytes and below the 32-bit limit of sectors.\<close>

definition capturable :: "nat \<Rightarrow> bio_vec \<Rightarrow> bool" where
  "capturable L v \<longleftrightarrow> single_page v \<and> unat (bv_sector v) < 2 ^ 32 \<and> 512 * unat (bv_sector v) + unat (bv_len v) \<le> L"

lemma put_segments_append: "put_segments (vs @ ws) rb = put_segments ws (put_segments vs rb)"
  by (simp add: put_segments_def)

lemma capturable_ok: "list_all (capturable L) vs \<Longrightarrow> list_all segment_ok (map segment_of vs)"
  by (auto simp: list_all_iff capturable_def single_page_def)

lemma put_segments_over:
  assumes "ring_inv rb" and "list_all segment_ok ws"
  shows "ring_inv (put_segments ws rb)" and "overflown (rb_info rb) \<Longrightarrow> overflown (rb_info (put_segments ws rb))"
  using ring.puts_keep [OF assms] ring.puts_over_mono [OF assms] by (simp_all add: put_segments_def)

text \<open>Unless the buffer overflows it holds what was written, and the source has it too.\<close>

lemma map_bios_effect:
  assumes "block_layer submit" and "\<forall>b \<in> set bs. list_all (capturable L) (bio_segments b)" and "map_bios submit bs (bc, img) = Some (bc', img')"
    and "ring_inv (ring_buf bc)" and "\<not> overflown (rb_info (ring_buf bc'))"
  shows "\<not> overflown (rb_info (ring_buf bc)) \<and> ring_buf bc' = put_segments (map segment_of (written bs)) (ring_buf bc) \<and>
    img' = replay (map bvec_op (written bs)) img"
  using assms
proof (induction bs arbitrary: bc img)
  case Nil
  then show ?case by (simp add: written_def put_segments_def)
next
  case (Cons b bs)
  have cap: "list_all (capturable L) (bio_segments b)" and sp: "list_all single_page (bio_segments b)"
    using Cons.prems(2) by (auto simp: list_all_iff capturable_def)
  from Cons.prems(3) obtain bc1 img1 where t: "bdr_target_map submit b (bc, img) = Some (bc1, img1)"
      "map_bios submit bs (bc1, img1) = Some (bc', img')" by (auto simp: bind_eq_Some_conv)
  note e = target_map_effect [OF sp t(1)]
  have inv: "ring_inv (ring_buf bc1)" using e put_segments_over(1) [OF Cons.prems(4) capturable_ok [OF cap]] Cons.prems(4) by auto
  have ih: "\<not> overflown (rb_info (ring_buf bc1))" "ring_buf bc' = put_segments (map segment_of (written bs)) (ring_buf bc1)"
    "img' = replay (map bvec_op (written bs)) img1" using Cons.IH [OF Cons.prems(1) _ t(2) inv Cons.prems(5)] Cons.prems(2) by auto
  have free: "\<not> overflown (rb_info (ring_buf bc))" using e ih(1) by auto
  have w: "written (b # bs) = (if bio_is_write b then bio_segments b else []) @ written bs" by (simp add: written_def)
  show ?case using e ih free Cons.prems(1) by (auto simp: w put_segments_append block_layer_def put_segments_def)
qed

lemma segment_op_capturable: "capturable L v \<Longrightarrow> segment_op (segment_of v) = bvec_op v"
  by (simp add: capturable_def segment_op_def segment_of_def bvec_op_def segment_data_def unat_u64_u32)

text \<open>The packets into which the client turns what the kernel module captured.\<close>

lemma decoded_writes:
  assumes "list_all (capturable L) vs" and "list_all2 decodes (map segment_of vs) wis"
  shows "map write_op wis = map bvec_op vs" and "\<forall>w \<in> set wis. captured L w"
proof -
  have len: "length wis = length vs" using list_all2_lengthD [OF assms(2)] by simp
  have k: "decodes (segment_of (vs ! k)) (wis ! k) \<and> capturable L (vs ! k)" if "k < length vs" for k
    using assms that by (simp add: list_all2_conv_all_nth list_all_length)
  show "map write_op wis = map bvec_op vs"
    using k segment_op_capturable len by (intro nth_equalityI) (auto simp: decodes_def)
  have "captured L (wis ! k)" if "k < length vs" for k
  proof -
    from k [OF that] have d: "write_op (wis ! k) = segment_op (segment_of (vs ! k))" "wiSize (wis ! k) = bv_len (vs ! k)"
      "length (wiData (wis ! k)) = 4096" and c: "capturable L (vs ! k)"
      by (simp_all add: decodes_def segment_of_def PAGE_SIZE_def)
    have "unat (wiOffset (wis ! k)) = 512 * unat (bv_sector (vs ! k))"
      using d(1) segment_op_capturable [OF c] by (simp add: write_op_def bvec_op_def)
    moreover have "bv_len (vs ! k) \<noteq> 0" "unat (bv_len (vs ! k)) \<le> 4096"
      using c by (auto simp: capturable_def single_page_def segment_ok_def segment_of_def PAGE_SIZE_def)
    ultimately show ?thesis using d(2,3) c by (simp add: captured_def capturable_def unat_gt_0)
  qed
  then show "\<forall>w \<in> set wis. captured L w" by (metis in_set_conv_nth len)
qed

text \<open>The buffer after an empty start: what is pending are the entries of the segments written.\<close>

lemma pending_written:
  assumes "ring_inv rb" and "pending rb = []" and "list_all segment_ok ws" and "\<not> overflown (rb_info (put_segments ws rb))"
  shows "list_all2 entry_of ws (pending (put_segments ws rb))" and "ring_inv (put_segments ws rb)"
  using ring.puts_pend [OF assms(1,3)] ring.puts_keep [OF assms(1,3)] assms(2,4) by (auto simp: put_segments_def)

text \<open>The requests of a period that starts with an empty buffer and does not fill it, and the client after it.\<close>

lemma capture_period:
  assumes bios: "block_layer submit" "\<forall>b \<in> set bs. list_all (capturable L) (bio_segments b)" "map_bios submit bs (bc, img) = Some (bc', img')"
    and ring: "ring_inv (ring_buf bc)" "pending (ring_buf bc) = []" "\<not> overflown (rb_info (ring_buf bc'))"
    and client: "client_up c" "cKernel c = bc'"
  shows "\<exists>ws c'. SendBuffer c = Some (Inr True, c') \<and> conn_out (cConn c') = conn_out (cConn c) @ map write_packet ws \<and>
      img' = replay (map write_op ws) img \<and> map write_op ws = map bvec_op (written bs) \<and> (\<forall>w \<in> set ws. captured L w)"
    and "cPause c = None \<Longrightarrow> \<exists>ws c'. monitor_step pick es c = Some (Inr False, c') \<and>
      conn_out (cConn c') = conn_out (cConn c) @ map write_packet ws \<and>
      img' = replay (map write_op ws) img \<and> (\<forall>w \<in> set ws. captured L w)"
proof -
  let ?vs = "written bs"
  have e: "ring_buf bc' = put_segments (map segment_of ?vs) (ring_buf bc)" "img' = replay (map bvec_op ?vs) img"
    using map_bios_effect [OF bios ring(1,3)] by simp_all
  have cap: "list_all (capturable L) ?vs" using bios(2) by (auto simp: written_def list_all_iff)
  note ok = capturable_ok [OF cap] and dec = decoded_writes [OF cap]
  have pend: "list_all2 entry_of (map segment_of ?vs) (pending (ring_buf (cKernel c)))" "ring_inv (ring_buf (cKernel c))"
    using pending_written [OF ring(1,2) ok] ring(3) client(2) by (simp_all add: e(1))
  note cs = client_sends [OF client(1) pend(2) _ pend(1) ok]
  show "\<exists>ws c'. SendBuffer c = Some (Inr True, c') \<and> conn_out (cConn c') = conn_out (cConn c) @ map write_packet ws \<and>
      img' = replay (map write_op ws) img \<and> map write_op ws = map bvec_op ?vs \<and> (\<forall>w \<in> set ws. captured L w)"
    using cs(1) ring(3) client(2) dec e(2) by (metis drained_simps(1) sent_on_simps(3))
  show "\<exists>ws c'. monitor_step pick es c = Some (Inr False, c') \<and>
      conn_out (cConn c') = conn_out (cConn c) @ map write_packet ws \<and>
      img' = replay (map write_op ws) img \<and> (\<forall>w \<in> set ws. captured L w)" if "cPause c = None"
    using cs(2) [OF _ that] ring(3) client(2) dec e(2) by (metis drained_simps(1) sent_on_simps(3))
qed

text \<open>An example: one request, through a buffer of four slots.\<close>

definition submit_bio :: "bio \<Rightarrow> bytes \<Rightarrow> bytes" where
  "submit_bio b img = (if bio_is_write b then replay (map bvec_op (bio_segments b)) img else img)"

lemma block_layer_submit_bio: "block_layer submit_bio"
  by (simp add: block_layer_def submit_bio_def)

definition demo_request :: bio where
  "demo_request = \<lparr>bio_is_write = True,
     bio_segments = [\<lparr>bv_page = [7, 8] @ replicate 4094 0, bv_offset = 0, bv_len = 2, bv_sector = 0\<rparr>]\<rparr>"

lemma demo_client_put:
  assumes "list_all segment_ok ws" and "ring_buf bc = put_segments ws demo_ring"
  shows "client_up (demo_client bc)"
proof -
  have keep: "ring_inv (put_segments ws demo_ring)" "unat (bi_max_writes (rb_info (put_segments ws demo_ring))) = 4"
    using ring.puts_keep [OF demo_ring_facts(1) assms(1)] demo_ring_facts(6) by (simp_all add: put_segments_def)
  then show ?thesis using ring_invD(5) [OF keep(1)]
    by (simp add: client_up_def conn_ok_def client_of_ring_def demo_client_def assms(2) go_target_info_def bdr_get_target_info_def
        bdr_ring_buffer_get_byte_size_def BDR_WRITES_TO_BYTES_def demo_ring_def demo_context_def BDR_WRITE_INFO_SIZE_def PAGE_SIZE_def)
qed

lemma demo_request_captured:
  obtains bc' where "map_bios submit_bio [demo_request] (demo_context, [4, 5, 6]) = Some (bc', [7, 8, 6])"
    and "\<not> overflown (rb_info (ring_buf bc'))" and "client_up (demo_client bc')" and "cKernel (demo_client bc') = bc'"
    and "cPause (demo_client bc') = None" and "conn_out (cConn (demo_client bc')) = []"
    and "\<forall>b \<in> set [demo_request]. list_all (capturable 3) (bio_segments b)"
    and "ring_inv (ring_buf demo_context)" and "pending (ring_buf demo_context) = []"
    and "written [demo_request] = bio_segments demo_request"
proof -
  have cap: "list_all (capturable 3) (bio_segments demo_request)"
    by (simp add: demo_request_def capturable_def single_page_def segment_ok_def segment_of_def PAGE_SIZE_def)
  then have sp: "list_all single_page (bio_segments demo_request)" by (auto simp: list_all_iff capturable_def)
  have ring: "ring_buf demo_context = demo_ring" "ring_inv demo_ring" "pending demo_ring = []" "\<not> overflown (rb_info demo_ring)"
    using demo_ring_facts by (simp_all add: demo_context_def)
  obtain bc' where t: "bdr_target_map submit_bio demo_request (demo_context, [4, 5, 6]) = Some (bc', [7, 8, 6])"
    using ring(1,4) by (simp add: bdr_target_map_def bdr_ring_buffer_is_full_def demo_request_def submit_bio_def bvec_op_def
        bslice_def overwrite_def)
  let ?ws = "map segment_of (bio_segments demo_request)"
  have rb: "ring_buf bc' = put_segments ?ws demo_ring"
    using target_map_effect [OF sp t] ring by (simp add: demo_request_def)
  note ok = capturable_ok [OF cap]
  have over: "\<not> overflown (rb_info (put_segments ?ws demo_ring))"
    using ring.puts_over [OF ring(2) ok ring(4)] demo_ring_facts(3,4,6) by (simp add: put_segments_def demo_request_def)
  note demo_client_put [OF ok rb]
  then show ?thesis using that [of bc'] t over cap ring rb
    by (simp add: demo_client_def written_def demo_request_def)
qed

text \<open>
  C2: Outside a scan the replica follows the source.  A sequence of requests passes through
  the device-mapper target and does not fill the buffer; then an iteration of the monitor of
  the client sends packets on its connection, and when the server handles them, a replica
  that was equal to the source before the requests is equal to it after them.  The device
  has less than 2 TiB and the replica may have transient faults.
\<close>

theorem replica_follows_source:
  assumes bios: "block_layer submit" "\<forall>b \<in> set bs. list_all (capturable (length img)) (bio_segments b)" "map_bios submit bs (bc, img) = Some (bc', img')"
    and ring: "ring_inv (ring_buf bc)" "pending (ring_buf bc) = []" "\<not> overflown (rb_info (ring_buf bc'))"
    and client: "client_up c" "cKernel c = bc'" "cPause c = None"
    and server: "GetState s = StateWriting" "dev_bytes (TargetDevFd s) = img" "length img < 2 ^ 63"
  shows "\<exists>c' ps. monitor_step pick es c = Some (Inr False, c') \<and> conn_out (cConn c') = conn_out (cConn c) @ ps \<and>
    (\<forall>times. length times = length ps \<longrightarrow>
       (\<exists>s'. HandleWritePackets (zip times ps) s = Some (Inr (), s') \<and> dev_bytes (TargetDevFd s') = img'))"
proof -
  obtain ws c' where w: "monitor_step pick es c = Some (Inr False, c')"
      "conn_out (cConn c') = conn_out (cConn c) @ map write_packet ws" "img' = replay (map write_op ws) img"
      "\<forall>w \<in> set ws. captured (length img) w"
    using capture_period(2) [OF bios ring client] by blast
  have on: "\<forall>w \<in> set ws. write_on (length (dev_bytes (TargetDevFd s))) w"
    using w(4) captured_write_on [OF _ server(3)] server(2) by simp
  have "\<exists>s'. HandleWritePackets (zip times (map write_packet ws)) s = Some (Inr (), s') \<and> dev_bytes (TargetDevFd s') = img'"
    if "length times = length ws" for times :: "u64 list"
    using HandleWritePackets_applies [OF server(1) on, of "zip times (map write_packet ws)"] that w(3) server(2) by auto
  then show ?thesis using w(1,2) by (intro exI [of _ c'] exI [of _ "map write_packet ws"]) simp
qed

theorem replica_follows_source_witness:
  "\<exists>bc' c' ps s'. map_bios submit_bio [demo_request] (demo_context, [4, 5, 6]) = Some (bc', [7, 8, 6]) \<and>
     monitor_step False [] (demo_client bc') = Some (Inr False, c') \<and> conn_out (cConn c') = ps \<and>
     HandleWritePackets (zip (replicate (length ps) 1) ps)
       (demo_server\<lparr>sstate := StateWriting, TargetDevFd := demo_blank\<lparr>dev_bytes := [4, 5, 6]\<rparr>\<rparr>) = Some (Inr (), s') \<and>
     dev_bytes (TargetDevFd s') = [7, 8, 6]"
proof -
  let ?s = "demo_server\<lparr>sstate := StateWriting, TargetDevFd := demo_blank\<lparr>dev_bytes := [4, 5, 6]\<rparr>\<rparr>"
  obtain bc' where b: "map_bios submit_bio [demo_request] (demo_context, [4, 5, 6]) = Some (bc', [7, 8, 6])"
    "\<not> overflown (rb_info (ring_buf bc'))" "client_up (demo_client bc')" "cKernel (demo_client bc') = bc'"
    "cPause (demo_client bc') = None" "conn_out (cConn (demo_client bc')) = []"
    "\<forall>b \<in> set [demo_request]. list_all (capturable 3) (bio_segments b)"
    "ring_inv (ring_buf demo_context)" "pending (ring_buf demo_context) = []" by (rule demo_request_captured)
  have "\<exists>c' ps. monitor_step False [] (demo_client bc') = Some (Inr False, c') \<and>
    conn_out (cConn c') = conn_out (cConn (demo_client bc')) @ ps \<and>
    (\<forall>times. length times = length ps \<longrightarrow>
       (\<exists>s'. HandleWritePackets (zip times ps) ?s = Some (Inr (), s') \<and> dev_bytes (TargetDevFd s') = [7, 8, 6]))"
    by (rule replica_follows_source [OF block_layer_submit_bio _ b(1,8,9,2,3,4,5)]) (use b(7) in \<open>simp_all add: GetState_def numeral_3_eq_3\<close>)
  then obtain c' ps where c: "monitor_step False [] (demo_client bc') = Some (Inr False, c')" "conn_out (cConn c') = ps"
    "\<And>times. length times = length ps \<Longrightarrow>
       \<exists>s'. HandleWritePackets (zip times ps) ?s = Some (Inr (), s') \<and> dev_bytes (TargetDevFd s') = [7, 8, 6]"
    using b(6) by auto
  from c(3) [of "replicate (length ps) 1"] obtain s' where
    "HandleWritePackets (zip (replicate (length ps) 1) ps) ?s = Some (Inr (), s') \<and> dev_bytes (TargetDevFd s') = [7, 8, 6]" by auto
  then show ?thesis using b(1) c(1,2) by blast
qed

text \<open>Example runs of the two passes on a replica of three bytes.\<close>

lemma demo_passes:
  assumes hist: "hist \<noteq> []" "\<And>i. i \<in> set hist \<Longrightarrow> length i = 3"
  obtains s h s1 q1 q2 where "scan_ready s h" and "journal_slots h" and "GetState s = StateHashing" and "sendFaults s = []"
    and "healthy (TargetDevFd s)" and "dev_bytes (TargetDevFd s) = [0, 0, 0]"
    and "unat (bufWritesCount h) = 2" and "unat (corrBlocksCount h) = 1"
    and "pipe_runs 3 (\<lambda>_. Suc 1) (hash_work_ok get_be HashedSpaceBase (TargetDevFd s)) 2
      (map ReadTask (map (blk_off (unat HashedSpaceBase)) [0..<block_count (unat HashedSpaceBase) 3])) q1"
    and "HashDisk 2 (map (Pair False) (out q1)) 1 s = (Inr (), s1)"
    and "pipe_runs 3 (\<lambda>_. Suc 1) (scan_work_ok get_be hist) 2 (map HashPacket (hash_packets_since (sent s) s1)) q2"
    and "length (packet_blocks (concat (map comp_packets (out q2)))) \<le> 1" and "CreateJournal demo_scan = (Inr (), s)"
proof -
  obtain s h where s: "CreateJournal demo_scan = (Inr (), s)" "scan_ready s h" "journal_slots h"
    "unat (bufWritesCount h) = 2" "unat (corrBlocksCount h) = 1" "TargetDevFd s = TargetDevFd demo_scan"
    "GetState s = StateHashing" "sendFaults s = []" by (rule demo_scan_ready)
  have td: "healthy (TargetDevFd s)" "dev_bytes (TargetDevFd s) = [0, 0, 0]" "length (dev_bytes (TargetDevFd s)) = 3"
    by (simp_all add: s(6) demo_scan_def demo_blank_def healthy_def)
  have sz: "pass_sizes HashedSpaceBase (length (dev_bytes (TargetDevFd s)))"
    by (simp add: td(3) pass_sizes_def HashedSpaceBase_def)
  obtain q1 where q1: "pipe_runs 3 (\<lambda>_. Suc 1) (hash_work_ok get_be HashedSpaceBase (TargetDevFd s)) 2
      (map ReadTask (map (blk_off (unat HashedSpaceBase)) [0..<block_count (unat HashedSpaceBase) (length (dev_bytes (TargetDevFd s)))])) q1"
    using hash_pass_runs [OF zero_less_numeral] by blast
  obtain s0 h0 where s0: "HashDisk_start s = (Inr True, s0)" "TargetDevFd s0 = TargetDevFd s" "sendFaults s0 = []"
      "sent s0 = sent s @ [CreateInfoPacket PacketTypeInfoStartHashing]"
    using HashDisk_start_resets [OF s(2,7,8)] by blast
  obtain s1 where s1: "HashDisk 2 (map (Pair False) (out q1)) 1 s = (Inr (), s1)"
      "sent s1 = sent s @ [CreateInfoPacket PacketTypeInfoStartHashing] @ concat (map result_packets (out q1)) @ [CreateInfoPacket PacketTypeInfoHashingCompleted]"
    using HashDisk_sends [OF s0(1,3), of 2 "out q1" 1] s0(2,4) by auto
  obtain q2 where q2: "pipe_runs 3 (\<lambda>_. Suc 1) (scan_work_ok get_be hist) 2 (map HashPacket (hash_packets_since (sent s) s1)) q2"
    using scan_pass_runs [OF hist zero_less_numeral] by blast
  have ps: "mset (hash_packets_since (sent s) s1) = mset (map (\<lambda>k. hash_packet (block_hash get_be (unat HashedSpaceBase) (dev_bytes (TargetDevFd s)) k))
       [0..<block_count (unat HashedSpaceBase) (length (dev_bytes (TargetDevFd s)))])"
    by (rule scan_hashes [OF sz td(1) _ pass_offsets [OF sz] q1 s1(2)]) simp_all
  have "block_count (unat HashedSpaceBase) 3 = 1" by (simp add: block_count_def HashedSpaceBase_def)
  then have "length (packet_blocks (concat (map comp_packets (out q2)))) \<le> 1"
    using scan_block_bound [OF sz hist(1) _ ps q2] hist(2) by (simp add: td(3))
  then show ?thesis using s td q1 s1(1) q2 by (intro that [of s h q1 s1 q2]) (simp_all only: td(3))
qed

text \<open>
  C1: A scan makes the replica equal to the source, whatever was on the replica, while the
  source is in use.  The scan begins with an empty buffer and the source at \<open>img\<close>; until the
  client has compared all hashes, requests pass through the target, do not fill the buffer
  and turn the source into \<open>img'\<close>.  The server hashes its device and the client compares, each
  with any number of workers under any scheduling, every read of the client seeing any mix
  of the images the source goes through.  The client then sends its buffer; the blocks and
  the writes reach the journal in any interleaving, and when the server applies the journal
  the replica is \<open>img'\<close> and the server is ready for another scan.  The journal must have room
  for what is sent, the device less than 2 TiB, and \<open>hash\<close> must not collide on the blocks
  compared.
\<close>

theorem scan_reaches_source:
  fixes s s1 :: Server and img T :: bytes
  defines "T \<equiv> dev_bytes (TargetDevFd s)"
  assumes server: "scan_ready s h" "journal_slots h" "GetState s = StateHashing" "sendFaults s = []" "healthy (TargetDevFd s)"
    and size: "length T < 2 ^ 63" "length img = length T"
    and bios: "block_layer submit" "\<forall>b \<in> set bs. list_all (capturable (length T)) (bio_segments b)" "map_bios submit bs (bc, img) = Some (bc', img')"
    and ring: "ring_inv (ring_buf bc)" "pending (ring_buf bc) = []" "\<not> overflown (rb_info (ring_buf bc'))"
    and client: "client_up c" "cKernel c = bc'"
    and offs: "block_offsets HashedSpaceBase (of_nat (length T)) 0 = Some offs"
    and hashing: "pipe_runs 3 cap (hash_work_ok hash HashedSpaceBase (TargetDevFd s)) n (map ReadTask offs) q1"
      "HashDisk n (map (Pair False) (out q1)) elapsed s = (Inr (), s1)"
    and comparing: "pipe_runs 3 cap' (scan_work_ok hash (images (map bvec_op (written bs)) img)) n'
      (map HashPacket (hash_packets_since (sent s) s1)) q2"
    and workers: "0 < n" "0 < n'"
    and room: "length (written bs) \<le> unat (bufWritesCount h)"
      "length (packet_blocks (concat (map comp_packets (out q2)))) \<le> unat (corrBlocksCount h)"
    and nc: "collision_free hash (unat HashedSpaceBase) (images (map bvec_op (written bs)) img) T"
  shows "\<exists>c' ps. SendBuffer c = Some (Inr True, c') \<and> conn_out (cConn c') = conn_out (cConn c) @ ps \<and>
    (\<forall>jp \<in> shuffles (concat (map comp_packets (out q2))) ps.
       \<exists>s2 s3 h'. HandleJournalPackets jp s1 = (Inr (), s2) \<and> HandleJournalWriting s2 = (Inr (), s3) \<and>
         dev_bytes (TargetDevFd s3) = img' \<and> scan_ready s3 h' \<and> journal_slots h')"
proof -
  obtain ws c' where w: "SendBuffer c = Some (Inr True, c')"
      "conn_out (cConn c') = conn_out (cConn c) @ map write_packet ws" "img' = replay (map write_op ws) img"
      "map write_op ws = map bvec_op (written bs)" "\<forall>w \<in> set ws. captured (length T) w"
    using capture_period(1) [OF bios ring client] by blast
  have len: "length ws = length (written bs)" using arg_cong [OF w(4), of length] by simp
  have cmp: "pipe_runs 3 cap' (scan_work_ok hash (images (map write_op ws) img)) n'
      (map HashPacket (hash_packets_since (sent s) s1)) q2" using comparing by (simp add: w(4))
  have "\<exists>s2 s3 h'. HandleJournalPackets jp s1 = (Inr (), s2) \<and> HandleJournalWriting s2 = (Inr (), s3) \<and>
         dev_bytes (TargetDevFd s3) = img' \<and> scan_ready s3 h' \<and> journal_slots h'"
    if jp: "jp \<in> shuffles (concat (map comp_packets (out q2))) (map write_packet ws)" for jp
    unfolding w(3)
    by (rule scan_replays [OF server size [unfolded T_def] offs [unfolded T_def] hashing cmp workers w(5) [unfolded T_def] jp])
      (use room len packet_blocks_shuffle [OF jp] nc in \<open>simp_all add: T_def w(4)\<close>)
  then show ?thesis using w(1,2) by (intro exI [of _ c'] exI [of _ "map write_packet ws"]) blast
qed

theorem scan_reaches_source_witness:
  "\<exists>bc' c' ps s (q1 :: HashItem pipe) (q2 :: ScanItem pipe) s1 s2 s3.
     map_bios submit_bio [demo_request] (demo_context, [4, 5, 6]) = Some (bc', [7, 8, 6]) \<and>
     SendBuffer (demo_client bc') = Some (Inr True, c') \<and> conn_out (cConn c') = ps \<and>
     CreateJournal demo_scan = (Inr (), s) \<and> dev_bytes (TargetDevFd s) = [0, 0, 0] \<and>
     HashDisk 2 (map (Pair False) (out q1)) 1 s = (Inr (), s1) \<and>
     HandleJournalPackets (concat (map comp_packets (out q2)) @ ps) s1 = (Inr (), s2) \<and>
     HandleJournalWriting s2 = (Inr (), s3) \<and> dev_bytes (TargetDevFd s3) = [7, 8, 6]"
proof -
  obtain bc' where b: "map_bios submit_bio [demo_request] (demo_context, [4, 5, 6]) = Some (bc', [7, 8, 6])"
    "\<not> overflown (rb_info (ring_buf bc'))" "client_up (demo_client bc')" "cKernel (demo_client bc') = bc'"
    "conn_out (cConn (demo_client bc')) = []" "\<forall>b \<in> set [demo_request]. list_all (capturable 3) (bio_segments b)"
    "ring_inv (ring_buf demo_context)" "pending (ring_buf demo_context) = []"
    "written [demo_request] = bio_segments demo_request" by (rule demo_request_captured)
  let ?hist = "images (map bvec_op (written [demo_request])) [4, 5, 6]"
  have hist: "?hist \<noteq> []" "\<And>i. i \<in> set ?hist \<Longrightarrow> length i = 3"
    by (rule images_props(1)) (drule images_props(2), simp)
  obtain s h s1 q1 q2 where p: "scan_ready s h" "journal_slots h" "GetState s = StateHashing" "sendFaults s = []"
    "healthy (TargetDevFd s)" "dev_bytes (TargetDevFd s) = [0, 0, 0]" "unat (bufWritesCount h) = 2" "unat (corrBlocksCount h) = 1"
    "pipe_runs 3 (\<lambda>_. Suc 1) (hash_work_ok get_be HashedSpaceBase (TargetDevFd s)) 2
      (map ReadTask (map (blk_off (unat HashedSpaceBase)) [0..<block_count (unat HashedSpaceBase) 3])) q1"
    "HashDisk 2 (map (Pair False) (out q1)) 1 s = (Inr (), s1)"
    "pipe_runs 3 (\<lambda>_. Suc 1) (scan_work_ok get_be ?hist) 2 (map HashPacket (hash_packets_since (sent s) s1)) q2"
    "length (packet_blocks (concat (map comp_packets (out q2)))) \<le> 1" "CreateJournal demo_scan = (Inr (), s)"
    by (rule demo_passes [OF hist])
  have len: "length (dev_bytes (TargetDevFd s)) = 3" by (simp add: p(6))
  have "pass_sizes HashedSpaceBase 3" by (simp add: pass_sizes_def HashedSpaceBase_def)
  note offs = pass_offsets [OF this]
  have nc: "collision_free get_be (unat HashedSpaceBase) ?hist (dev_bytes (TargetDevFd s))"
    using get_be_collision_free [OF _ hist(1)] hist(2) len by simp
  obtain c' ps where c: "SendBuffer (demo_client bc') = Some (Inr True, c')" "conn_out (cConn c') = ps"
    "\<forall>jp \<in> shuffles (concat (map comp_packets (out q2))) ps. \<exists>s2 s3 h'. HandleJournalPackets jp s1 = (Inr (), s2) \<and>
       HandleJournalWriting s2 = (Inr (), s3) \<and> dev_bytes (TargetDevFd s3) = [7, 8, 6] \<and> scan_ready s3 h' \<and> journal_slots h'"
    using scan_reaches_source [OF p(1-5) _ _ block_layer_submit_bio _ b(1,7,8,2,3,4) _ p(9,10,11) _ _ _ _ nc] b(5,6,9) offs p(7,8,12)
    by (auto simp: len demo_request_def)
  obtain s2 s3 where "HandleJournalPackets (concat (map comp_packets (out q2)) @ ps) s1 = (Inr (), s2)"
    "HandleJournalWriting s2 = (Inr (), s3)" "dev_bytes (TargetDevFd s3) = [7, 8, 6]"
    using bspec [OF c(3) append_in_shuffles] by auto
  then show ?thesis using b(1) c(1,2) p(6,10,13)
    by (intro exI [of _ bc'] exI [of _ c'] exI [of _ ps] exI [of _ s] exI [of _ q1] exI [of _ q2] exI [of _ s1] exI [of _ s2] exI [of _ s3]) simp
qed

subsection \<open>Overflows and large devices\<close>

text \<open>A buffer that has overflown holds an entry, so the client notices the overflow.\<close>

definition overflow_seen :: "bdr_ring_buffer \<Rightarrow> bool" where
  "overflow_seen rb \<longleftrightarrow> ring_inv rb \<and> (overflown (rb_info rb) \<longrightarrow> bi_length (rb_info rb) \<noteq> 0)"

lemma put_segment_seen:
  assumes "segment_ok w" and "overflow_seen rb"
  shows "overflow_seen (snd (put_segment w rb))"
proof (cases "overflown (rb_info rb)")
  case True
  then show ?thesis using assms(2) by (simp add: put_segment_def bdr_ring_buffer_put_def put_reserve_def)
next
  case False
  have inv: "ring_inv rb" using assms(2) by (simp add: overflow_seen_def)
  then have "unat (bi_length (rb_info rb)) < 2 ^ 32" using ring_invD(2,6) [OF inv] False by simp
  then have n: "bi_length (rb_info rb) + 1 \<noteq> 0" using unat_add_lem [of "bi_length (rb_info rb)" 1] by (auto simp: word_unat_eq_iff)
  have "ring_inv (snd (put_segment w rb))" using ring.puts_keep [OF inv, of "[w]"] assms(1) by (simp add: put_segments_def)
  then show ?thesis using n put_reserve_cases [OF inv False]
    by (auto simp: overflow_seen_def put_segment_def bdr_ring_buffer_put_def put_fill_def Let_def)
qed

lemma map_bios_seen:
  assumes "\<forall>b \<in> set bs. list_all single_page (bio_segments b)" and "map_bios submit bs (bc, img) = Some (bc', img')"
    and "overflow_seen (ring_buf bc)"
  shows "overflow_seen (ring_buf bc')"
  using assms
proof (induction bs arbitrary: bc img)
  case Nil
  then show ?case by simp
next
  case (Cons b bs)
  obtain bc1 img1 where t: "bdr_target_map submit b (bc, img) = Some (bc1, img1)"
      "map_bios submit bs (bc1, img1) = Some (bc', img')" using Cons.prems(2) by (auto simp: bind_eq_Some_conv)
  have sp: "list_all single_page (bio_segments b)" using Cons.prems(1) by simp
  have "overflow_seen (put_segments ws rb)" if "list_all segment_ok ws" "overflow_seen rb" for ws rb
    using that by (induction ws arbitrary: rb) (simp_all add: put_segments_def put_segment_seen)
  moreover have "list_all segment_ok (map segment_of (bio_segments b))" using sp by (auto simp: list_all_iff single_page_def)
  ultimately have "overflow_seen (ring_buf bc1)" using target_map_effect [OF sp t(1)] Cons.prems(3) by auto
  then show ?case using Cons.IH [OF _ t(2)] Cons.prems(1) by simp
qed

lemma map_bios_source:
  assumes "block_layer submit" and "\<forall>b \<in> set bs. list_all single_page (bio_segments b)" and "map_bios submit bs (bc, img) = Some (bc', img')"
  shows "img' = replay (map bvec_op (written bs)) img"
  using assms
proof (induction bs arbitrary: bc img)
  case Nil
  then show ?case by (simp add: written_def)
next
  case (Cons b bs)
  obtain bc1 img1 where t: "bdr_target_map submit b (bc, img) = Some (bc1, img1)"
      "map_bios submit bs (bc1, img1) = Some (bc', img')" using Cons.prems(3) by (auto simp: bind_eq_Some_conv)
  have "img1 = submit b img" using target_map_effect [OF _ t(1)] Cons.prems(2) by simp
  then show ?case using Cons.IH [OF Cons.prems(1) _ t(2)] Cons.prems(1,2) by (auto simp: written_def block_layer_def)
qed

text \<open>
  C4: No write is lost when the buffer overflows.  Requests pass through the target and fill
  the buffer; every one of them reaches the source.  The next iteration of the monitor
  notices the overflow whatever the buffer still holds, empties the buffer so that it
  captures again, pauses itself and asks the server for a scan, which copies the difference.
\<close>

theorem overflow_rescans:
  assumes bios: "block_layer submit" "\<forall>b \<in> set bs. list_all single_page (bio_segments b)" "map_bios submit bs (bc, img) = Some (bc', img')"
    and ring: "ring_inv (ring_buf bc)" "\<not> overflown (rb_info (ring_buf bc))" "overflown (rb_info (ring_buf bc'))"
    and client: "client_up c" "cKernel c = bc'" "cPause c = None"
  shows "img' = replay (map bvec_op (written bs)) img \<and>
    (\<exists>c'. monitor_step pick es c = Some (Inr False, c') \<and> Client_GetState c' = ClientHashing \<and> cPause c' = Some Paused \<and>
       conn_out (cConn c') = conn_out (cConn c) @ [CreateInfoPacket PacketTypeCmdStartHashing] \<and>
       ring_inv (ring_buf (cKernel c')) \<and> pending (ring_buf (cKernel c')) = [] \<and> \<not> overflown (rb_info (ring_buf (cKernel c'))))"
proof -
  have seen: "overflow_seen (ring_buf bc')" using map_bios_seen [OF bios(2,3)] ring by (simp add: overflow_seen_def)
  let ?c = "c\<lparr>cStats := RecordBufferOverflow (cStats c)\<rparr>"
  have "StartHashing ?c = Some (sent_on [CreateInfoPacket PacketTypeCmdStartHashing] (scanning ?c))"
    by (rule StartHashing_ok) (use client(1) in \<open>simp_all add: client_up_def\<close>)
  then have "monitor_step pick es c = Some (Inr False, sent_on [CreateInfoPacket PacketTypeCmdStartHashing] (scanning ?c))"
    using seen ring(3) client(2) by (simp add: monitor_reads [OF client(1,3)] overflow_seen_def)
  then show ?thesis using map_bios_source [OF bios] ring_reset seen client(2)
    by (simp add: Client_GetState_def sent_on_def scanning_def overflow_seen_def)
qed

definition demo_burst :: bio where
  "demo_burst = demo_request\<lparr>bio_segments := (let vs = bio_segments demo_request in vs @ vs @ vs @ vs)\<rparr>"

theorem overflow_rescans_witness:
  "\<exists>bc' c'. map_bios submit_bio [demo_burst] (demo_context, [4, 5, 6]) = Some (bc', [7, 8, 6]) \<and>
     overflown (rb_info (ring_buf bc')) \<and> monitor_step False [] (demo_client bc') = Some (Inr False, c') \<and>
     conn_out (cConn c') = [CreateInfoPacket PacketTypeCmdStartHashing] \<and> \<not> overflown (rb_info (ring_buf (cKernel c')))"
proof -
  have sp: "list_all single_page (bio_segments demo_burst)"
    by (simp add: demo_burst_def demo_request_def single_page_def segment_ok_def segment_of_def PAGE_SIZE_def)
  have ring: "ring_buf demo_context = demo_ring" "ring_inv demo_ring" "\<not> overflown (rb_info demo_ring)"
    using demo_ring_facts by (simp_all add: demo_context_def)
  obtain bc' where t: "bdr_target_map submit_bio demo_burst (demo_context, [4, 5, 6]) = Some (bc', [7, 8, 6])"
    using ring(1,3) by (simp add: bdr_target_map_def bdr_ring_buffer_is_full_def demo_burst_def demo_request_def submit_bio_def
        bvec_op_def bslice_def overwrite_def)
  let ?ws = "map segment_of (bio_segments demo_burst)"
  have rb: "ring_buf bc' = put_segments ?ws demo_ring"
    using target_map_effect [OF sp t] ring by (simp add: demo_burst_def demo_request_def)
  have ok: "list_all segment_ok ?ws" using sp by (auto simp: list_all_iff single_page_def)
  have over: "overflown (rb_info (ring_buf bc'))"
    using ring.puts_over [OF ring(2) ok ring(3)] demo_ring_facts(3,4,6)
    by (simp add: rb put_segments_def demo_burst_def demo_request_def)
  have m: "map_bios submit_bio [demo_burst] (demo_context, [4, 5, 6]) = Some (bc', [7, 8, 6])" by (simp add: t)
  have d: "cKernel (demo_client bc') = bc'" "cPause (demo_client bc') = None" "conn_out (cConn (demo_client bc')) = []"
    by (simp_all add: demo_client_def)
  show ?thesis
    using overflow_rescans [OF block_layer_submit_bio _ m _ _ over demo_client_put [OF ok rb] d(1,2), of False "[]"] sp ring m over d(3)
    by auto
qed

text \<open>
  C31: On a device of 2 TiB or more a captured write may reach the wrong place of the replica.
  The buffer keeps 32 bits of a sector, so the packet that the client sends for a segment has
  the offset of the sector modulo \<open>2 ^ 32\<close>: it is right exactly for the segments below 2 TiB.
\<close>

theorem sector_truncated:
  assumes bio: "bio_is_write b" "bio_segments b = [v]" "single_page v" "bdr_target_map submit b (bc, dev) = Some (bc', dev')"
    and ring: "ring_inv (ring_buf bc)" "pending (ring_buf bc) = []" "\<not> overflown (rb_info (ring_buf bc))" "\<not> overflown (rb_info (ring_buf bc'))"
    and client: "client_up c" "cKernel c = bc'" "cPause c = None"
  shows "\<exists>c' w. monitor_step pick es c = Some (Inr False, c') \<and> conn_out (cConn c') = conn_out (cConn c) @ [write_packet w] \<and>
    unat (wiOffset w) = 512 * (unat (bv_sector v) mod 2 ^ 32) \<and>
    (unat (wiOffset w) = 512 * unat (bv_sector v) \<longleftrightarrow> unat (bv_sector v) < 2 ^ 32)"
proof -
  have rb: "ring_buf bc' = put_segments [segment_of v] (ring_buf bc)"
    using target_map_effect [OF _ bio(4)] bio(1-3) ring(3) by simp
  have ok: "list_all segment_ok [segment_of v]" using bio(3) by (simp add: single_page_def)
  have pend: "list_all2 entry_of [segment_of v] (pending (ring_buf (cKernel c)))" "ring_inv (ring_buf (cKernel c))"
    using pending_written [OF ring(1,2) ok] ring(4) client(2) by (simp_all add: rb)
  obtain w where w: "decodes (segment_of v) w" "monitor_step pick es c = Some (Inr False, sent_on [write_packet w] (drained c))"
    using client_sends(2) [OF client(1) pend(2) _ pend(1) ok client(3), of pick es] ring(4) client(2) by (auto simp: list_all2_Cons1)
  have "unat (wiOffset w) = 512 * unat (ucast (bv_sector v) :: u32)"
    using w(1) by (simp add: decodes_def write_op_def segment_op_def segment_of_def)
  then have off: "unat (wiOffset w) = 512 * (unat (bv_sector v) mod 2 ^ 32)" by (simp add: unsigned_ucast_eq take_bit_eq_mod)
  have "unat (bv_sector v) mod 2 ^ 32 = unat (bv_sector v) \<longleftrightarrow> unat (bv_sector v) < 2 ^ 32"
    using mod_less_divisor [of "2 ^ 32 :: nat" "unat (bv_sector v)"] by (auto simp: mod_less)
  then show ?thesis using w(2) off by (intro exI [of _ "sent_on [write_packet w] (drained c)"] exI [of _ w]) simp
qed

definition demo_far :: bio where
  "demo_far = \<lparr>bio_is_write = True,
     bio_segments = [\<lparr>bv_page = [7, 8] @ replicate 4094 0, bv_offset = 0, bv_len = 2, bv_sector = 2 ^ 32 + 3\<rparr>]\<rparr>"

theorem sector_truncated_witness:
  "\<exists>bc' c' w. bdr_target_map (\<lambda>b d. d) demo_far (demo_context, ()) = Some (bc', ()) \<and>
     monitor_step False [] (demo_client bc') = Some (Inr False, c') \<and> conn_out (cConn c') = [write_packet w] \<and> unat (wiOffset w) = 1536"
proof -
  define v where "v = \<lparr>bv_page = [7, 8] @ replicate 4094 0, bv_offset = 0, bv_len = 2, bv_sector = 2 ^ 32 + 3\<rparr>"
  have b: "bio_is_write demo_far" "bio_segments demo_far = [v]" "single_page v" "unat (bv_sector v) mod 2 ^ 32 = 3"
    by (simp_all add: demo_far_def v_def single_page_def segment_ok_def segment_of_def PAGE_SIZE_def)
  note r = demo_ring_facts
  have rb0: "ring_buf demo_context = demo_ring" by (simp add: demo_context_def)
  obtain bc' where t: "bdr_target_map (\<lambda>b d. d) demo_far (demo_context, ()) = Some (bc', ())"
    using r(2) by (simp add: bdr_target_map_def bdr_ring_buffer_is_full_def rb0 b(1))
  have rb: "ring_buf bc' = put_segments [segment_of v] demo_ring"
    using target_map_effect [OF _ t] b r by (simp add: demo_context_def)
  have ok: "list_all segment_ok [segment_of v]" using b(3) by (simp add: single_page_def)
  have over: "\<not> overflown (rb_info (ring_buf bc'))"
    using ring.puts_over [OF r(1) ok r(2)] r(3,4,6) by (simp add: rb put_segments_def)
  have d: "cKernel (demo_client bc') = bc'" "cPause (demo_client bc') = None" "conn_out (cConn (demo_client bc')) = []"
    by (simp_all add: demo_client_def)
  show ?thesis
    using sector_truncated [OF b(1-3) t _ _ _ over demo_client_put [OF ok rb] d(1,2), of False "[]"] r t d(3) b(4)
    by (auto simp: demo_context_def)
qed

end
